(* ===== verification/Prelude.thy ===== *)
theory Prelude
  imports Complex_Main "HOL-Library.Multiset" "HOL-Library.Product_Lexorder" "HOL-Library.Sublist"
begin

text \<open>
  Shared vocabulary of the development.

  \<^item> \<open>panic\<close> and \<open>'a res\<close>: a Rust function that may panic (\<open>assert!\<close>, \<open>unwrap\<close>, \<open>expect\<close>,
    an out-of-range index, \<open>unreachable!\<close>) is modelled as a function into the sum
    \<open>panic + 'a\<close>; \<open>Inl\<close> is the panic with the site it comes from. \<open>Diverges\<close> stands for a loop
    that never ends.
  \<^item> \<open>as_usize\<close>, \<open>as_i64\<close>: the casts \<open>x as usize\<close> and \<open>n as i64\<close> of a 64-bit target, which
    reinterpret the two's complement bits; \<open>wrap_i64\<close>: an \<open>i64\<close> result, which wraps around.
  \<^item> generic lemmas on lists and multisets; the collection \<open>conserve\<close> gathers the equations that
    say that an operation neither loses nor duplicates an element.
\<close>

named_theorems conserve \<open>multiset equations: nothing lost, nothing duplicated\<close>

section \<open>Panics\<close>

datatype panic = Panic string | Diverges

type_synonym 'a res = "panic + 'a"

definition bind_res :: "'a res \<Rightarrow> ('a \<Rightarrow> 'b res) \<Rightarrow> 'b res" where
  "bind_res r k = (case r of Inl e \<Rightarrow> Inl e | Inr a \<Rightarrow> k a)"

lemma bind_res_simps [simp]:
  "bind_res (Inl e) k = Inl e"
  "bind_res (Inr a) k = k a"
  by (simp_all add: bind_res_def)

lemma bind_res_Inr [simp]: "bind_res r k = Inr b \<longleftrightarrow> (\<exists>a. r = Inr a \<and> k a = Inr b)"
  by (cases r) (simp_all add: bind_res_def)

lemma bind_res_cong [fundef_cong]:
  "r = r' \<Longrightarrow> (\<And>a. r' = Inr a \<Longrightarrow> k a = k' a) \<Longrightarrow> bind_res r k = bind_res r' k'"
  by (cases r') simp_all

definition assert_res :: "bool \<Rightarrow> string \<Rightarrow> 'a res \<Rightarrow> 'a res" where
  "assert_res b msg r = (if b then r else Inl (Panic msg))"

lemma assert_res_True [simp]: "b \<Longrightarrow> assert_res b msg r = r"
  by (simp add: assert_res_def)

lemma assert_res_False [simp]: "\<not> b \<Longrightarrow> assert_res b msg r = Inl (Panic msg)"
  by (simp add: assert_res_def)

lemma assert_res_Inr [simp]: "assert_res b msg r = Inr a \<longleftrightarrow> b \<and> r = Inr a"
  by (simp add: assert_res_def)

text \<open>Mapping a function that may panic over a list, from left to right.\<close>

fun map_res :: "('a \<Rightarrow> 'b res) \<Rightarrow> 'a list \<Rightarrow> 'b list res" where
  "map_res f [] = Inr []"
| "map_res f (x # xs) = bind_res (f x) (\<lambda>y. bind_res (map_res f xs) (\<lambda>ys. Inr (y # ys)))"

lemma map_res_Inr: "(\<forall>x \<in> set xs. f x = Inr (g x)) \<Longrightarrow> map_res f xs = Inr (map g xs)"
  by (induction xs) simp_all

section \<open>Integer casts\<close>

definition as_usize :: "int \<Rightarrow> nat" where
  "as_usize x = nat (x mod 2 ^ 64)"

definition as_i64 :: "nat \<Rightarrow> int" where
  "as_i64 n = (int n + 2 ^ 63) mod 2 ^ 64 - 2 ^ 63"

lemma as_usize_nonneg: "0 \<le> x \<Longrightarrow> x < 2 ^ 64 \<Longrightarrow> as_usize x = nat x"
  by (simp add: as_usize_def)

lemma as_i64_small: "n < 2 ^ 63 \<Longrightarrow> as_i64 n = int n"
  by (simp add: as_i64_def)

text \<open>\<open>+\<close>, \<open>-\<close> and \<open>*\<close> on \<open>i64\<close> wrap around in a release build.\<close>

definition wrap_i64 :: "int \<Rightarrow> int" where
  "wrap_i64 x = (x + 2 ^ 63) mod 2 ^ 64 - 2 ^ 63"

lemma wrap_i64_id: "- (2 ^ 63) \<le> x \<Longrightarrow> x < 2 ^ 63 \<Longrightarrow> wrap_i64 x = x"
  by (simp add: wrap_i64_def)

lemma wrap_i64_code [code]:
  "wrap_i64 x = (if - 9223372036854775808 \<le> x \<and> x < 9223372036854775808 then x
     else (x + 9223372036854775808) mod 18446744073709551616 - 9223372036854775808)"
  by (simp add: wrap_i64_def)

text \<open>\<open>i64\<close> division truncates towards zero.\<close>

definition div_i64 :: "int \<Rightarrow> int \<Rightarrow> int" where
  "div_i64 a b = sgn a * sgn b * (\<bar>a\<bar> div \<bar>b\<bar>)"

lemma div_i64_nonneg: "0 \<le> a \<Longrightarrow> 0 < b \<Longrightarrow> div_i64 a b = a div b"
  by (cases "a = 0") (simp_all add: div_i64_def)

section \<open>Lists and multisets\<close>

lemma mset_filter_not [conserve]: "mset (filter P xs) + mset (filter (\<lambda>x. \<not> P x) xs) = mset xs"
  by (induction xs) auto

lemma mset_filter_not' [conserve]: "mset (filter P xs) + mset (filter (Not \<circ> P) xs) = mset xs"
  by (induction xs) auto

lemma mset_filter_three:
  "mset (filter P xs) + (mset (filter (\<lambda>x. \<not> P x \<and> Q x) xs) + mset (filter (\<lambda>x. \<not> P x \<and> \<not> Q x) xs)) = mset xs"
  by (induction xs) auto

lemma partition_mset: "partition P xs = (ys, zs) \<Longrightarrow> mset ys + mset zs = mset xs"
  by (auto simp: conserve)

lemma partition_eq: "partition P xs = (filter P xs, filter (\<lambda>x. \<not> P x) xs)"
  by (simp add: o_def)

text \<open>\<open>iter().min()\<close> and \<open>iter().max()\<close> of a list of numbers, \<open>None\<close> when it is empty.\<close>

fun min_opt :: "'a::linorder list \<Rightarrow> 'a option" where
  "min_opt [] = None"
| "min_opt (x # xs) = Some (fold min xs x)"

fun max_opt :: "'a::linorder list \<Rightarrow> 'a option" where
  "max_opt [] = None"
| "max_opt (x # xs) = Some (fold max xs x)"

lemma fold_min_le: "fold min xs (x::'a::linorder) \<le> x \<and> (\<forall>y \<in> set xs. fold min xs x \<le> y)"
  by (induction xs arbitrary: x) (auto intro: order_trans, (metis min.bounded_iff)+)

lemma fold_min_in: "fold min xs (x::'a::linorder) \<in> insert x (set xs)"
proof (induction xs arbitrary: x)
  case (Cons a xs)
  show ?case using Cons.IH [of "min a x"] by (auto simp: min_def split: if_splits)
qed simp

lemma fold_max_ge: "x \<le> fold max xs (x::'a::linorder) \<and> (\<forall>y \<in> set xs. y \<le> fold max xs x)"
  by (induction xs arbitrary: x) (auto intro: order_trans, (metis max.bounded_iff)+)

lemma fold_max_in: "fold max xs (x::'a::linorder) \<in> insert x (set xs)"
proof (induction xs arbitrary: x)
  case (Cons a xs)
  show ?case using Cons.IH [of "max a x"] by (auto simp: max_def split: if_splits)
qed simp

lemma min_opt_Some:
  assumes "min_opt xs = Some m"
  shows "m \<in> set xs \<and> (\<forall>y \<in> set xs. m \<le> y)"
proof (cases xs)
  case (Cons x ys)
  then show ?thesis using assms fold_min_le [of ys x] fold_min_in [of ys x] by auto
qed (use assms in simp)

lemma max_opt_Some:
  assumes "max_opt xs = Some m"
  shows "m \<in> set xs \<and> (\<forall>y \<in> set xs. y \<le> m)"
proof (cases xs)
  case (Cons x ys)
  then show ?thesis using assms fold_max_ge [of x ys] fold_max_in [of ys x] by auto
qed (use assms in simp)

lemma min_opt_None [simp]: "min_opt xs = None \<longleftrightarrow> xs = []"
  by (cases xs) auto

lemma max_opt_None [simp]: "max_opt xs = None \<longleftrightarrow> xs = []"
  by (cases xs) auto

lemma fold_min_key: "fold (\<lambda>f m. min m (k f)) fs a = fold min (map k fs) (a::'a::linorder)"
  by (induction fs arbitrary: a) (simp_all add: min.commute)

lemma fold_max_key: "fold (\<lambda>f m. max m (k f)) fs a = fold max (map k fs) (a::'a::linorder)"
  by (induction fs arbitrary: a) (simp_all add: max.commute)

lemma filter_le_takeWhile: "sorted (map k xs) \<Longrightarrow> filter (\<lambda>x. k x \<le> c) xs = takeWhile (\<lambda>x. k x \<le> c) xs"
proof (induction xs)
  case (Cons x xs)
  moreover have "filter (\<lambda>x. k x \<le> c) xs = []" if "\<not> k x \<le> c"
    using Cons.prems that by (auto simp: filter_empty_conv)
  ultimately show ?case by auto
qed simp

lemma mset_remove_members:
  assumes "distinct T" "distinct xs" "set xs \<subseteq> set T"
  shows "mset xs + mset (filter (\<lambda>f. f \<notin> set xs) T) = mset T"
proof -
  have "mset xs = mset (filter (\<lambda>f. f \<in> set xs) T)"
    using assms by (subst set_eq_iff_mset_eq_distinct [symmetric]) auto
  then show ?thesis by (simp only: mset_filter_not)
qed

lemma mset_concat_cong: "mset xss = mset yss \<Longrightarrow> mset (concat xss) = mset (concat yss)"
  by (metis mset_concat mset_map sum_mset_sum_list)

lemma sort_key_short: "length xs < 2 \<Longrightarrow> sort_key k xs = xs"
  by (cases xs; cases "tl xs") auto

lemma sorted_wrt_permute:
  assumes "sorted_wrt R xs" "\<And>a b. R a b \<Longrightarrow> R b a"
  shows "sorted_wrt R (sort_key k xs)"
proof -
  have ins: "sorted_wrt R (insort_key k x ys)" if "sorted_wrt R ys" "\<forall>y \<in> set ys. R x y" for x ys
    using that assms(2) by (induction ys) (auto simp: set_insort_key)
  show ?thesis using assms(1) by (induction xs) (auto intro!: ins)
qed

end
