(* ===== verification/Data_Types.thy ===== *)
theory Data_Types
  imports Prelude
begin

text \<open>
  The data model of \<open>data_types/src/lib.rs\<close> that the compactor works on: compaction levels,
  timestamps, Parquet file metadata with its time-range predicates, and the two kinds of
  timestamp ranges. Timestamps and sizes (\<open>i64\<close>) are integers; where the source uses checked
  arithmetic or \<open>clamp\<close>, the failing branch is a panic.
\<close>

section \<open>Compaction levels\<close>

datatype compaction_level = Initial | FileNonOverlapped | Final

fun level_ord :: "compaction_level \<Rightarrow> int" where
  "level_ord Initial = 0"
| "level_ord FileNonOverlapped = 1"
| "level_ord Final = 2"

lemma level_ord_inj [simp]: "level_ord a = level_ord b \<longleftrightarrow> a = b"
  by (cases a; cases b) auto

text \<open>The derived \<open>Ord\<close> compares the discriminants.\<close>

instantiation compaction_level :: linorder
begin

definition less_eq_compaction_level :: "compaction_level \<Rightarrow> compaction_level \<Rightarrow> bool" where
  "less_eq_compaction_level a b \<longleftrightarrow> level_ord a \<le> level_ord b"

definition less_compaction_level :: "compaction_level \<Rightarrow> compaction_level \<Rightarrow> bool" where
  "less_compaction_level a b \<longleftrightarrow> level_ord a < level_ord b"

instance
  by standard (auto simp: less_eq_compaction_level_def less_compaction_level_def)

end

lemmas level_order_defs = less_eq_compaction_level_def less_compaction_level_def

definition level_try_from :: "int \<Rightarrow> string + compaction_level" where
  "level_try_from v =
     (if v = level_ord Initial then Inr Initial
      else if v = level_ord FileNonOverlapped then Inr FileNonOverlapped
      else if v = level_ord Final then Inr Final
      else Inl ''invalid compaction level value'')"

fun next_level :: "compaction_level \<Rightarrow> compaction_level" where
  "next_level Initial = FileNonOverlapped"
| "next_level FileNonOverlapped = Final"
| "next_level Final = Final"

fun prev_level :: "compaction_level \<Rightarrow> compaction_level" where
  "prev_level Initial = Initial"
| "prev_level FileNonOverlapped = Initial"
| "prev_level Final = FileNonOverlapped"

definition all_levels :: "compaction_level list" where
  "all_levels = [Initial, FileNonOverlapped, Final]"

lemma level_try_from_ord: "level_try_from (level_ord l) = Inr l"
  by (cases l) (simp_all add: level_try_from_def)

lemma prev_level_le [simp]: "prev_level l \<le> l"
  by (cases l) (simp_all add: level_order_defs)

lemma prev_level_neq [simp]: "l \<noteq> Initial \<Longrightarrow> prev_level l \<noteq> l"
  by (cases l) simp_all

lemma prev_level_less: "l \<noteq> Initial \<Longrightarrow> prev_level l < l"
  by (cases l) (simp_all add: level_order_defs)

lemma le_prev_level_iff: "l \<noteq> Initial \<Longrightarrow> k = l \<or> k = prev_level l \<Longrightarrow> k \<le> prev_level l \<longleftrightarrow> k = prev_level l"
  by (cases l) (auto simp: level_order_defs)

section \<open>Timestamps\<close>

type_synonym timestamp = int

definition i64_min :: int where "i64_min = - (2 ^ 63)"
definition i64_max :: int where "i64_max = 2 ^ 63 - 1"

definition in_i64 :: "int \<Rightarrow> bool" where
  "in_i64 v \<longleftrightarrow> i64_min \<le> v \<and> v \<le> i64_max"

definition timestamp_add :: "timestamp \<Rightarrow> timestamp \<Rightarrow> timestamp res" where
  "timestamp_add a b = assert_res (in_i64 (a + b)) ''timestamp wraparound'' (Inr (a + b))"

definition timestamp_sub :: "timestamp \<Rightarrow> timestamp \<Rightarrow> timestamp res" where
  "timestamp_sub a b = assert_res (in_i64 (a - b)) ''timestamp wraparound'' (Inr (a - b))"

definition min_nano_time :: int where "min_nano_time = i64_min + 2"
definition max_nano_time :: int where "max_nano_time = i64_max - 1"

section \<open>Parquet files\<close>

datatype transition_partition_id = Deprecated int | Deterministic "int list"

type_synonym uuid = nat

record parquet_file_params =
  namespace_id :: int
  table_id :: int
  partition_id :: transition_partition_id
  object_store_id :: uuid
  min_time :: timestamp
  max_time :: timestamp
  file_size_bytes :: int
  row_count :: int
  compaction_level :: compaction_level
  created_at :: timestamp
  column_set :: "int list"
  max_l0_created_at :: timestamp

record parquet_file = parquet_file_params +
  pf_id :: int
  to_delete :: "timestamp option"

definition from_params :: "parquet_file_params \<Rightarrow> int \<Rightarrow> parquet_file" where
  "from_params p i = parquet_file_params.extend p \<lparr>pf_id = i, to_delete = None\<rparr>"

definition params_from :: "parquet_file \<Rightarrow> parquet_file_params" where
  "params_from f = parquet_file_params.truncate f"

definition overlaps :: "parquet_file \<Rightarrow> parquet_file \<Rightarrow> bool" where
  "overlaps self other \<longleftrightarrow> min_time self \<le> max_time other \<and> max_time self \<ge> min_time other"

definition overlaps_time_range :: "parquet_file \<Rightarrow> timestamp \<Rightarrow> timestamp \<Rightarrow> bool" where
  "overlaps_time_range self mn mx \<longleftrightarrow> min_time self \<le> mx \<and> max_time self \<ge> mn"

fun needs_split :: "parquet_file \<Rightarrow> int list \<Rightarrow> bool" where
  "needs_split self [] = False"
| "needs_split self (t # ts) =
     (if min_time self \<le> t \<and> max_time self > t then True else needs_split self ts)"

record file_range =
  fr_min :: int
  fr_max :: int
  fr_cap :: nat

fun overlaps_ranges :: "parquet_file \<Rightarrow> file_range list \<Rightarrow> bool" where
  "overlaps_ranges self [] = False"
| "overlaps_ranges self (r # rs) =
     (if min_time self \<le> fr_max r \<and> max_time self \<ge> fr_min r then True
      else overlaps_ranges self rs)"

text \<open>A file whose time range is not inverted, as every persisted file has.\<close>

definition wf_file :: "parquet_file \<Rightarrow> bool" where
  "wf_file f \<longleftrightarrow> min_time f \<le> max_time f"

lemma overlaps_sym: "overlaps a b \<longleftrightarrow> overlaps b a"
  by (auto simp: overlaps_def)

lemma overlaps_refl: "wf_file f \<Longrightarrow> overlaps f f"
  by (simp add: overlaps_def wf_file_def)

lemma overlaps_as_range: "overlaps a b = overlaps_time_range a (min_time b) (max_time b)"
  by (simp add: overlaps_def overlaps_time_range_def)

text \<open>Two files overlap exactly if some timestamp lies in both closed ranges.\<close>

lemma overlaps_iff_common_time:
  assumes "wf_file a" "wf_file b"
  shows "overlaps a b \<longleftrightarrow> (\<exists>t. min_time a \<le> t \<and> t \<le> max_time a \<and> min_time b \<le> t \<and> t \<le> max_time b)"
    (is "?l = ?r")
proof
  assume ?l
  then show ?r
    using assms by (intro exI [of _ "max (min_time a) (min_time b)"]) (auto simp: overlaps_def wf_file_def)
next
  assume ?r
  then show ?l by (auto simp: overlaps_def)
qed

lemma needs_split_iff: "needs_split f ts \<longleftrightarrow> (\<exists>t \<in> set ts. min_time f \<le> t \<and> t < max_time f)"
  by (induction ts) auto

lemma overlaps_ranges_iff:
  "overlaps_ranges f rs \<longleftrightarrow> (\<exists>r \<in> set rs. overlaps_time_range f (fr_min r) (fr_max r))"
  by (induction rs) (auto simp: overlaps_time_range_def)

lemma params_from_params: "params_from (from_params p i) = p"
  by (simp add: from_params_def params_from_def parquet_file_params.defs)

text \<open>
  A file for the examples: identifier, level, time range, size and \<open>max_l0_created_at\<close>; the other
  fields are fixed.
\<close>

definition file_of :: "int \<Rightarrow> compaction_level \<Rightarrow> int \<Rightarrow> int \<Rightarrow> int \<Rightarrow> int \<Rightarrow> parquet_file" where
  "file_of i l mn mx sz l0 =
     \<lparr>namespace_id = 0, table_id = 0, partition_id = Deprecated 0, object_store_id = nat i,
      min_time = mn, max_time = mx, file_size_bytes = sz, row_count = 1, compaction_level = l,
      created_at = l0, column_set = [], max_l0_created_at = l0, pf_id = i, to_delete = None\<rparr>"

section \<open>Timestamp ranges\<close>

record timestamp_range =
  tr_start :: int
  tr_end :: int

text \<open>\<open>Ord::clamp\<close> asserts that its lower bound does not exceed its upper bound.\<close>

definition clamp :: "int \<Rightarrow> int \<Rightarrow> int \<Rightarrow> int res" where
  "clamp x lo hi = assert_res (lo \<le> hi) ''assertion failed: min <= max''
     (Inr (if x < lo then lo else if x > hi then hi else x))"

definition timestamp_range_new :: "int \<Rightarrow> int \<Rightarrow> timestamp_range res" where
  "timestamp_range_new s e =
     bind_res (clamp s min_nano_time e) (\<lambda>s'.
       Inr \<lparr>tr_start = s', tr_end = max e min_nano_time\<rparr>)"

definition contains_all :: "timestamp_range \<Rightarrow> bool" where
  "contains_all r \<longleftrightarrow> tr_start r \<le> min_nano_time \<and> tr_end r > max_nano_time"

definition contains_nearly_all :: "timestamp_range \<Rightarrow> bool" where
  "contains_nearly_all r \<longleftrightarrow> tr_start r \<le> min_nano_time \<and> tr_end r \<ge> max_nano_time"

definition range_contains :: "timestamp_range \<Rightarrow> int \<Rightarrow> bool" where
  "range_contains r v \<longleftrightarrow> tr_start r \<le> v \<and> v < tr_end r"

record timestamp_min_max =
  mm_min :: int
  mm_max :: int

definition timestamp_min_max_new :: "int \<Rightarrow> int \<Rightarrow> timestamp_min_max res" where
  "timestamp_min_max_new mn mx =
     assert_res (mn \<le> mx) ''expected min <= max'' (Inr \<lparr>mm_min = mn, mm_max = mx\<rparr>)"

definition min_max_overlaps :: "timestamp_min_max \<Rightarrow> timestamp_range \<Rightarrow> bool" where
  "min_max_overlaps mm r \<longleftrightarrow>
     range_contains r (mm_min mm) \<or> range_contains r (mm_max mm)
     \<or> (mm_min mm \<le> tr_start r \<and> mm_max mm \<ge> tr_end r)"

lemma range_new_contains:
  assumes "timestamp_range_new s e = Inr r"
  shows "range_contains r v \<longleftrightarrow> max s min_nano_time \<le> v \<and> v < e"
  using assms by (auto simp: timestamp_range_new_def clamp_def range_contains_def split: if_splits)

text \<open>
  C17. Construction of a query range. \<open>TimestampRange::new\<close> panics exactly when the end lies below the
  smallest representable time; otherwise the range is well formed, it contains exactly the
  representable timestamps from the requested start to before the requested end, and
  \<open>contains_all\<close> answers whether every representable timestamp is among them.
\<close>

theorem timestamp_range_new_spec:
  "case timestamp_range_new s e of
     Inl _ \<Rightarrow> e < min_nano_time
   | Inr r \<Rightarrow> min_nano_time \<le> e \<and> min_nano_time \<le> tr_start r \<and> tr_start r \<le> tr_end r
       \<and> {v. range_contains r v} = {v. min_nano_time \<le> v \<and> s \<le> v \<and> v < e}
       \<and> (contains_all r \<longleftrightarrow> {min_nano_time..max_nano_time} \<subseteq> {v. range_contains r v})"
proof (cases "timestamp_range_new s e")
  case (Inl p)
  then show ?thesis by (auto simp: timestamp_range_new_def clamp_def assert_res_def split: if_splits)
next
  case (Inr r)
  have "min_nano_time \<le> max_nano_time" by (simp add: min_nano_time_def max_nano_time_def i64_min_def i64_max_def)
  then have "contains_all r \<longleftrightarrow> {min_nano_time..max_nano_time} \<subseteq> {v. range_contains r v}"
    by (auto simp: contains_all_def range_contains_def subset_iff)
  moreover have "{v. range_contains r v} = {v. min_nano_time \<le> v \<and> s \<le> v \<and> v < e}"
    using range_new_contains [OF Inr] by auto
  moreover have "min_nano_time \<le> e \<and> min_nano_time \<le> tr_start r \<and> tr_start r \<le> tr_end r"
    using Inr by (auto simp: timestamp_range_new_def clamp_def split: if_splits)
  ultimately show ?thesis using Inr by simp
qed

text \<open>
  C18. Pruning by min/max statistics is sound and, but for one case, exact. For a well formed range
  \<open>TimestampMinMax::overlaps\<close> holds if and only if some timestamp between min and max lies in the
  range, or the range is empty and its start lies between min and max.
\<close>

theorem min_max_overlaps_exact:
  assumes "timestamp_min_max_new mn mx = Inr mm" and "timestamp_range_new s e = Inr r"
  shows "min_max_overlaps mm r \<longleftrightarrow>
     (\<exists>v. mn \<le> v \<and> v \<le> mx \<and> range_contains r v)
     \<or> (tr_start r = tr_end r \<and> mn \<le> tr_start r \<and> tr_start r \<le> mx)"
    (is "_ \<longleftrightarrow> (\<exists>v. ?in v) \<or> ?empty")
proof
  have wf: "mm_min mm = mn" "mm_max mm = mx" "mn \<le> mx" "tr_start r \<le> tr_end r"
    using assms by (auto simp: timestamp_min_max_new_def timestamp_range_new_def clamp_def split: if_splits)
  show "min_max_overlaps mm r \<Longrightarrow> (\<exists>v. ?in v) \<or> ?empty"
  proof (rule disjCI)
    assume h: "min_max_overlaps mm r" "\<not> ?empty"
    then have "?in mn \<or> ?in mx \<or> ?in (tr_start r)"
      using wf by (auto simp: min_max_overlaps_def range_contains_def)
    then show "\<exists>v. ?in v" by blast
  qed
  show "(\<exists>v. ?in v) \<or> ?empty \<Longrightarrow> min_max_overlaps mm r"
    using wf by (auto simp: min_max_overlaps_def range_contains_def)
qed

theorem min_max_overlaps_exact_witness:
  "\<exists>mm r. timestamp_min_max_new 5 9 = Inr mm \<and> timestamp_range_new 7 7 = Inr r
     \<and> min_max_overlaps mm r \<and> (\<nexists>v. range_contains r v)"
proof -
  have h: "timestamp_min_max_new 5 9 = Inr \<lparr>mm_min = 5, mm_max = 9\<rparr>"
    "timestamp_range_new 7 7 = Inr \<lparr>tr_start = 7, tr_end = 7\<rparr>" by code_simp+
  show ?thesis using min_max_overlaps_exact [OF h] h by (simp add: range_contains_def)
qed

end
