(* ===== verification/File_Group.thy ===== *)
theory File_Group
  imports Data_Types
begin

text \<open>
  Groups of Parquet files, \<open>compactor/src/file_group.rs\<close>: the time range spanned by a group, the
  overlap test of a file with a group, and the division of a group by compaction level. The
  predicate \<open>disjoint_times\<close> states the invariant the compactor keeps for the files of the levels
  above \<open>Initial\<close>: no two of them share a timestamp.
\<close>

type_synonym files = "parquet_file list"

section \<open>Time range of a group\<close>

record files_time_range =
  ftr_min :: timestamp
  ftr_max :: timestamp

fun try_new_loop :: "files \<Rightarrow> timestamp \<Rightarrow> timestamp \<Rightarrow> files_time_range" where
  "try_new_loop [] mn mx = \<lparr>ftr_min = mn, ftr_max = mx\<rparr>"
| "try_new_loop (f # fs) mn mx = try_new_loop fs (min mn (min_time f)) (max mx (max_time f))"

fun try_new :: "files \<Rightarrow> files_time_range option" where
  "try_new [] = None"
| "try_new (f # fs) = Some (try_new_loop fs (min_time f) (max_time f))"

definition contains :: "files_time_range \<Rightarrow> parquet_file \<Rightarrow> bool" where
  "contains r f \<longleftrightarrow> min_time f \<le> ftr_max r \<and> max_time f \<ge> ftr_min r"

definition before :: "files_time_range \<Rightarrow> parquet_file \<Rightarrow> bool" where
  "before r f \<longleftrightarrow> max_time f < ftr_min r"

definition overlaps_in_time :: "parquet_file \<Rightarrow> files \<Rightarrow> bool" where
  "overlaps_in_time f fs \<longleftrightarrow> list_ex (\<lambda>g. overlaps g f) fs"

lemma overlaps_in_time_iff [simp]: "overlaps_in_time f fs \<longleftrightarrow> (\<exists>g \<in> set fs. overlaps g f)"
  by (simp add: overlaps_in_time_def list_ex_iff)

lemma try_new_loop_bounds:
  "ftr_min (try_new_loop fs mn mx) \<le> mn \<and> mx \<le> ftr_max (try_new_loop fs mn mx)
   \<and> (\<forall>f \<in> set fs. ftr_min (try_new_loop fs mn mx) \<le> min_time f
        \<and> max_time f \<le> ftr_max (try_new_loop fs mn mx))"
proof (induction fs arbitrary: mn mx)
  case (Cons f fs)
  show ?case using Cons.IH [of "min mn (min_time f)" "max mx (max_time f)"] by auto
qed simp

lemma try_new_loop_attained:
  "(ftr_min (try_new_loop fs mn mx) = mn \<or> (\<exists>f \<in> set fs. ftr_min (try_new_loop fs mn mx) = min_time f))
   \<and> (ftr_max (try_new_loop fs mn mx) = mx \<or> (\<exists>f \<in> set fs. ftr_max (try_new_loop fs mn mx) = max_time f))"
proof (induction fs arbitrary: mn mx)
  case (Cons f fs)
  show ?case using Cons.IH [of "min mn (min_time f)" "max mx (max_time f)"]
    by (auto simp: min_def max_def split: if_splits)
qed simp

lemma try_new_None [simp]: "try_new fs = None \<longleftrightarrow> fs = []"
  by (cases fs) auto

lemma try_new_bounds:
  assumes "try_new fs = Some r" "f \<in> set fs"
  shows "ftr_min r \<le> min_time f" "max_time f \<le> ftr_max r"
  using assms try_new_loop_bounds [of "tl fs" "min_time (hd fs)" "max_time (hd fs)"]
  by (cases fs; auto)+

lemma try_new_attained:
  assumes "try_new fs = Some r"
  obtains f g where "f \<in> set fs" "min_time f = ftr_min r" "g \<in> set fs" "max_time g = ftr_max r"
proof (cases fs)
  case (Cons x xs)
  then show ?thesis
    using assms that try_new_loop_attained [of xs "min_time x" "max_time x"] by auto metis+
qed (use assms in simp)

text \<open>
  Every file of the group meets its range, and a file outside the range overlaps no file of the
  group. The converse fails: a file may fall in a gap between the files of the group.
\<close>

lemma contains_member: "try_new fs = Some r \<Longrightarrow> f \<in> set fs \<Longrightarrow> wf_file f \<Longrightarrow> contains r f"
  using try_new_bounds [of fs r f] by (auto simp: contains_def wf_file_def)

lemma not_contains_no_overlap:
  "try_new fs = Some r \<Longrightarrow> \<not> contains r f \<Longrightarrow> g \<in> set fs \<Longrightarrow> \<not> overlaps f g"
  using try_new_bounds [of fs r g] by (auto simp: contains_def overlaps_def)

lemma try_new_min_max:
  assumes "try_new fs = Some r"
  shows "min_opt (map min_time fs) = Some (ftr_min r)" "max_opt (map max_time fs) = Some (ftr_max r)"
proof -
  obtain f g where f: "f \<in> set fs" "min_time f = ftr_min r" "g \<in> set fs" "max_time g = ftr_max r"
    using try_new_attained [OF assms] by metis
  then have "map min_time fs \<noteq> []" "map max_time fs \<noteq> []" by auto
  then obtain m n where mn: "min_opt (map min_time fs) = Some m" "max_opt (map max_time fs) = Some n"
    by (metis min_opt_None max_opt_None option.exhaust)
  have "m = ftr_min r"
  proof (rule antisym)
    show "m \<le> ftr_min r" using min_opt_Some [OF mn(1)] f by (metis image_eqI list.set_map)
    show "ftr_min r \<le> m" using min_opt_Some [OF mn(1)] try_new_bounds(1) [OF assms] by auto
  qed
  moreover have "n = ftr_max r"
  proof (rule antisym)
    show "ftr_max r \<le> n" using max_opt_Some [OF mn(2)] f by (metis image_eqI list.set_map)
    show "n \<le> ftr_max r" using max_opt_Some [OF mn(2)] try_new_bounds(2) [OF assms] by auto
  qed
  ultimately show "min_opt (map min_time fs) = Some (ftr_min r)" "max_opt (map max_time fs) = Some (ftr_max r)"
    using mn by simp_all
qed

lemma try_new_range_cong:
  assumes "try_new fs = Some r" "try_new gs = Some s"
    and "set fs \<subseteq> set gs" "\<forall>g \<in> set gs. ftr_min r \<le> min_time g \<and> max_time g \<le> ftr_max r"
  shows "s = r"
proof -
  obtain f f' where f: "f \<in> set fs" "min_time f = ftr_min r" "f' \<in> set fs" "max_time f' = ftr_max r"
    using assms(1) by (rule try_new_attained)
  obtain g g' where g: "g \<in> set gs" "min_time g = ftr_min s" "g' \<in> set gs" "max_time g' = ftr_max s"
    using assms(2) by (rule try_new_attained)
  have "ftr_min s = ftr_min r"
    using assms(3,4) f g try_new_bounds(1) [OF assms(2), of f] by force
  moreover have "ftr_max s = ftr_max r"
    using assms(3,4) f g try_new_bounds(2) [OF assms(2), of f'] by force
  ultimately show ?thesis by simp
qed

section \<open>Division by level\<close>

fun split_by_level :: "files \<Rightarrow> compaction_level \<Rightarrow> compaction_level \<Rightarrow> (files \<times> files) res" where
  "split_by_level [] l1 l2 = Inr ([], [])"
| "split_by_level (f # fs) l1 l2 =
     (if compaction_level f = l1 then
        bind_res (split_by_level fs l1 l2) (\<lambda>(a, b). Inr (f # a, b))
      else if compaction_level f = l2 then
        bind_res (split_by_level fs l1 l2) (\<lambda>(a, b). Inr (a, f # b))
      else Inl (Panic ''unexpected compaction level''))"

lemma split_by_level_Inr:
  "split_by_level fs l1 l2 = Inr (a, b) \<Longrightarrow>
     a = filter (\<lambda>f. compaction_level f = l1) fs \<and> b = filter (\<lambda>f. compaction_level f \<noteq> l1) fs
     \<and> (\<forall>f \<in> set fs. compaction_level f = l1 \<or> compaction_level f = l2)"
  by (induction fs arbitrary: a b) (auto split: if_splits)

lemma split_by_level_ok:
  "(\<forall>f \<in> set fs. compaction_level f = l1 \<or> compaction_level f = l2) \<Longrightarrow>
     split_by_level fs l1 l2 = Inr (filter (\<lambda>f. compaction_level f = l1) fs,
       filter (\<lambda>f. compaction_level f \<noteq> l1) fs)"
  by (induction fs) auto

lemma split_by_level_panics:
  "(\<exists>f \<in> set fs. compaction_level f \<noteq> l1 \<and> compaction_level f \<noteq> l2) \<longleftrightarrow>
     split_by_level fs l1 l2 = Inl (Panic ''unexpected compaction level'')"
  by (induction fs) (auto simp: bind_res_def split: sum.splits)

section \<open>Disjoint time ranges\<close>

definition disjoint_times :: "files \<Rightarrow> bool" where
  "disjoint_times fs \<longleftrightarrow>
     distinct fs \<and> list_all (\<lambda>a. list_all (\<lambda>b. a \<noteq> b \<longrightarrow> \<not> overlaps a b) fs) fs"

lemma disjoint_timesD:
  "disjoint_times fs \<Longrightarrow> a \<in> set fs \<Longrightarrow> b \<in> set fs \<Longrightarrow> a \<noteq> b \<Longrightarrow> \<not> overlaps a b"
  by (auto simp: disjoint_times_def list_all_iff)

lemma disjoint_times_mset: "mset fs = mset gs \<Longrightarrow> disjoint_times fs \<longleftrightarrow> disjoint_times gs"
  by (auto simp: disjoint_times_def list_all_iff distinct_count_atmost_1 dest: mset_eq_setD)

lemma disjoint_times_filter: "disjoint_times fs \<Longrightarrow> disjoint_times (filter P fs)"
  by (auto simp: disjoint_times_def list_all_iff)

lemma disjoint_times_Cons:
  "disjoint_times (x # p) \<longleftrightarrow> x \<notin> set p \<and> (\<forall>b \<in> set p. \<not> overlaps x b) \<and> disjoint_times p"
proof -
  have "overlaps a x \<Longrightarrow> overlaps x a" for a by (simp add: overlaps_def)
  then show ?thesis by (auto simp: disjoint_times_def list_all_iff)
qed

lemma filter_disjoint_rev: "disjoint_times p \<Longrightarrow> disjoint_times (filter P (rev p))"
  by (metis disjoint_times_filter disjoint_times_mset mset_rev)


text \<open>Disjoint files that start in order also end before the next one starts.\<close>

lemma disjoint_ordered:
  assumes "disjoint_times fs" "a \<in> set fs" "b \<in> set fs" "a \<noteq> b" "wf_file a" "wf_file b"
    and "min_time a \<le> min_time b"
  shows "max_time a < min_time b"
  using disjoint_timesD [OF assms(1-4)] assms(5-7) by (auto simp: overlaps_def wf_file_def)

end
