(* ===== verification/Files_Split.thy ===== *)
theory Files_Split
  imports File_Group
begin

text \<open>
  The three file splits of \<open>compactor/src/components/files_split\<close>: by target level, by overlap with
  the lower level, and by eligibility for a catalog-only upgrade. The trait \<open>FilesSplit\<close> is the
  locale \<open>files_split\<close>, whose law is that a split neither loses nor duplicates a file; the three
  implementations are its interpretations.
\<close>

section \<open>The trait\<close>

locale files_split =
  fixes split_apply :: "files \<Rightarrow> compaction_level \<Rightarrow> (files \<times> files) res"
  assumes split_conserves: "split_apply fs lv = Inr (a, b) \<Longrightarrow> mset a + mset b = mset fs"
begin

lemma split_set: "split_apply fs lv = Inr (a, b) \<Longrightarrow> set a \<union> set b = set fs"
  by (metis split_conserves set_mset_mset set_mset_union)

lemma split_length: "split_apply fs lv = Inr (a, b) \<Longrightarrow> length a + length b = length fs"
  by (metis split_conserves size_mset size_union)

lemma split_subset: "split_apply fs lv = Inr (a, b) \<Longrightarrow> set a \<subseteq> set fs \<and> set b \<subseteq> set fs"
  using split_set by blast

lemma split_disjoint_times:
  assumes "split_apply fs lv = Inr (a, b)" "disjoint_times fs"
  shows "disjoint_times (a @ b)"
  using split_conserves [OF assms(1)] assms(2) disjoint_times_mset [of "a @ b" fs] by simp

end

section \<open>Target level split\<close>

definition target_level_split :: "files \<Rightarrow> compaction_level \<Rightarrow> (files \<times> files) res" where
  "target_level_split fs lv = Inr (partition (\<lambda>f. compaction_level f \<le> lv) fs)"

interpretation tls: files_split target_level_split
  by unfold_locales (auto simp: target_level_split_def conserve)

section \<open>Non-overlap split\<close>

text \<open>The loop of \<open>three_range_split\<close> pops the files from the back of the vector.\<close>

fun three_range_loop :: "files \<Rightarrow> files_time_range \<Rightarrow> files \<Rightarrow> files \<Rightarrow> files \<Rightarrow> files \<times> files \<times> files" where
  "three_range_loop [] r bef dur aft = (bef, dur, aft)"
| "three_range_loop (f # fs) r bef dur aft =
     (if contains r f then three_range_loop fs r bef (dur @ [f]) aft
      else if before r f then three_range_loop fs r (bef @ [f]) dur aft
      else three_range_loop fs r bef dur (aft @ [f]))"

definition three_range_split :: "files \<Rightarrow> files_time_range \<Rightarrow> files \<times> files \<times> files" where
  "three_range_split fs r = three_range_loop (rev fs) r [] [] []"

text \<open>
  Both \<open>while let\<close> loops over a deque: pop a file, put it into \<open>compact_files\<close> while it is at most
  \<open>thr\<close> bytes large, otherwise put it into \<open>non_overlapping_files\<close> and stop. The result also holds
  what is left in the deque, in pop order.
\<close>

fun undersize_loop :: "int \<Rightarrow> files \<Rightarrow> files \<Rightarrow> files \<Rightarrow> files \<times> files \<times> files" where
  "undersize_loop thr [] cpt non = (cpt, non, [])"
| "undersize_loop thr (f # fs) cpt non =
     (if file_size_bytes f \<le> thr then undersize_loop thr fs (cpt @ [f]) non
      else (cpt, non @ [f], fs))"

definition non_overlap_split :: "nat \<Rightarrow> files \<Rightarrow> compaction_level \<Rightarrow> (files \<times> files) res" where
  "non_overlap_split undersized_threshold fs lv =
     assert_res (lv \<noteq> Initial) ''unexpected compaction target_level, should not be L0'' (
     bind_res (split_by_level fs lv (prev_level lv)) (\<lambda>(target_level_files, prev_level_files).
     case try_new prev_level_files of
       None \<Rightarrow> Inr ([], target_level_files)
     | Some prev_level_range \<Rightarrow>
         let (bef, compact_files, aft) = three_range_split target_level_files prev_level_range;
             thr = as_i64 undersized_threshold;
             (compact_files, non, bef) =
               undersize_loop thr (rev (sort_key min_time bef)) compact_files [];
             (compact_files, non, aft) =
               undersize_loop thr (sort_key min_time aft) compact_files non
         in Inr (compact_files @ prev_level_files, non @ rev bef @ aft)))"

lemma three_range_loop_eq:
  "three_range_loop fs r bef dur aft =
     (bef @ filter (\<lambda>f. \<not> contains r f \<and> before r f) fs, dur @ filter (contains r) fs,
      aft @ filter (\<lambda>f. \<not> contains r f \<and> \<not> before r f) fs)"
  by (induction fs arbitrary: bef dur aft) auto

lemma undersize_loop_mset:
  "undersize_loop thr fs cpt non = (cpt', non', rest) \<Longrightarrow>
     mset cpt' + mset non' + mset rest = mset cpt + mset non + mset fs"
  by (induction fs arbitrary: cpt non) (auto split: if_splits)

text \<open>The loop moves a prefix of the deque into \<open>compact_files\<close>.\<close>

lemma undersize_loop_prefix:
  "undersize_loop thr fs cpt non = (cpt', non', rest) \<Longrightarrow>
     \<exists>pre suf. fs = pre @ suf \<and> cpt' = cpt @ pre \<and> non' @ rest = non @ suf
       \<and> (\<forall>f \<in> set pre. file_size_bytes f \<le> thr)
       \<and> (suf \<noteq> [] \<longrightarrow> file_size_bytes (hd suf) > thr)"
proof (induction fs arbitrary: cpt)
  case (Cons f fs)
  show ?case
  proof (cases "file_size_bytes f \<le> thr")
    case True
    with Cons.prems have "undersize_loop thr fs (cpt @ [f]) non = (cpt', non', rest)" by simp
    from Cons.IH [OF this] obtain pre suf where "fs = pre @ suf" "cpt' = cpt @ [f] @ pre"
      "non' @ rest = non @ suf" "\<forall>f \<in> set pre. file_size_bytes f \<le> thr"
      "suf \<noteq> [] \<longrightarrow> file_size_bytes (hd suf) > thr" by auto
    with True show ?thesis by (intro exI [of _ "f # pre"] exI [of _ suf]) auto
  next
    case False
    with Cons.prems show ?thesis by (intro exI [of _ "[]"] exI [of _ "f # fs"]) auto
  qed
qed simp

text \<open>
  The result of a non-overlap split in terms of the sorted outer files: those nearest to the
  previous level's range join the compaction, the others are kept.
\<close>

lemma non_overlap_split_cases:
  assumes "non_overlap_split thr fs lv = Inr (cpt, keep)"
  defines "tgt \<equiv> filter (\<lambda>f. compaction_level f = lv) fs"
    and "prev \<equiv> filter (\<lambda>f. compaction_level f \<noteq> lv) fs"
  obtains "prev = []" "cpt = []" "keep = tgt"
  | r bpre bsuf apre asuf where
      "try_new prev = Some r"
      "rev (sort_key min_time (filter (\<lambda>f. \<not> contains r f \<and> before r f) (rev tgt))) = bpre @ bsuf"
      "sort_key min_time (filter (\<lambda>f. \<not> contains r f \<and> \<not> before r f) (rev tgt)) = apre @ asuf"
      "cpt = filter (contains r) (rev tgt) @ bpre @ apre @ prev"
      "mset keep = mset bsuf + mset asuf"
proof (cases "try_new prev")
  case None
  then show ?thesis
    using assms that(1) by (auto simp: non_overlap_split_def dest!: split_by_level_Inr)
next
  case (Some r)
  let ?b = "rev (sort_key min_time (filter (\<lambda>f. \<not> contains r f \<and> before r f) (rev tgt)))"
  let ?a = "sort_key min_time (filter (\<lambda>f. \<not> contains r f \<and> \<not> before r f) (rev tgt))"
  let ?d = "filter (contains r) (rev tgt)"
  let ?t = "as_i64 thr"
  obtain c1 n1 b1 where l1: "undersize_loop ?t ?b ?d [] = (c1, n1, b1)"
    by (metis prod_cases3)
  obtain c2 n2 a2 where l2: "undersize_loop ?t ?a c1 n1 = (c2, n2, a2)"
    by (metis prod_cases3)
  have eq: "cpt = c2 @ prev" "keep = n2 @ rev b1 @ a2"
    using assms Some l1 l2
    by (auto simp: non_overlap_split_def three_range_split_def three_range_loop_eq Let_def
        dest!: split_by_level_Inr)
  obtain bpre bsuf where b: "?b = bpre @ bsuf" "c1 = ?d @ bpre" "n1 @ b1 = bsuf"
    using undersize_loop_prefix [OF l1] by auto
  obtain apre asuf where a: "?a = apre @ asuf" "c2 = c1 @ apre" "n2 @ a2 = n1 @ asuf"
    using undersize_loop_prefix [OF l2] by auto
  have "mset n2 + mset a2 = mset n1 + mset asuf" using a(3) by (metis mset_append)
  with b(3) have "mset keep = mset bsuf + mset asuf" by (auto simp: eq)
  with that(2) Some a b eq show ?thesis by simp
qed

lemma non_overlap_split_conserves:
  assumes "non_overlap_split thr fs lv = Inr (cpt, keep)"
  shows "mset cpt + mset keep = mset fs"
  using assms
proof (cases rule: non_overlap_split_cases)
  case 1
  then show ?thesis using mset_filter_not [of "\<lambda>f. compaction_level f = lv" fs] by simp
next
  case (2 r bpre bsuf apre asuf)
  let ?tgt = "filter (\<lambda>f. compaction_level f = lv) fs"
  let ?B = "\<lambda>f. \<not> contains r f \<and> before r f" and ?A = "\<lambda>f. \<not> contains r f \<and> \<not> before r f"
  have b: "mset bpre + mset bsuf = mset (filter ?B ?tgt)"
    using arg_cong [OF 2(2), of mset] by (simp add: rev_filter [symmetric])
  have a: "mset apre + mset asuf = mset (filter ?A ?tgt)"
    using arg_cong [OF 2(3), of mset] by (simp add: rev_filter [symmetric])
  have "mset cpt + mset keep = mset (filter (contains r) ?tgt)
      + ((mset bpre + mset bsuf) + (mset apre + mset asuf))
      + mset (filter (\<lambda>f. compaction_level f \<noteq> lv) fs)"
    by (simp add: 2(4,5) rev_filter [symmetric])
  also have "mset (filter (contains r) ?tgt) + ((mset bpre + mset bsuf) + (mset apre + mset asuf)) = mset ?tgt"
    unfolding a b by (rule mset_filter_three)
  finally show ?thesis using mset_filter_not [of "\<lambda>f. compaction_level f = lv" fs] by simp
qed

interpretation nos: files_split "non_overlap_split thr" for thr
  by unfold_locales (rule non_overlap_split_conserves)

lemma sorted_rev_prefix:
  assumes "rev (sort_key k xs) = pre @ suf" "a \<in> set pre" "b \<in> set suf"
  shows "k b \<le> (k a :: 'b::linorder)"
proof -
  have "sort_key k xs = rev suf @ rev pre" using assms(1) by (metis rev_append rev_rev_ident)
  then have "sorted (map k (rev suf @ rev pre))" by (metis sorted_sort_key)
  with assms(2,3) show ?thesis by (auto simp: sorted_append)
qed

lemma sorted_prefix:
  assumes "sort_key k xs = pre @ suf" "a \<in> set pre" "b \<in> set suf"
  shows "k a \<le> (k b :: 'b::linorder)"
  using sorted_sort_key [of k xs] assms by (auto simp: sorted_append)

lemma sort_key_split_distinct:
  "distinct xs \<Longrightarrow> sort_key k xs = pre @ suf \<Longrightarrow> set pre \<inter> set suf = {} \<and> set pre \<union> set suf = set xs"
  by (metis distinct_append distinct_sort set_append set_sort)

lemma rev_sort_key_split_distinct:
  "distinct xs \<Longrightarrow> rev (sort_key k xs) = pre @ suf \<Longrightarrow> set pre \<inter> set suf = {} \<and> set pre \<union> set suf = set xs"
  by (metis distinct_append distinct_rev distinct_sort set_append set_rev set_sort)

section \<open>Upgrade split\<close>

text \<open>
  First loop: the previous level files are popped from the back; \<open>rest\<close> holds those still in the
  vector (last one first).
\<close>

fun upgrade_loop :: "int \<Rightarrow> files_time_range option \<Rightarrow> files \<Rightarrow> files \<Rightarrow> files \<Rightarrow> files \<times> files" where
  "upgrade_loop half target_time_range [] to_compact potential = (to_compact, potential)"
| "upgrade_loop half target_time_range (f # rest) to_compact potential =
     (if file_size_bytes f < half then
        upgrade_loop half target_time_range rest (to_compact @ [f]) potential
      else case target_time_range of
        Some r \<Rightarrow>
          if contains r f \<or> overlaps_in_time f rest \<or> overlaps_in_time f to_compact then
            upgrade_loop half target_time_range rest (to_compact @ [f]) potential
          else upgrade_loop half target_time_range rest to_compact (potential @ [f])
      | None \<Rightarrow>
          if list_ex (\<lambda>g. overlaps g f) rest \<or> list_ex (\<lambda>g. overlaps g f) to_compact then
            upgrade_loop half target_time_range rest (to_compact @ [f]) potential
          else upgrade_loop half target_time_range rest to_compact (potential @ [f]))"

text \<open>Second loop: the potential files are popped from the back as well.\<close>

fun upgrade_check :: "files_time_range option \<Rightarrow> files \<Rightarrow> files \<Rightarrow> files \<Rightarrow> files \<times> files" where
  "upgrade_check to_compact_time_range [] to_compact to_upgrade = (to_compact, to_upgrade)"
| "upgrade_check to_compact_time_range (f # rest) to_compact to_upgrade =
     (case to_compact_time_range of
        Some r \<Rightarrow>
          if \<not> contains r f then upgrade_check to_compact_time_range rest to_compact (to_upgrade @ [f])
          else upgrade_check to_compact_time_range rest (to_compact @ [f]) to_upgrade
      | None \<Rightarrow> upgrade_check to_compact_time_range rest to_compact (to_upgrade @ [f]))"

definition upgrade_split :: "nat \<Rightarrow> files \<Rightarrow> compaction_level \<Rightarrow> (files \<times> files) res" where
  "upgrade_split max_desired_file_size_bytes fs lv =
     assert_res (lv \<noteq> Initial) ''unexpected compaction target_level, should not be L0'' (
     bind_res (split_by_level fs lv (prev_level lv)) (\<lambda>(target_level_files, prev_level_files).
       let half = div_i64 (as_i64 max_desired_file_size_bytes) 2;
           (to_compact, potential) =
             upgrade_loop half (try_new target_level_files) (rev prev_level_files) [] [];
           to_compact = to_compact @ target_level_files;
           (to_compact, to_upgrade) =
             upgrade_check (try_new to_compact) (rev potential) to_compact []
       in Inr (to_compact, to_upgrade)))"

text \<open>
  Both branches of the first loop decide by the same test; \<open>rejected\<close> names it.
\<close>

definition rejected :: "int \<Rightarrow> files_time_range option \<Rightarrow> parquet_file \<Rightarrow> files \<Rightarrow> bool" where
  "rejected half tr f others \<longleftrightarrow>
     file_size_bytes f < half \<or> (\<exists>r. tr = Some r \<and> contains r f) \<or> (\<exists>g \<in> set others. overlaps g f)"

lemma upgrade_loop_Cons:
  "upgrade_loop half tr (f # rest) c p =
     (if rejected half tr f (rest @ c) then upgrade_loop half tr rest (c @ [f]) p
      else upgrade_loop half tr rest c (p @ [f]))"
  by (auto simp: rejected_def list_ex_iff split: option.splits)

lemma upgrade_loop_mset:
  "upgrade_loop half tr fs c p = (c', p') \<Longrightarrow> mset c' + mset p' = mset fs + mset c + mset p"
  by (induction fs arbitrary: c p) (auto simp: upgrade_loop_Cons simp del: upgrade_loop.simps(2) split: if_splits)

lemma upgrade_check_eq:
  "upgrade_check tr fs c u =
     (c @ filter (\<lambda>f. \<exists>r. tr = Some r \<and> contains r f) fs,
      u @ filter (\<lambda>f. \<not> (\<exists>r. tr = Some r \<and> contains r f)) fs)"
  by (induction fs arbitrary: c u) (auto split: option.splits)

text \<open>The two loops of a successful upgrade split.\<close>

lemma upgrade_split_cases:
  assumes "upgrade_split sz fs lv = Inr (c, u)"
  defines "tgt \<equiv> filter (\<lambda>f. compaction_level f = lv) fs"
    and "prev \<equiv> filter (\<lambda>f. compaction_level f \<noteq> lv) fs"
  obtains c1 p1 where
    "upgrade_loop (div_i64 (as_i64 sz) 2) (try_new tgt) (rev prev) [] [] = (c1, p1)"
    "c = (c1 @ tgt) @ filter (\<lambda>f. \<exists>r. try_new (c1 @ tgt) = Some r \<and> contains r f) (rev p1)"
    "u = filter (\<lambda>f. \<not> (\<exists>r. try_new (c1 @ tgt) = Some r \<and> contains r f)) (rev p1)"
    "\<forall>f \<in> set fs. compaction_level f = lv \<or> compaction_level f = prev_level lv"
proof -
  obtain c1 p1 where l: "upgrade_loop (div_i64 (as_i64 sz) 2) (try_new tgt) (rev prev) [] [] = (c1, p1)"
    by fastforce
  have "c = (c1 @ tgt) @ filter (\<lambda>f. \<exists>r. try_new (c1 @ tgt) = Some r \<and> contains r f) (rev p1) \<and>
        u = filter (\<lambda>f. \<not> (\<exists>r. try_new (c1 @ tgt) = Some r \<and> contains r f)) (rev p1) \<and>
        (\<forall>f \<in> set fs. compaction_level f = lv \<or> compaction_level f = prev_level lv)"
    using assms(1) l
    by (auto simp: upgrade_split_def upgrade_check_eq tgt_def prev_def Let_def
        dest!: split_by_level_Inr)
  with l that show ?thesis by blast
qed

lemma upgrade_split_conserves:
  assumes "upgrade_split sz fs lv = Inr (c, u)"
  shows "mset c + mset u = mset fs"
  using assms
proof (cases rule: upgrade_split_cases)
  case (1 c1 p1)
  let ?tgt = "filter (\<lambda>f. compaction_level f = lv) fs" and ?prev = "filter (\<lambda>f. compaction_level f \<noteq> lv) fs"
  have "mset c + mset u = mset c1 + (mset ?tgt + mset (rev p1))"
    unfolding 1(2,3) mset_append add.assoc mset_filter_not ..
  also have "\<dots> = mset ?tgt + (mset c1 + mset p1)" by simp
  also have "mset c1 + mset p1 = mset ?prev" using upgrade_loop_mset [OF 1(1)] by simp
  finally show ?thesis by (simp only: mset_filter_not)
qed

interpretation us: files_split "upgrade_split sz" for sz
  by unfold_locales (rule upgrade_split_conserves)

text \<open>
  The files the first loop keeps as potential upgrades are large, outside the range of the target
  level, pairwise disjoint and disjoint from every file it sends to compaction.
\<close>

definition separated :: "files \<Rightarrow> files \<Rightarrow> bool" where
  "separated p others \<longleftrightarrow>
     sorted_wrt (\<lambda>a b. \<not> overlaps a b) p \<and> (\<forall>x \<in> set p. \<forall>y \<in> set others. \<not> overlaps y x)"

lemma upgrade_loop_separated:
  assumes "upgrade_loop half tr fs c p = (c', p')" "separated p (fs @ c)"
  shows "separated p' c'"
  using assms
proof (induction fs arbitrary: c p)
  case (Cons f fs)
  show ?case
  proof (cases "rejected half tr f (fs @ c)")
    case True
    with Cons.prems have "upgrade_loop half tr fs (c @ [f]) p = (c', p')"
      by (simp add: upgrade_loop_Cons del: upgrade_loop.simps)
    moreover have "separated p (fs @ c @ [f])" using Cons.prems(2) by (auto simp: separated_def)
    ultimately show ?thesis by (rule Cons.IH)
  next
    case False
    with Cons.prems have "upgrade_loop half tr fs c (p @ [f]) = (c', p')"
      by (simp add: upgrade_loop_Cons del: upgrade_loop.simps)
    moreover have "separated (p @ [f]) (fs @ c)"
      using Cons.prems(2) False overlaps_sym [of f]
      by (auto simp: separated_def rejected_def sorted_wrt_append)
    ultimately show ?thesis by (rule Cons.IH)
  qed
qed simp

lemma upgrade_loop_potential:
  assumes "upgrade_loop half tr fs c p = (c', p')" "x \<in> set p'"
  shows "x \<in> set p \<or> (x \<in> set fs \<and> half \<le> file_size_bytes x \<and> (\<forall>r. tr = Some r \<longrightarrow> \<not> contains r x))"
  using assms
proof (induction fs arbitrary: c p)
  case (Cons f fs)
  show ?case
  proof (cases "rejected half tr f (fs @ c)")
    case True
    with Cons.prems(1) have "upgrade_loop half tr fs (c @ [f]) p = (c', p')"
      by (simp add: upgrade_loop_Cons del: upgrade_loop.simps)
    from Cons.IH [OF this Cons.prems(2)] show ?thesis by auto
  next
    case False
    with Cons.prems(1) have "upgrade_loop half tr fs c (p @ [f]) = (c', p')"
      by (simp add: upgrade_loop_Cons del: upgrade_loop.simps)
    from Cons.IH [OF this Cons.prems(2)] False show ?thesis by (auto simp: rejected_def)
  qed
qed simp

lemma separated_disjoint_times:
  "separated p q \<Longrightarrow> \<forall>f \<in> set p. wf_file f \<Longrightarrow> disjoint_times p"
proof (induction p)
  case (Cons x p)
  then show ?case using overlaps_refl [of x] by (auto simp: separated_def disjoint_times_Cons)
qed (simp add: disjoint_times_def)

text \<open>
  A separated file that meets the range of a group lies inside that range: it cannot cross the
  files at the two ends.
\<close>

lemma separated_within_range:
  assumes "try_new fs = Some r" "contains r b" "\<forall>g \<in> set fs. \<not> overlaps g b"
    and "\<forall>f \<in> set fs. wf_file f"
  shows "ftr_min r \<le> min_time b \<and> max_time b \<le> ftr_max r"
proof -
  obtain f g where f: "f \<in> set fs" "min_time f = ftr_min r" and g: "g \<in> set fs" "max_time g = ftr_max r"
    using try_new_attained [OF assms(1)] by metis
  with assms(2-4) have "\<not> overlaps f b" "\<not> overlaps g b" "wf_file f" "wf_file g" by auto
  with f g assms(2) show ?thesis by (auto simp: overlaps_def contains_def wf_file_def)
qed

lemma upgrade_compact_range:
  assumes loop: "separated p1 c1" and wf: "\<forall>g \<in> set (c1 @ tgt). wf_file g"
    and pot: "\<forall>x \<in> set p1. \<forall>r. try_new tgt = Some r \<longrightarrow> \<not> contains r x"
    and r1: "try_new (c1 @ tgt) = Some r1"
    and c: "c = (c1 @ tgt) @ filter (contains r1) (rev p1)" and r: "try_new c = Some r"
  shows "r = r1"
proof -
  have "ftr_min r1 \<le> min_time g \<and> max_time g \<le> ftr_max r1" if "g \<in> set c" for g
  proof (cases "g \<in> set (c1 @ tgt)")
    case True
    then show ?thesis using try_new_bounds [OF r1] by blast
  next
    case False
    then have g: "g \<in> set p1" "contains r1 g" using that c by auto
    have "\<not> overlaps h g" if "h \<in> set tgt" for h
    proof -
      from that obtain rt where "try_new tgt = Some rt"
        by (metis option.exhaust try_new_None empty_iff list.set(1))
      then show ?thesis using pot g(1) not_contains_no_overlap that overlaps_sym by blast
    qed
    then have "\<forall>h \<in> set (c1 @ tgt). \<not> overlaps h g" using loop g by (auto simp: separated_def)
    then show ?thesis by (rule separated_within_range [OF r1 g(2) _ wf])
  qed
  then show ?thesis using try_new_range_cong [OF r1 r] c by auto
qed

section \<open>Properties\<close>

lemma non_overlap_split_apart:
  assumes split: "non_overlap_split thr fs lv = Inr (cpt, keep)"
    and wf: "\<forall>f \<in> set fs. wf_file f"
    and disj: "disjoint_times (filter (\<lambda>f. compaction_level f = lv) fs)"
    and k: "k \<in> set keep" and c: "try_new cpt = Some r"
  shows "\<not> contains r k"
  using split
proof (cases rule: non_overlap_split_cases)
  case 1
  with c show ?thesis by simp
next
  case (2 pr bpre bsuf apre asuf)
  let ?tgt = "filter (\<lambda>f. compaction_level f = lv) fs"
  let ?prev = "filter (\<lambda>f. compaction_level f \<noteq> lv) fs"
  let ?B = "filter (\<lambda>f. \<not> contains pr f \<and> before pr f) (rev ?tgt)"
  let ?A = "filter (\<lambda>f. \<not> contains pr f \<and> \<not> before pr f) (rev ?tgt)"
  note ord = disjoint_ordered [OF disj]
  have dist: "distinct ?A" "distinct ?B" using disj by (auto simp: disjoint_times_def)
  have B: "set bpre \<inter> set bsuf = {}" "set bpre \<union> set bsuf = set ?B"
    using rev_sort_key_split_distinct [OF dist(2) 2(2)] by auto
  have A: "set apre \<inter> set asuf = {}" "set apre \<union> set asuf = set ?A"
    using sort_key_split_distinct [OF dist(1) 2(3)] by auto
  obtain p q where p: "p \<in> set ?prev" "min_time p = ftr_min pr" and q: "q \<in> set ?prev" "max_time q = ftr_max pr"
    using try_new_attained [OF 2(1)] by metis
  have prw: "ftr_min pr \<le> ftr_max pr"
    using try_new_bounds(1) [OF 2(1) q(1)] q wf by (auto simp: wf_file_def)
  have keep: "set keep = set bsuf \<union> set asuf" using 2(5) by (metis set_mset_mset set_mset_union)
  have outer: "max_time k < min_time c" if kk: "k \<in> set bsuf" and cc: "c \<in> set cpt" for c
  proof -
    have "k \<in> set ?B" using kk B(2) by blast
    then have kB: "k \<in> set ?tgt" "\<not> contains pr k" "max_time k < ftr_min pr"
      by (auto simp: before_def)
    consider "c \<in> set ?prev" | "c \<in> set ?tgt" "contains pr c" | "c \<in> set bpre" | "c \<in> set apre"
      using cc 2(4) by auto
    then show ?thesis
    proof cases
      case 1
      then show ?thesis using try_new_bounds(1) [OF 2(1) 1] kB by simp
    next
      case c: 2
      then have "\<not> overlaps k c" using kB disjoint_timesD [OF disj] by blast
      then show ?thesis using c kB wf by (auto simp: overlaps_def contains_def wf_file_def)
    next
      case 3
      then have "c \<in> set ?B" "c \<noteq> k" "min_time k \<le> min_time c"
        using B kk sorted_rev_prefix [OF 2(2) 3 kk] by blast+
      then show ?thesis using ord [of k c] kB wf by auto
    next
      case 4
      then have "c \<in> set ?A" using A(2) by blast
      then show ?thesis using kB prw by (auto simp: before_def contains_def)
    qed
  qed
  have outer': "max_time c < min_time k" if kk: "k \<in> set asuf" and cc: "c \<in> set cpt" for c
  proof -
    have "k \<in> set ?A" using kk A(2) by blast
    then have kA: "k \<in> set ?tgt" "\<not> contains pr k" "ftr_max pr < min_time k"
      by (auto simp: before_def contains_def)
    consider "c \<in> set ?prev" | "c \<in> set ?tgt" "contains pr c" | "c \<in> set bpre" | "c \<in> set apre"
      using cc 2(4) by auto
    then show ?thesis
    proof cases
      case 1
      then show ?thesis using try_new_bounds(2) [OF 2(1) 1] kA by simp
    next
      case c: 2
      then have "min_time c \<le> min_time k" "c \<noteq> k" using kA by (auto simp: contains_def)
      then show ?thesis using ord [of c k] c kA wf by auto
    next
      case 3
      then have "c \<in> set ?B" using B(2) by blast
      then show ?thesis using kA prw by (auto simp: before_def)
    next
      case 4
      then have "c \<in> set ?A" "c \<noteq> k" "min_time c \<le> min_time k"
        using A kk sorted_prefix [OF 2(3) 4 kk] by blast+
      then show ?thesis using ord [of c k] kA wf by auto
    qed
  qed
  obtain f g where f: "f \<in> set cpt" "min_time f = ftr_min r" and g: "g \<in> set cpt" "max_time g = ftr_max r"
    using try_new_attained [OF c] by metis
  from k keep consider "k \<in> set bsuf" | "k \<in> set asuf" by blast
  then show ?thesis
    using outer [OF _ f(1)] outer' [OF _ g(1)] f g by cases (auto simp: contains_def)
qed

text \<open>
  C5. Non-overlap split. Once the files of \<open>compact_files\<close> are merged, their common time range
  meets no file of \<open>non_overlapping_files\<close>, provided the target level files were disjoint.
\<close>

theorem non_overlap_split_disjoint:
  assumes split: "non_overlap_split thr fs lv = Inr (cpt, keep)"
    and wf: "\<forall>f \<in> set fs. wf_file f"
    and disj: "disjoint_times (filter (\<lambda>f. compaction_level f = lv) fs)"
    and k: "k \<in> set keep" and c: "try_new cpt = Some r"
  shows "\<not> contains r k"
  using non_overlap_split_apart [OF assms] .

lemma upgrade_split_props:
  assumes split: "upgrade_split sz fs lv = Inr (c, u)" and wf: "\<forall>f \<in> set fs. wf_file f"
  shows "disjoint_times u
    \<and> (\<forall>f \<in> set u. compaction_level f = prev_level lv \<and> div_i64 (as_i64 sz) 2 \<le> file_size_bytes f)
    \<and> (\<forall>f \<in> set u. \<forall>r. try_new c = Some r \<longrightarrow> \<not> contains r f)"
  using split
proof (cases rule: upgrade_split_cases)
  case (1 c1 p1)
  let ?tgt = "filter (\<lambda>f. compaction_level f = lv) fs" and ?prev = "filter (\<lambda>f. compaction_level f \<noteq> lv) fs"
  have sep: "separated p1 c1" using upgrade_loop_separated [OF 1(1)] by (simp add: separated_def)
  have pot: "x \<in> set ?prev \<and> div_i64 (as_i64 sz) 2 \<le> file_size_bytes x
      \<and> (\<forall>r. try_new ?tgt = Some r \<longrightarrow> \<not> contains r x)" if "x \<in> set p1" for x
    using upgrade_loop_potential [OF 1(1) that] by simp
  have "mset c1 + mset p1 = mset ?prev" using upgrade_loop_mset [OF 1(1)] by simp
  then have "set c1 \<subseteq> set ?prev" by (metis set_mset_mset set_mset_union sup_ge1)
  then have wfc: "\<forall>g \<in> set (c1 @ ?tgt). wf_file g" using wf by auto
  have "disjoint_times u"
    unfolding 1(3) by (rule filter_disjoint_rev [OF separated_disjoint_times [OF sep]]) (use pot wf in auto)
  moreover have "compaction_level f = prev_level lv \<and> div_i64 (as_i64 sz) 2 \<le> file_size_bytes f"
    if "f \<in> set u" for f using that pot 1(3,4) by auto
  moreover have "\<not> contains r f" if fu: "f \<in> set u" and r: "try_new c = Some r" for f r
  proof (cases "try_new (c1 @ ?tgt)")
    case None
    with r 1(2) show ?thesis by auto
  next
    case (Some r1)
    have "c = (c1 @ ?tgt) @ filter (contains r1) (rev p1)" using 1(2) Some by simp
    then have "r = r1" using upgrade_compact_range [OF sep wfc _ Some _ r] pot by blast
    then show ?thesis using fu 1(3) Some by auto
  qed
  ultimately show ?thesis by blast
qed

text \<open>
  C4. Upgrade split. Every file is either upgraded or left for compaction, none is lost or duplicated.
  Files are only upgraded in the catalog if that is safe: each is a large file of the previous level,
  no two of them overlap, and none meets the time range spanned by the files left for compaction, so
  the upgraded files and the compaction output are disjoint.
\<close>

theorem upgrade_split_safe:
  assumes split: "upgrade_split sz fs lv = Inr (c, u)" and wf: "\<forall>f \<in> set fs. wf_file f"
  shows "mset c + mset u = mset fs \<and> disjoint_times u
    \<and> (\<forall>f \<in> set u. compaction_level f = prev_level lv \<and> div_i64 (as_i64 sz) 2 \<le> file_size_bytes f)
    \<and> (\<forall>f \<in> set u. \<forall>r. try_new c = Some r \<longrightarrow> \<not> contains r f)"
  using us.split_conserves [OF split] upgrade_split_props [OF assms] by blast

definition ex_files :: "files" where
  "ex_files = [file_of 1 Initial 0 10 100 1, file_of 2 Initial 20 30 10 2, file_of 3 FileNonOverlapped 25 40 100 1,
     file_of 4 FileNonOverlapped 100 150 1000 1]"

theorem upgrade_split_safe_witness:
  "\<exists>c u. upgrade_split 100 ex_files FileNonOverlapped = Inr (c, u) \<and> (\<forall>f \<in> set ex_files. wf_file f)
     \<and> map pf_id u = [1] \<and> map pf_id c = [2,3,4]
     \<and> disjoint_times u \<and> (\<forall>f \<in> set u. \<forall>r. try_new c = Some r \<longrightarrow> \<not> contains r f)"
proof -
  have h: "upgrade_split 100 ex_files FileNonOverlapped = Inr (drop 1 ex_files, take 1 ex_files)"
    by code_simp
  have w: "\<forall>f \<in> set ex_files. wf_file f" by code_simp
  show ?thesis
    using upgrade_split_safe [OF h w] h w by (intro exI [of _ "drop 1 ex_files"] exI [of _ "take 1 ex_files"])
      (auto simp: ex_files_def file_of_def)
qed

theorem non_overlap_split_disjoint_witness:
  "\<exists>c k r. non_overlap_split 50 ex_files FileNonOverlapped = Inr (c, [k]) \<and> pf_id k = 4
     \<and> (\<forall>f \<in> set ex_files. wf_file f)
     \<and> disjoint_times (filter (\<lambda>f. compaction_level f = FileNonOverlapped) ex_files)
     \<and> try_new c = Some r \<and> \<not> contains r k"
proof -
  let ?c = "[ex_files ! 2, ex_files ! 0, ex_files ! 1]" and ?k = "ex_files ! 3"
  let ?r = "\<lparr>ftr_min = 0, ftr_max = 40\<rparr>"
  have h: "non_overlap_split 50 ex_files FileNonOverlapped = Inr (?c, [?k])" by code_simp
  have w: "\<forall>f \<in> set ex_files. wf_file f" by code_simp
  have d: "disjoint_times (filter (\<lambda>f. compaction_level f = FileNonOverlapped) ex_files)" by code_simp
  have r: "try_new ?c = Some ?r" by code_simp
  have "pf_id ?k = 4" by code_simp
  with non_overlap_split_disjoint [OF h w d _ r, of ?k] h w d r show ?thesis
    by (intro exI [of _ ?c] exI [of _ ?k] exI [of _ ?r]) simp
qed

end
