(* ===== verification/Round_Info.thy ===== *)
theory Round_Info
  imports File_Group
begin

text \<open>
  What a compaction round works on, \<open>compactor/src/round_info.rs\<close>: the operation chosen for a range
  of files (\<open>CompactType\<close>), the range with the files it holds (\<open>CompactRange\<close>) and the round
  (\<open>RoundInfo\<close>). The \<open>Mutex\<close>-wrapped optional fields are plain options: each is locked for one statement at a
  time by the task that owns the round.
\<close>

section \<open>Operations\<close>

datatype compact_type =
    TargetLevel compaction_level nat
  | ManySmallFiles compaction_level nat nat
  | VerticalSplit "int list"
  | Deferred

fun ct_target_level :: "compact_type \<Rightarrow> compaction_level" where
  "ct_target_level (TargetLevel target_level _) = target_level"
| "ct_target_level (ManySmallFiles start_level _ _) = start_level"
| "ct_target_level (VerticalSplit _) = Initial"
| "ct_target_level Deferred = Initial"

fun is_many_small_files :: "compact_type \<Rightarrow> bool" where
  "is_many_small_files (ManySmallFiles _ _ _) = True"
| "is_many_small_files _ = False"

fun max_num_files_to_group :: "compact_type \<Rightarrow> nat option" where
  "max_num_files_to_group (TargetLevel _ _) = None"
| "max_num_files_to_group (ManySmallFiles _ n _) = Some n"
| "max_num_files_to_group (VerticalSplit _) = None"
| "max_num_files_to_group Deferred = None"

fun max_total_file_size_to_group :: "compact_type \<Rightarrow> nat option" where
  "max_total_file_size_to_group (TargetLevel _ _) = None"
| "max_total_file_size_to_group (ManySmallFiles _ _ n) = Some n"
| "max_total_file_size_to_group (VerticalSplit _) = None"
| "max_total_file_size_to_group Deferred = None"

fun ct_split_times :: "compact_type \<Rightarrow> int list option" where
  "ct_split_times (TargetLevel _ _) = None"
| "ct_split_times (ManySmallFiles _ _ _) = None"
| "ct_split_times (VerticalSplit ts) = Some ts"
| "ct_split_times Deferred = None"

fun is_deferred :: "compact_type \<Rightarrow> bool" where
  "is_deferred Deferred = True"
| "is_deferred _ = False"

lemma is_deferred_iff [simp]: "is_deferred t \<longleftrightarrow> t = Deferred"
  by (cases t) auto

section \<open>Ranges\<close>

record compact_range =
  cr_op :: "compact_type option"
  cr_min :: int
  cr_max :: int
  cr_cap :: nat
  has_l0s :: bool
  files_for_now :: "files option"
  branches :: "files list option"
  files_for_later :: "files option"

definition extend_opt :: "'a list option \<Rightarrow> 'a list \<Rightarrow> 'a list option" where
  "extend_opt ofs xs =
     (if xs \<noteq> [] then (case ofs of Some ys \<Rightarrow> Some (ys @ xs) | None \<Rightarrow> Some xs) else ofs)"

definition add_files_for_now :: "compact_range \<Rightarrow> files \<Rightarrow> compact_range" where
  "add_files_for_now r fs = r\<lparr>files_for_now := extend_opt (files_for_now r) fs\<rparr>"

definition add_files_for_later :: "compact_range \<Rightarrow> files \<Rightarrow> compact_range" where
  "add_files_for_later r fs = r\<lparr>files_for_later := extend_opt (files_for_later r) fs\<rparr>"

record round_info =
  ranges :: "compact_range list"
  l2_files_for_later :: "files option"

text \<open>\<open>take\<close> moves the files out of the mutex: the old round info is left without them.\<close>

definition take_l2_files_for_later :: "round_info \<Rightarrow> files option \<times> round_info" where
  "take_l2_files_for_later ri = (l2_files_for_later ri, ri\<lparr>l2_files_for_later := None\<rparr>)"

section \<open>All files of a range and of a round\<close>

definition opt_files :: "'a list option \<Rightarrow> 'a list" where
  "opt_files ofs = (case ofs of None \<Rightarrow> [] | Some fs \<Rightarrow> fs)"

lemma opt_files_simps [simp]: "opt_files None = []" "opt_files (Some fs) = fs"
  by (simp_all add: opt_files_def)

definition range_files :: "compact_range \<Rightarrow> files" where
  "range_files r = opt_files (files_for_now r) @ concat (opt_files (branches r)) @ opt_files (files_for_later r)"

definition round_files :: "round_info \<Rightarrow> files" where
  "round_files ri = concat (map range_files (ranges ri)) @ opt_files (l2_files_for_later ri)"

lemma opt_files_extend [simp]: "opt_files (extend_opt ofs xs) = opt_files ofs @ xs"
  by (cases ofs) (simp_all add: extend_opt_def)

lemma range_files_add_now [conserve]:
  "mset (range_files (add_files_for_now r fs)) = mset (range_files r) + mset fs"
  by (simp add: range_files_def add_files_for_now_def)

lemma range_files_add_later [conserve]:
  "mset (range_files (add_files_for_later r fs)) = mset (range_files r) + mset fs"
  by (simp add: range_files_def add_files_for_later_def)

lemma add_files_frame [simp]:
  "cr_op (add_files_for_now r fs) = cr_op r" "has_l0s (add_files_for_now r fs) = has_l0s r"
  "branches (add_files_for_now r fs) = branches r" "files_for_later (add_files_for_now r fs) = files_for_later r"
  "cr_op (add_files_for_later r fs) = cr_op r" "has_l0s (add_files_for_later r fs) = has_l0s r"
  "branches (add_files_for_later r fs) = branches r" "files_for_now (add_files_for_later r fs) = files_for_now r"
  by (simp_all add: add_files_for_now_def add_files_for_later_def)

end
