(* ===== verification/Divide_Initial.thy ===== *)
theory Divide_Initial
  imports Round_Info
begin

text \<open>
  The first two file list layers of a compaction round: \<open>ManyFilesRoundSplit::split\<close> keeps the files
  relevant for the operation (\<open>round_split/many_files.rs\<close>) and \<open>MultipleBranchesDivideInitial::divide\<close>
  groups them into branches that are compacted concurrently (\<open>divide_initial/multiple_branches.rs\<close>).
\<close>

section \<open>Order of files\<close>

text \<open>
  \<open>sort_by\<close> is a stable sort; for level 0 the comparison is lexicographic on
  \<open>(max_l0_created_at, min_time)\<close>.
\<close>

definition order_files :: "files \<Rightarrow> compaction_level \<Rightarrow> files" where
  "order_files fs start_level =
     (if start_level = Initial then sort_key (\<lambda>f. (max_l0_created_at f, min_time f)) fs
      else sort_key min_time fs)"

lemma mset_order_files [simp, conserve]: "mset (order_files fs l) = mset fs"
  by (simp add: order_files_def)

lemma set_order_files [simp]: "set (order_files fs l) = set fs"
  by (simp add: order_files_def)

lemma length_order_files [simp]: "length (order_files fs l) = length fs"
  by (simp add: order_files_def)

lemma order_files_sorted_l0: "sorted (map max_l0_created_at (order_files fs Initial))"
proof -
  have "sorted_wrt (\<lambda>a b. (max_l0_created_at a, min_time a) \<le> (max_l0_created_at b, min_time b))
      (order_files fs Initial)"
    using sorted_sort_key [of "\<lambda>f. (max_l0_created_at f, min_time f)" fs]
    by (simp add: order_files_def sorted_map)
  then show ?thesis
    unfolding sorted_map by (rule sorted_wrt_mono_rel [rotated]) (auto simp: less_eq_prod_def)
qed

section \<open>Splitting off the files of a round\<close>

definition round_split :: "files \<Rightarrow> compact_type \<Rightarrow> (files \<times> files) res" where
  "round_split fs op =
     (case op of
        ManySmallFiles start_level _ _ \<Rightarrow> Inr (partition (\<lambda>f. compaction_level f = start_level) fs)
      | TargetLevel target_level _ \<Rightarrow>
          Inr (partition (\<lambda>f. compaction_level f = prev_level target_level
                 \<or> compaction_level f = target_level \<or> compaction_level f = Final) fs)
      | VerticalSplit split_times \<Rightarrow>
          let (split_files, rest) =
                partition (\<lambda>f. compaction_level f \<noteq> Final \<and> needs_split f split_times) fs
          in assert_res (split_files \<noteq> []) ''if we decided to split, there should be something to split''
               (Inr (split_files, rest))
      | Deferred \<Rightarrow> Inr ([], fs))"

lemma round_split_conserves:
  "round_split fs op = Inr (a, b) \<Longrightarrow> mset a + mset b = mset fs"
  by (cases op) (auto simp: round_split_def conserve)

section \<open>Division into branches\<close>

text \<open>
  The loop of the \<open>ManySmallFiles\<close> arm: \<open>bs\<close> are the finished branches, \<open>cur\<close> is the current one with
  its size, \<open>later\<close> the files put off because they would form a branch of their own.
\<close>

definition close_branch :: "files list \<Rightarrow> files \<Rightarrow> files \<Rightarrow> files list \<times> files" where
  "close_branch bs later cur =
     (if length cur = 1 then (bs, later @ [last cur])
      else if cur \<noteq> [] then (bs @ [cur], later)
      else (bs, later))"

fun divide_loop :: "nat \<Rightarrow> nat \<Rightarrow> files \<Rightarrow> files list \<Rightarrow> files \<Rightarrow> files \<Rightarrow> nat \<Rightarrow> files list \<times> files" where
  "divide_loop max_num max_size [] bs later cur cur_size =
     (if cur \<noteq> [] then
        if length cur = 1 then (bs, later @ [last cur]) else (bs @ [cur], later)
      else (bs, later))"
| "divide_loop max_num max_size (f # fs) bs later cur cur_size =
     (if length cur = max_num \<or> cur_size + as_usize (file_size_bytes f) > max_size then
        let (bs, later) = close_branch bs later cur
        in divide_loop max_num max_size fs bs later [f] (as_usize (file_size_bytes f))
      else divide_loop max_num max_size fs bs later (cur @ [f]) (cur_size + as_usize (file_size_bytes f)))"

definition total_bytes :: "files \<Rightarrow> nat" where
  "total_bytes fs = sum_list (map (\<lambda>f. as_usize (file_size_bytes f)) fs)"

definition divide_branches :: "files \<Rightarrow> compact_type \<Rightarrow> (files list \<times> files) res" where
  "divide_branches fs op =
     (case op of
        ManySmallFiles start_level max_num max_size \<Rightarrow>
          assert_res (max_num \<noteq> 0) ''attempt to divide by zero''
            (Inr (divide_loop max_num max_size (order_files fs start_level) [] [] [] 0))
      | TargetLevel target_level max_size \<Rightarrow>
          let start_level = prev_level target_level;
              start_file_cnt = length (filter (\<lambda>f. compaction_level f = start_level) fs)
          in if start_file_cnt = 0 then Inr ([], fs)
             else if total_bytes fs < max_size then Inr ([fs], [])
             else
               let (for_now, rest) = partition (\<lambda>f. compaction_level f = start_level) fs
               in case (min_opt (map min_time for_now), max_opt (map max_time for_now)) of
                    (Some mn, Some mx) \<Rightarrow>
                      let (ovl, for_later) = partition (\<lambda>f2. overlaps_time_range f2 mn mx) rest
                      in Inr ([for_now @ ovl], for_later)
                  | _ \<Rightarrow> Inl (Panic ''called Option::unwrap on a None value'')
      | VerticalSplit _ \<Rightarrow> Inr ([fs], [])
      | Deferred \<Rightarrow> Inr ([], fs))"

subsection \<open>Conservation\<close>

lemma close_branch_mset:
  "close_branch bs later cur = (bs', later') \<Longrightarrow>
     mset (concat bs') + mset later' = mset (concat bs) + mset later + mset cur"
  by (cases cur rule: rev_cases) (auto simp: close_branch_def split: if_splits)

lemma divide_loop_mset:
  "divide_loop n m fs bs later cur sz = (bs', later') \<Longrightarrow>
     mset (concat bs') + mset later' = mset (concat bs) + mset later + mset cur + mset fs"
proof (induction n m fs bs later cur sz rule: divide_loop.induct)
  case (1 n m bs later cur sz)
  then show ?case by (cases cur rule: rev_cases) (auto split: if_splits)
next
  case (2 n m f fs bs later cur sz)
  obtain b l where cb: "close_branch bs later cur = (b, l)" by fastforce
  show ?case
  proof (cases "length cur = n \<or> sz + as_usize (file_size_bytes f) > m")
    case True
    with 2 cb close_branch_mset [OF cb] show ?thesis by auto
  next
    case False
    with 2 show ?thesis by auto
  qed
qed

lemma divide_conserves:
  assumes "divide_branches fs op = Inr (bs, later)"
  shows "mset (concat bs) + mset later = mset fs"
proof (cases op)
  case (TargetLevel lv mx)
  let ?s = "\<lambda>f. compaction_level f = prev_level lv"
  let ?rest = "filter (\<lambda>f. \<not> ?s f) fs"
  have "mset (filter ?s fs) + (mset (filter Q ?rest) + mset (filter (\<lambda>x. \<not> Q x) ?rest)) = mset fs" for Q
    by (simp only: mset_filter_not)
  with TargetLevel assms show ?thesis
    by (auto simp: divide_branches_def Let_def o_def add.assoc split: if_splits option.splits)
next
  case (ManySmallFiles l n m)
  with assms divide_loop_mset [of n m "order_files fs l" "[]" "[]" "[]" 0 bs later]
  show ?thesis by (simp add: divide_branches_def)
qed (use assms in \<open>auto simp: divide_branches_def\<close>)

subsection \<open>Size of branches\<close>

lemma total_bytes_simps [simp]:
  "total_bytes [] = 0" "total_bytes (f # fs) = as_usize (file_size_bytes f) + total_bytes fs"
  "total_bytes (fs @ gs) = total_bytes fs + total_bytes gs"
  by (simp_all add: total_bytes_def)

definition branch_ok :: "nat \<Rightarrow> nat \<Rightarrow> files \<Rightarrow> bool" where
  "branch_ok n m b \<longleftrightarrow> 2 \<le> length b \<and> length b \<le> n \<and> total_bytes b \<le> m"

definition current_ok :: "nat \<Rightarrow> nat \<Rightarrow> files \<Rightarrow> nat \<Rightarrow> bool" where
  "current_ok n m cur sz \<longleftrightarrow> length cur \<le> n \<and> sz = total_bytes cur \<and> (2 \<le> length cur \<longrightarrow> sz \<le> m)"

lemma close_branch_ok:
  assumes "close_branch bs later cur = (bs', later')" "\<forall>b \<in> set bs. branch_ok n m b" "current_ok n m cur sz"
  shows "\<forall>b \<in> set bs'. branch_ok n m b"
  using assms by (cases cur; cases "tl cur")
    (auto simp: close_branch_def branch_ok_def current_ok_def split: if_splits)

lemma divide_loop_ok:
  assumes "divide_loop n m fs bs later cur sz = (bs', later')" "0 < n"
    and "\<forall>b \<in> set bs. branch_ok n m b" "current_ok n m cur sz"
  shows "\<forall>b \<in> set bs'. branch_ok n m b"
  using assms
proof (induction n m fs bs later cur sz rule: divide_loop.induct)
  case (1 n m bs later cur sz)
  then show ?case
    by (cases cur; cases "tl cur") (auto simp: branch_ok_def current_ok_def split: if_splits)
next
  case (2 n m f fs bs later cur sz)
  obtain b l where cb: "close_branch bs later cur = (b, l)" by fastforce
  show ?case
  proof (cases "length cur = n \<or> sz + as_usize (file_size_bytes f) > m")
    case True
    with 2(3) cb have "divide_loop n m fs b l [f] (as_usize (file_size_bytes f)) = (bs', later')" by simp
    moreover have "current_ok n m [f] (as_usize (file_size_bytes f))"
      using 2(4) by (simp add: current_ok_def)
    ultimately show ?thesis
      using 2(1) [OF True cb [symmetric] refl] 2(4) close_branch_ok [OF cb 2(5,6)] by blast
  next
    case False
    with 2(3) have "divide_loop n m fs bs later (cur @ [f]) (sz + as_usize (file_size_bytes f)) = (bs', later')"
      by simp
    moreover have "current_ok n m (cur @ [f]) (sz + as_usize (file_size_bytes f))"
      using 2(6) False by (auto simp: current_ok_def)
    ultimately show ?thesis using 2(2) [OF False] 2(4,5) by blast
  qed
qed

text \<open>
  The branches are consecutive segments of the ordered files, so compacting a branch never
  reorders data across it.
\<close>

lemma divide_loop_segments:
  assumes "divide_loop n m fs bs later cur sz = (bs', later')"
    and "\<forall>b \<in> set bs. sublist b all" "suffix (cur @ fs) all"
  shows "\<forall>b \<in> set bs'. sublist b all"
  using assms
proof (induction n m fs bs later cur sz rule: divide_loop.induct)
  case (1 n m bs later cur sz)
  then show ?case by (auto split: if_splits dest: suffix_imp_sublist)
next
  case (2 n m f fs bs later cur sz)
  obtain b l where cb: "close_branch bs later cur = (b, l)" by fastforce
  have "sublist cur all" using 2(5) by (auto simp: suffix_def sublist_def)
  then have b: "\<forall>x \<in> set b. sublist x all"
    using cb 2(4) by (auto simp: close_branch_def split: if_splits)
  have suf: "suffix ([f] @ fs) all" "suffix ((cur @ [f]) @ fs) all"
    using 2(5) by (auto simp: suffix_def)
  show ?case
  proof (cases "length cur = n \<or> sz + as_usize (file_size_bytes f) > m")
    case True
    with 2(3) cb have "divide_loop n m fs b l [f] (as_usize (file_size_bytes f)) = (bs', later')" by simp
    then show ?thesis using 2(1) [OF True cb [symmetric] refl] b suf(1) by blast
  next
    case False
    with 2(3) have "divide_loop n m fs bs later (cur @ [f]) (sz + as_usize (file_size_bytes f)) = (bs', later')"
      by simp
    then show ?thesis using 2(2) [OF False] 2(4) suf(2) by blast
  qed
qed

section \<open>Properties\<close>

text \<open>
  C6. Division of many small files. Every branch holds at least two and at most
  \<open>max_num_files_to_group\<close> files, at most \<open>max_total_file_size_to_group\<close> bytes, and is a consecutive
  segment of the files in compaction order; files that would be alone in a branch are put off, and
  branches and put-off files are exactly the input.
\<close>

theorem divide_many_small_files:
  assumes "divide_branches fs (ManySmallFiles l n m) = Inr (bs, later)"
  shows "mset (concat bs) + mset later = mset fs
    \<and> (\<forall>b \<in> set bs. 2 \<le> length b \<and> length b \<le> n \<and> total_bytes b \<le> m
         \<and> sublist b (order_files fs l))"
proof -
  have loop: "divide_loop n m (order_files fs l) [] [] [] 0 = (bs, later)" and n: "0 < n"
    using assms by (auto simp: divide_branches_def)
  have "\<forall>b \<in> set bs. branch_ok n m b"
    by (rule divide_loop_ok [OF loop n]) (simp_all add: current_ok_def)
  moreover have "\<forall>b \<in> set bs. sublist b (order_files fs l)"
    by (rule divide_loop_segments [OF loop]) simp_all
  ultimately show ?thesis using divide_conserves [OF assms] by (auto simp: branch_ok_def)
qed

theorem divide_many_small_files_witness:
  "\<exists>b. divide_branches [file_of 1 Initial 5 9 10 2, file_of 2 Initial 0 9 10 1, file_of 3 Initial 0 9 90 3]
       (ManySmallFiles Initial 2 100) = Inr ([b], [file_of 3 Initial 0 9 90 3])
     \<and> map pf_id b = [2, 1] \<and> length b \<le> 2 \<and> total_bytes b \<le> 100"
proof -
  let ?b = "[file_of 2 Initial 0 9 10 1, file_of 1 Initial 5 9 10 2]"
  have h: "divide_branches [file_of 1 Initial 5 9 10 2, file_of 2 Initial 0 9 10 1, file_of 3 Initial 0 9 90 3]
       (ManySmallFiles Initial 2 100) = Inr ([?b], [file_of 3 Initial 0 9 90 3])" by code_simp
  have "map pf_id ?b = [2, 1]" by code_simp
  with divide_many_small_files [OF h] h show ?thesis by (intro exI [of _ ?b]) simp
qed

text \<open>
  C7. Division for a target level always returns, and nothing is lost. Without a file of the start level
  there is no branch and every file is left for later. Otherwise there is exactly one branch, it
  holds every start level file, and no file left for later shares a timestamp with the range spanned
  by the start level files; files of fewer bytes than the limit are all in the branch.
\<close>

theorem divide_target_level:
  "\<exists>bs later. divide_branches fs (TargetLevel lv m) = Inr (bs, later) \<and> mset (concat bs) + mset later = mset fs
    \<and> (let now = filter (\<lambda>f. compaction_level f = prev_level lv) fs
       in if now = [] then bs = [] \<and> later = fs
          else \<exists>b r. bs = [b] \<and> set now \<subseteq> set b \<and> try_new now = Some r \<and> (\<forall>f \<in> set later. \<not> contains r f)
                 \<and> (total_bytes fs < m \<longrightarrow> b = fs))"
proof -
  define now where "now = filter (\<lambda>f. compaction_level f = prev_level lv) fs"
  show ?thesis
  proof (cases "now = []")
    case True
    then show ?thesis by (simp add: divide_branches_def now_def Let_def)
  next
    case False
    then obtain r where r: "try_new now = Some r" using try_new_None by (cases "try_new now") auto
    then have mm: "min_opt (map min_time now) = Some (ftr_min r)" "max_opt (map max_time now) = Some (ftr_max r)"
      by (simp_all add: try_new_min_max)
    show ?thesis
    proof (cases "total_bytes fs < m")
      case True
      then show ?thesis using False r unfolding now_def by (auto simp: divide_branches_def Let_def)
    next
      case big: False
      define rest where "rest = filter (\<lambda>f. compaction_level f \<noteq> prev_level lv) fs"
      let ?b = "now @ filter (\<lambda>f. overlaps_time_range f (ftr_min r) (ftr_max r)) rest"
      let ?later = "filter (\<lambda>f. \<not> overlaps_time_range f (ftr_min r) (ftr_max r)) rest"
      have d: "divide_branches fs (TargetLevel lv m) = Inr ([?b], ?later)"
        using False big mm unfolding now_def rest_def by (simp add: divide_branches_def Let_def o_def)
      moreover have "\<forall>f \<in> set ?later. \<not> contains r f" by (auto simp: overlaps_time_range_def contains_def)
      ultimately show ?thesis using divide_conserves [OF d] False big r unfolding now_def by auto
    qed
  qed
qed

theorem divide_target_level_witness:
  "\<exists>b. divide_branches [file_of 1 Initial 5 9 10 2, file_of 2 FileNonOverlapped 0 6 10 1, file_of 3 FileNonOverlapped 20 29 90 3]
       (TargetLevel FileNonOverlapped 50) = Inr ([b], [file_of 3 FileNonOverlapped 20 29 90 3])
     \<and> file_of 1 Initial 5 9 10 2 \<in> set b \<and> length b = 2"
proof -
  let ?fs = "[file_of 1 Initial 5 9 10 2, file_of 2 FileNonOverlapped 0 6 10 1, file_of 3 FileNonOverlapped 20 29 90 3]"
  let ?b = "[file_of 1 Initial 5 9 10 2, file_of 2 FileNonOverlapped 0 6 10 1]"
  have h: "divide_branches ?fs (TargetLevel FileNonOverlapped 50) = Inr ([?b], [file_of 3 FileNonOverlapped 20 29 90 3])"
    by code_simp
  have "compaction_level (file_of 1 Initial 5 9 10 2) = Initial" by code_simp
  with divide_target_level [of ?fs FileNonOverlapped 50] h show ?thesis by (auto simp: file_of_def)
qed

end
