(* ===== verification/File_Classification.thy ===== *)
theory File_Classification
  imports File_Group
begin

text \<open>
  Models \<open>compactor/src/file_classification.rs\<close>: what one compaction branch is to do with its files.
  The lemmas say where every file of a classification is found again.
\<close>

datatype none_reason = NoInputFiles | NoFilesToSplitFound | DeferredReason | FilesSkipped

datatype compact_reason =
  ManySmallFilesReason | TotalSizeLessThanMaxCompactSize | FoundSubsetLessThanMaxCompactSize

datatype split_reason =
    ReduceOverlap | ReduceLargeFileSize | CompactAndSplitOutput compact_reason
  | HighL0OverlapSingleFile | HighL0OverlapTotalBacklog | StartLevelOverlapsTooBig
  | VerticalSplitReason

record file_to_split =
  split_file :: parquet_file
  split_times :: "int list"

datatype files_to_split_or_compact =
    NoFiles none_reason
  | Split "file_to_split list" split_reason
  | Compact files compact_reason

record files_for_progress =
  upgrade :: files
  split_or_compact :: files_to_split_or_compact

record file_classification =
  target_level :: compaction_level
  files_to_make_progress_on :: files_for_progress
  files_to_keep :: files

definition files_to_compact_from :: "files \<Rightarrow> compact_reason \<Rightarrow> files_to_split_or_compact" where
  "files_to_compact_from fs reason = (if fs = [] then NoFiles FilesSkipped else Compact fs reason)"

fun num_files_to_compact :: "files_to_split_or_compact \<Rightarrow> nat" where
  "num_files_to_compact (Compact fs _) = length fs"
| "num_files_to_compact _ = 0"

fun num_files_to_split :: "files_to_split_or_compact \<Rightarrow> nat" where
  "num_files_to_split (Split fs _) = length fs"
| "num_files_to_split _ = 0"

fun into_files :: "files_to_split_or_compact \<Rightarrow> files" where
  "into_files (NoFiles _) = []"
| "into_files (Split fs _) = map split_file fs"
| "into_files (Compact fs _) = fs"

definition progress_is_empty :: "files_for_progress \<Rightarrow> bool" where
  "progress_is_empty p \<longleftrightarrow> upgrade p = [] \<and> (case split_or_compact p of NoFiles _ \<Rightarrow> True | _ \<Rightarrow> False)"

definition num_files_to_upgrade :: "file_classification \<Rightarrow> nat" where
  "num_files_to_upgrade c = length (upgrade (files_to_make_progress_on c))"

definition num_files_to_keep :: "file_classification \<Rightarrow> nat" where
  "num_files_to_keep c = length (files_to_keep c)"

text \<open>All files a classification accounts for.\<close>

definition classified_files :: "file_classification \<Rightarrow> files" where
  "classified_files c = upgrade (files_to_make_progress_on c)
     @ into_files (split_or_compact (files_to_make_progress_on c)) @ files_to_keep c"

lemma into_files_from [simp]: "into_files (files_to_compact_from fs r) = fs"
  by (simp add: files_to_compact_from_def)

lemma length_into_files: "length (into_files s) = num_files_to_compact s + num_files_to_split s"
  by (cases s) simp_all

lemma progress_is_empty_from:
  "progress_is_empty \<lparr>upgrade = u, split_or_compact = files_to_compact_from fs r\<rparr> \<longleftrightarrow> u = [] \<and> fs = []"
  by (simp add: progress_is_empty_def files_to_compact_from_def)

end
