(* ===== verification/Files_To_Compact.thy ===== *)
theory Files_To_Compact
  imports Files_Split Divide_Initial File_Classification
begin

text \<open>
  Models \<open>components/split_or_compact/files_to_compact.rs\<close>: choosing, in deduplication order, start
  level files together with the target level files they overlap so that the compaction stays under
  the size and file count limits. The loop keeps the invariant \<open>limit_inv\<close>; from it follow that the
  two accounting assertions at the end never fail, and that the chosen set is closed under overlap.
\<close>

section \<open>The model\<close>

datatype compact_or_further_split =
    CompactSet files
  | FurtherSplit files
  | SpecificSplit "file_to_split list"

record keep_and_compact_split =
  kcs_split :: compact_or_further_split
  kcs_keep :: files

fun kcs_files_to_compact :: "compact_or_further_split \<Rightarrow> files" where
  "kcs_files_to_compact (CompactSet fs) = fs"
| "kcs_files_to_compact _ = []"

fun kcs_files_to_further_split :: "compact_or_further_split \<Rightarrow> files" where
  "kcs_files_to_further_split (FurtherSplit fs) = fs"
| "kcs_files_to_further_split _ = []"

fun kcs_specific_splits :: "compact_or_further_split \<Rightarrow> file_to_split list" where
  "kcs_specific_splits (SpecificSplit ss) = ss"
| "kcs_specific_splits _ = []"

definition time_range :: "parquet_file \<Rightarrow> files \<Rightarrow> timestamp \<times> timestamp" where
  "time_range file fs =
     (fold (\<lambda>f m. min m (min_time f)) fs (min_time file), fold (\<lambda>f m. max m (max_time f)) fs (max_time file))"

fun list_time_range :: "files \<Rightarrow> (timestamp \<times> timestamp) res" where
  "list_time_range [] = Inl (Panic ''index out of bounds'')"
| "list_time_range (f # fs) =
     Inr (fold (\<lambda>f m. min m (min_time f)) (f # fs) (min_time f), fold (\<lambda>f m. max m (max_time f)) (f # fs) (max_time f))"

record limit_state =
  start_to_compact :: files
  target_to_compact :: files
  to_further_split :: files
  to_keep :: files
  specific :: "file_to_split list"
  total_size :: int

definition size_sum :: "files \<Rightarrow> int" where
  "size_sum fs = sum_list (map file_size_bytes fs)"

text \<open>Start level files that the newly selected target level files overlap besides \<open>file\<close>.\<close>

definition extra_overlapped :: "compaction_level \<Rightarrow> files \<Rightarrow> files \<Rightarrow> parquet_file \<Rightarrow> files \<Rightarrow> files res" where
  "extra_overlapped lv starts sc file ovl =
     (if ovl \<noteq> [] \<and> lv = Final then
        bind_res (list_time_range ovl) (\<lambda>(mn, mx).
          Inr (filter (\<lambda>f. pf_id f \<noteq> pf_id file)
                (filter (\<lambda>f. \<not> list_ex (\<lambda>x. pf_id x = pf_id f) sc)
                  (filter (\<lambda>f. overlaps_time_range f mn mx) starts))))
      else Inr [])"

text \<open>The splits of the overlapped target level files at the start of the extra start level files.\<close>

definition specific_splits_of :: "files \<Rightarrow> files \<Rightarrow> file_to_split list" where
  "specific_splits_of extra ovl =
     filter (\<lambda>s. split_times s \<noteq> [])
       (map (\<lambda>f. \<lparr>split_file = f,
                   split_times = filter (\<lambda>t. t \<ge> min_time f \<and> t < max_time f) (map min_time extra)\<rparr>) ovl)"

text \<open>The branch of the loop that is taken when the limit is exceeded; the loop then stops.\<close>

definition limit_stop :: "parquet_file \<Rightarrow> files \<Rightarrow> files \<Rightarrow> limit_state \<Rightarrow> limit_state res" where
  "limit_stop file ovl extra st =
     (if start_to_compact st = [] then
        let sp = specific st @ (if extra \<noteq> [] then specific_splits_of extra ovl else [])
        in if sp = [] then
             assert_res (length ovl \<le> 1) ''should have no more than 1 overlapped target_level file''
               (Inr (st\<lparr>specific := sp, to_further_split := to_further_split st @ [file] @ ovl\<rparr>))
           else Inr (st\<lparr>specific := sp, to_keep := to_keep st @ [file]\<rparr>)
      else Inr (st\<lparr>to_keep := to_keep st @ [file]\<rparr>))"

text \<open>
  The loop over the ordered start level files; it returns the state and the files the iterator
  still holds when the loop ends.
\<close>

fun limit_loop :: "nat \<Rightarrow> nat \<Rightarrow> compaction_level \<Rightarrow> files \<Rightarrow> files \<Rightarrow> files \<Rightarrow> limit_state
    \<Rightarrow> (limit_state \<times> files) res" where
  "limit_loop max_files max_size lv starts targets [] st = Inr (st, [])"
| "limit_loop max_files max_size lv starts targets (file # rest) st =
     (if list_ex (\<lambda>x. pf_id x = pf_id file) (start_to_compact st) then
        limit_loop max_files max_size lv starts targets rest st
      else
        let (mn, mx) = time_range file (start_to_compact st);
            ovl = filter (\<lambda>f. f \<notin> set (target_to_compact st)) (filter (\<lambda>f. overlaps_time_range f mn mx) targets)
        in bind_res (extra_overlapped lv starts (start_to_compact st) file ovl) (\<lambda>extra.
             let size = file_size_bytes file + size_sum ovl + size_sum extra
             in if total_size st + size \<le> as_i64 max_size \<and> length (start_to_compact st) < max_files then
                  limit_loop max_files max_size lv starts targets rest
                    (st\<lparr>start_to_compact := start_to_compact st @ [file] @ extra,
                        target_to_compact := target_to_compact st @ ovl,
                        total_size := total_size st + size\<rparr>)
                else bind_res (limit_stop file ovl extra st) (\<lambda>st'. Inr (st', rest))))"

definition init_state :: limit_state where
  "init_state = \<lparr>start_to_compact = [], target_to_compact = [], to_further_split = [], to_keep = [],
     specific = [], total_size = 0\<rparr>"

text \<open>What follows the loop: the files that are left are kept, and the two sanity checks.\<close>

definition limit_finish :: "nat \<Rightarrow> files \<Rightarrow> limit_state \<Rightarrow> files \<Rightarrow> keep_and_compact_split res" where
  "limit_finish len targets st rest =
     (let targets = filter (\<lambda>f. f \<notin> set (target_to_compact st)) targets;
          targets = filter (\<lambda>f. f \<notin> set (to_further_split st)) targets;
          targets = filter (\<lambda>f. \<not> list_ex (\<lambda>x. pf_id (split_file x) = pf_id f) (specific st)) targets;
          keep = to_keep st @ targets @ rest;
          cpt = start_to_compact st @ target_to_compact st
      in assert_res (length cpt + length (to_further_split st) + length (specific st) + length keep = len)
           ''all files should be accounted after file divisions''
        (assert_res (of_bool (cpt = []) + of_bool (to_further_split st = []) + of_bool (specific st = []) \<ge> (2::nat))
           ''should have at least 2 sets of files''
        (Inr \<lparr>kcs_split = (if cpt \<noteq> [] then CompactSet cpt
                else if to_further_split st \<noteq> [] then FurtherSplit (to_further_split st)
                else SpecificSplit (specific st)),
              kcs_keep = keep\<rparr>)))"

definition limit_files_to_compact :: "nat \<Rightarrow> nat \<Rightarrow> files \<Rightarrow> compaction_level \<Rightarrow> keep_and_compact_split res" where
  "limit_files_to_compact max_files max_size fs lv =
     (let start_level = prev_level lv
      in assert_res (list_all (\<lambda>f. compaction_level f = lv \<or> compaction_level f = start_level) fs)
           ''all files to compact must be in start or target level''
        (bind_res (target_level_split fs start_level) (\<lambda>(starts, targets).
           assert_res (list_all (\<lambda>s. length (filter (\<lambda>t. overlaps t s) targets) \<le> 1) starts)
             ''no file in start level should overlap with more than one file in target level''
             (let starts = order_files starts start_level
              in bind_res (limit_loop max_files max_size lv starts targets starts init_state) (\<lambda>(st, rest).
                   limit_finish (length fs) targets st rest)))))"

section \<open>Time ranges\<close>

lemma time_range_bounds:
  assumes "time_range file fs = (mn, mx)" "f \<in> insert file (set fs)"
  shows "mn \<le> min_time f" "max_time f \<le> mx"
  using assms fold_min_le [of "map min_time fs" "min_time file"] fold_max_ge [of "max_time file" "map max_time fs"]
  by (auto simp: time_range_def fold_min_key fold_max_key)

lemma time_range_min_attained:
  assumes "time_range file fs = (mn, mx)"
  shows "\<exists>f \<in> insert file (set fs). min_time f = mn"
  using assms fold_min_in [of "map min_time fs" "min_time file"]
  by (auto simp: time_range_def fold_min_key)

lemma time_range_max_attained:
  assumes "time_range file fs = (mn, mx)"
  shows "\<exists>f \<in> insert file (set fs). max_time f = mx"
  using assms fold_max_in [of "map max_time fs" "max_time file"]
  by (auto simp: time_range_def fold_max_key)

lemma list_time_range_ok:
  assumes "fs \<noteq> []"
  obtains mn mx where "list_time_range fs = Inr (mn, mx)" "\<forall>f \<in> set fs. mn \<le> min_time f \<and> max_time f \<le> mx"
    "\<exists>f \<in> set fs. max_time f = mx"
proof -
  obtain g gs where fs: "fs = g # gs" using assms by (cases fs) auto
  obtain mn mx where r: "time_range g (g # gs) = (mn, mx)" by fastforce
  then have "list_time_range fs = Inr (mn, mx)" by (simp add: fs time_range_def)
  moreover have "\<forall>f \<in> set fs. mn \<le> min_time f \<and> max_time f \<le> mx"
    using time_range_bounds [OF r] by (simp add: fs)
  moreover have "\<exists>f \<in> set fs. max_time f = mx"
    using time_range_max_attained [OF r] by (auto simp: fs)
  ultimately show thesis by (rule that)
qed

section \<open>What the loop relies on\<close>

definition limit_ctx :: "compaction_level \<Rightarrow> files \<Rightarrow> files \<Rightarrow> bool" where
  "limit_ctx lv S T \<longleftrightarrow>
     distinct (map pf_id (S @ T)) \<and> (\<forall>f \<in> set S \<union> set T. wf_file f)
     \<and> (\<forall>s \<in> set S. length (filter (\<lambda>t. overlaps t s) T) \<le> 1)
     \<and> (lv = Final \<longrightarrow> sorted (map min_time S) \<and> disjoint_times S)"

lemma limit_ctx_wf: "limit_ctx lv S T \<Longrightarrow> f \<in> set S \<union> set T \<Longrightarrow> min_time f \<le> max_time f"
  by (auto simp: limit_ctx_def wf_file_def)

lemma limit_ctx_later:
  assumes "limit_ctx Final (done @ file # tail) T" "a \<in> insert file (set done)" "f \<in> set tail"
  shows "max_time a < min_time f"
proof -
  have "sorted (map min_time (done @ file # tail))" "disjoint_times (done @ file # tail)" "wf_file a" "wf_file f"
    "distinct (map pf_id (done @ file # tail))"
    using assms by (auto simp: limit_ctx_def)
  moreover from this assms have "min_time a \<le> min_time f" "a \<noteq> f"
    by (auto simp: sorted_append)
  ultimately show ?thesis
    using assms disjoint_timesD [of "done @ file # tail" a f] by (auto simp: overlaps_def wf_file_def)
qed

lemma ids_member:
  assumes "distinct (map pf_id S)" "set xs \<subseteq> set S" "f \<in> set S"
  shows "list_ex (\<lambda>x. pf_id x = pf_id f) xs \<longleftrightarrow> f \<in> set xs"
  using assms by (auto simp: list_ex_iff distinct_map dest: inj_onD)

lemma extra_overlapped_ok:
  assumes ctx: "limit_ctx lv (done @ file # tail) T" and sc: "mset sc = mset done"
    and r: "time_range file sc = (mn, mx)"
    and ovl: "set ovl \<subseteq> set T" "\<forall>t \<in> set ovl. overlaps_time_range t mn mx"
  obtains extra tail' where "extra_overlapped lv (done @ file # tail) sc file ovl = Inr extra"
    "tail = extra @ tail'" "lv \<noteq> Final \<longrightarrow> extra = []"
    "\<forall>e \<in> set extra. \<exists>t \<in> set ovl. overlaps t e" "\<forall>e \<in> set extra. mx < min_time e"
    "lv = Final \<longrightarrow> (\<forall>t \<in> set ovl. \<forall>s \<in> set (done @ file # tail). overlaps s t \<longrightarrow> s \<in> set done \<union> {file} \<union> set extra)"
proof (cases "ovl \<noteq> [] \<and> lv = Final")
  case False
  then show thesis by (intro that [of "[]" tail]) (auto simp: extra_overlapped_def)
next
  case True
  let ?S = "done @ file # tail"
  have ctx': "limit_ctx Final ?S T" using ctx True by simp
  have setsc: "set sc = set done" using sc by (rule mset_eq_setD)
  have ids: "distinct (map pf_id ?S)" using ctx by (auto simp: limit_ctx_def)
  obtain mn' mx' where l: "list_time_range ovl = Inr (mn', mx')"
    "\<forall>f \<in> set ovl. mn' \<le> min_time f \<and> max_time f \<le> mx'" "\<exists>f \<in> set ovl. max_time f = mx'"
    using True list_time_range_ok by blast
  have mx: "mx < min_time f" if "f \<in> set tail" for f
    using time_range_max_attained [OF r] limit_ctx_later [OF ctx' _ that] setsc by auto
  have wft: "min_time f \<le> max_time f" if "f \<in> set tail" for f
    using ctx that by (auto simp: limit_ctx_def wf_file_def)
  have P: "overlaps_time_range f mn' mx' \<longleftrightarrow> min_time f \<le> mx'" if f: "f \<in> set tail" for f
  proof -
    obtain t where t: "t \<in> set ovl" using True by (cases ovl) auto
    then have "mn' \<le> min_time t" "min_time t \<le> mx" using l(2) ovl(2) by (auto simp: overlaps_time_range_def)
    then have "mn' \<le> mx" by simp
    with mx [OF f] wft [OF f] have "mn' \<le> max_time f" by simp
    then show ?thesis by (simp add: overlaps_time_range_def)
  qed
  define extra where "extra = filter (\<lambda>f. min_time f \<le> mx') tail"
  have "filter (\<lambda>f. pf_id f \<noteq> pf_id file) (filter (\<lambda>f. \<not> list_ex (\<lambda>x. pf_id x = pf_id f) sc)
      (filter (\<lambda>f. overlaps_time_range f mn' mx') ?S)) = extra"
  proof -
    have "list_ex (\<lambda>x. pf_id x = pf_id f) sc" if "f \<in> set done" for f
      using that setsc by (auto simp: list_ex_iff)
    moreover have "\<not> list_ex (\<lambda>x. pf_id x = pf_id f) sc \<and> pf_id f \<noteq> pf_id file" if "f \<in> set tail" for f
    proof -
      have "pf_id f \<in> pf_id ` set tail" using that by simp
      then have "pf_id f \<notin> pf_id ` set done" "pf_id f \<noteq> pf_id file" using ids by auto
      then show ?thesis using setsc by (metis (mono_tags, lifting) image_eqI list_ex_iff)
    qed
    ultimately show ?thesis
      unfolding extra_def filter_filter filter_append
      by (auto simp: filter_empty_conv P cong: filter_cong)
  qed
  then have e: "extra_overlapped lv ?S sc file ovl = Inr extra"
    using True l(1) by (simp add: extra_overlapped_def)
  have "sorted (map min_time tail)" using ctx' by (simp add: limit_ctx_def sorted_append)
  then have tail: "tail = extra @ dropWhile (\<lambda>f. min_time f \<le> mx') tail"
    by (simp add: extra_def filter_le_takeWhile)
  show thesis
  proof (rule that [OF e tail])
    show "\<forall>e \<in> set extra. \<exists>t \<in> set ovl. overlaps t e"
    proof
      fix e assume "e \<in> set extra"
      then have e: "e \<in> set tail" "min_time e \<le> mx'" by (auto simp: extra_def)
      obtain t where t: "t \<in> set ovl" "max_time t = mx'" using l(3) by auto
      then have "min_time t \<le> max_time e"
        using bspec [OF ovl(2)] mx [OF e(1)] wft [OF e(1)] by (fastforce simp: overlaps_time_range_def)
      with t e show "\<exists>t \<in> set ovl. overlaps t e" by (auto simp: overlaps_def)
    qed
    show "\<forall>e \<in> set extra. mx < min_time e" using mx by (simp add: extra_def)
    show "lv = Final \<longrightarrow> (\<forall>t \<in> set ovl. \<forall>s \<in> set ?S. overlaps s t \<longrightarrow> s \<in> set done \<union> {file} \<union> set extra)"
      using l(2) by (force simp: extra_def overlaps_def)
  qed (use True in simp)
qed

section \<open>The loop invariant\<close>

lemma size_sum_append [simp]: "size_sum (xs @ ys) = size_sum xs + size_sum ys"
  by (simp add: size_sum_def)

lemma size_sum_Cons [simp]: "size_sum (x # xs) = file_size_bytes x + size_sum xs"
  by (simp add: size_sum_def)

lemma size_sum_Nil [simp]: "size_sum [] = 0"
  by (simp add: size_sum_def)

text \<open>
  The start level files selected so far are those before the current one and some that follow it
  immediately; every target level file they overlap is selected, and for the final level every
  start level file that a selected target level file overlaps.
\<close>

definition closed_sel :: "compaction_level \<Rightarrow> files \<Rightarrow> files \<Rightarrow> files \<Rightarrow> files \<Rightarrow> bool" where
  "closed_sel lv S T sc tc \<longleftrightarrow>
     (\<forall>s \<in> set sc. \<forall>t \<in> set T. overlaps t s \<longrightarrow> t \<in> set tc)
     \<and> (lv = Final \<longrightarrow> (\<forall>t \<in> set tc. \<forall>s \<in> set S. overlaps s t \<longrightarrow> s \<in> set sc))
     \<and> (disjoint_times T \<longrightarrow> (\<forall>t \<in> set T. \<forall>a \<in> set sc. \<forall>b \<in> set sc.
          min_time a \<le> max_time t \<and> min_time t \<le> max_time b \<longrightarrow> t \<in> set tc))
     \<and> (\<forall>t \<in> set tc. \<exists>a \<in> set sc. \<exists>b \<in> set sc. min_time a \<le> max_time t \<and> min_time t \<le> max_time b)"

lemma closed_selD:
  assumes "closed_sel lv S T sc tc"
  shows "s \<in> set sc \<Longrightarrow> t \<in> set T \<Longrightarrow> overlaps t s \<Longrightarrow> t \<in> set tc"
    and "lv = Final \<Longrightarrow> t \<in> set tc \<Longrightarrow> s \<in> set S \<Longrightarrow> overlaps s t \<Longrightarrow> s \<in> set sc"
    and "disjoint_times T \<Longrightarrow> t \<in> set T \<Longrightarrow> a \<in> set sc \<Longrightarrow> b \<in> set sc \<Longrightarrow> min_time a \<le> max_time t \<Longrightarrow>
      min_time t \<le> max_time b \<Longrightarrow> t \<in> set tc"
    and "t \<in> set tc \<Longrightarrow> \<exists>a \<in> set sc. \<exists>b \<in> set sc. min_time a \<le> max_time t \<and> min_time t \<le> max_time b"
proof -
  note c = assms [unfolded closed_sel_def]
  show "s \<in> set sc \<Longrightarrow> t \<in> set T \<Longrightarrow> overlaps t s \<Longrightarrow> t \<in> set tc" using c [THEN conjunct1] by blast
  show "lv = Final \<Longrightarrow> t \<in> set tc \<Longrightarrow> s \<in> set S \<Longrightarrow> overlaps s t \<Longrightarrow> s \<in> set sc"
    using c [THEN conjunct2, THEN conjunct1] by blast
  show "disjoint_times T \<Longrightarrow> t \<in> set T \<Longrightarrow> a \<in> set sc \<Longrightarrow> b \<in> set sc \<Longrightarrow> min_time a \<le> max_time t \<Longrightarrow>
      min_time t \<le> max_time b \<Longrightarrow> t \<in> set tc"
    using c [THEN conjunct2, THEN conjunct2, THEN conjunct1] by blast
  show "t \<in> set tc \<Longrightarrow> \<exists>a \<in> set sc. \<exists>b \<in> set sc. min_time a \<le> max_time t \<and> min_time t \<le> max_time b"
    using c [THEN conjunct2, THEN conjunct2, THEN conjunct2] by blast
qed

definition limit_inv :: "compaction_level \<Rightarrow> nat \<Rightarrow> nat \<Rightarrow> files \<Rightarrow> files \<Rightarrow> files \<Rightarrow> files \<Rightarrow> limit_state \<Rightarrow> bool" where
  "limit_inv lv mf ms S T done rest st \<longleftrightarrow>
     S = done @ rest
     \<and> (\<exists>ahead later. rest = ahead @ later \<and> mset (start_to_compact st) = mset (done @ ahead) \<and> (lv \<noteq> Final \<longrightarrow> ahead = []))
     \<and> distinct (target_to_compact st) \<and> set (target_to_compact st) \<subseteq> set T
     \<and> to_further_split st = [] \<and> to_keep st = [] \<and> specific st = []
     \<and> total_size st = size_sum (start_to_compact st @ target_to_compact st)
     \<and> (start_to_compact st = [] \<longrightarrow> st = init_state)
     \<and> (start_to_compact st \<noteq> [] \<longrightarrow> total_size st \<le> as_i64 ms)
     \<and> (lv \<noteq> Final \<longrightarrow> length (start_to_compact st) \<le> mf)
     \<and> closed_sel lv S T (start_to_compact st) (target_to_compact st)"

definition limit_post :: "compaction_level \<Rightarrow> nat \<Rightarrow> nat \<Rightarrow> files \<Rightarrow> files \<Rightarrow> limit_state \<Rightarrow> files \<Rightarrow> bool" where
  "limit_post lv mf ms S T st rest \<longleftrightarrow>
     rest = [] \<and> limit_inv lv mf ms S T S [] st
     \<or> (\<exists>done file st0. S = done @ file # rest \<and> limit_inv lv mf ms S T done (file # rest) st0
          \<and> start_to_compact st0 \<noteq> [] \<and> mset (start_to_compact st0) = mset done \<and> st = st0\<lparr>to_keep := [file]\<rparr>)
     \<or> (\<exists>file ovl extra. S = file # rest \<and> ovl = filter (\<lambda>t. overlaps t file) T
          \<and> extra_overlapped lv S [] file ovl = Inr extra
          \<and> \<not> (size_sum (file # ovl) + size_sum extra \<le> as_i64 ms \<and> 0 < mf)
          \<and> limit_stop file ovl extra init_state = Inr st)"

lemma limit_inv_init: "limit_inv lv mf ms S T [] S init_state"
  by (auto simp: limit_inv_def init_state_def closed_sel_def)

text \<open>A file selected ahead of its turn is skipped.\<close>

lemma limit_inv_skip:
  assumes "limit_inv lv mf ms S T done (file # rest) st" "file \<in> set (start_to_compact st)"
    "distinct (map pf_id S)"
  shows "limit_inv lv mf ms S T (done @ [file]) rest st"
proof -
  obtain ahead later where a: "file # rest = ahead @ later" "mset (start_to_compact st) = mset (done @ ahead)"
    "lv \<noteq> Final \<longrightarrow> ahead = []" using assms by (auto simp: limit_inv_def)
  have "file \<notin> set done" using assms by (force simp: limit_inv_def)
  then have "ahead \<noteq> []" using a(2) assms(2) by (metis append_Nil2 mset_eq_setD)
  then obtain ahead' where a': "ahead = file # ahead'" using a(1) by (cases ahead) auto
  have "lv = Final" using a' a(3) by auto
  moreover have "rest = ahead' @ later" "mset (start_to_compact st) = mset ((done @ [file]) @ ahead')"
    using a a' by simp_all
  ultimately show ?thesis using assms(1) unfolding limit_inv_def by auto
qed

text \<open>A file that is not selected yet: everything before it is, and nothing else.\<close>

lemma limit_inv_fresh:
  assumes "limit_inv lv mf ms S T done (file # rest) st" "file \<notin> set (start_to_compact st)"
  shows "mset (start_to_compact st) = mset done" "start_to_compact st = [] \<Longrightarrow> done = []"
proof -
  obtain ahead later where a: "file # rest = ahead @ later" "mset (start_to_compact st) = mset (done @ ahead)"
    using assms by (auto simp: limit_inv_def)
  have "file \<notin> set ahead" using a(2) assms(2) by (metis mset_eq_setD Un_iff set_append)
  then have "ahead = []" using a(1) by (cases ahead) auto
  then show "mset (start_to_compact st) = mset done" using a by simp
  then show "start_to_compact st = [] \<Longrightarrow> done = []" by simp
qed

text \<open>Among disjoint target level files, one that meets the hull of the selection is selected.\<close>

lemma hull_extend:
  assumes disj: "disjoint_times T" and wf: "\<forall>f \<in> set T \<union> set extra. wf_file f"
    and one: "\<forall>e \<in> set extra. \<forall>t \<in> set T. overlaps t e \<longrightarrow> t \<in> set ovl"
    and ovl: "\<forall>t \<in> set ovl. t \<in> set T \<and> overlaps_time_range t mn mx"
    and new: "\<forall>t \<in> set T. overlaps_time_range t mn mx \<longrightarrow> t \<in> set tc \<union> set ovl"
    and bounds: "\<forall>f \<in> set sc. mn \<le> min_time f \<and> max_time f \<le> mx" "mn \<le> mx"
    and ex: "\<forall>e \<in> set extra. \<exists>t \<in> set ovl. overlaps t e" "\<forall>e \<in> set extra. mx < min_time e"
    and t: "t \<in> set T" and a: "a \<in> set sc \<union> set extra" "min_time a \<le> max_time t"
    and b: "b \<in> set sc \<union> set extra" "min_time t \<le> max_time b"
  shows "t \<in> set tc \<union> set ovl"
proof (cases "min_time t \<le> mx")
  case True
  moreover have "mn \<le> max_time t" using a bounds ex(2) by fastforce
  ultimately show ?thesis using new t by (simp add: overlaps_time_range_def)
next
  case False
  then have b': "b \<in> set extra" using b bounds(1) by fastforce
  obtain t' where t': "t' \<in> set ovl" "overlaps t' b" using ex(1) b' by blast
  have "overlaps t b \<or> overlaps t t'"
  proof -
    have "min_time t' \<le> mx" using ovl t'(1) by (auto simp: overlaps_time_range_def)
    moreover have "min_time t \<le> max_time t" using wf t by (auto simp: wf_file_def)
    ultimately show ?thesis using False b(2) t'(2) by (auto simp: overlaps_def)
  qed
  then show ?thesis
  proof
    assume "overlaps t b"
    then show ?thesis using one b' t by blast
  next
    assume "overlaps t t'"
    then have "t = t'" using disjoint_timesD [OF disj t, of t'] ovl t'(1) by blast
    then show ?thesis using t'(1) by simp
  qed
qed

lemma closed_sel_extend:
  assumes cl: "closed_sel lv S T sc tc" and wf: "\<forall>f \<in> set S \<union> set T. wf_file f"
    and one: "\<forall>s \<in> set S. length (filter (\<lambda>t. overlaps t s) T) \<le> 1"
    and sub: "set extra \<subseteq> set S" "\<forall>t \<in> set ovl. t \<in> set T \<and> overlaps_time_range t mn mx"
    and new: "\<forall>t \<in> set T. overlaps_time_range t mn mx \<longrightarrow> t \<in> set tc \<union> set ovl"
    and bounds: "\<forall>f \<in> insert fl (set sc). mn \<le> min_time f \<and> max_time f \<le> mx" "mn \<le> mx"
    and att: "\<exists>a \<in> insert fl (set sc). min_time a = mn" "\<exists>b \<in> insert fl (set sc). max_time b = mx"
    and ex: "\<forall>e \<in> set extra. \<exists>t \<in> set ovl. overlaps t e" "\<forall>e \<in> set extra. mx < min_time e"
    and fin: "lv = Final \<longrightarrow> (\<forall>t \<in> set ovl. \<forall>s \<in> set S. overlaps s t \<longrightarrow> s \<in> set sc \<union> {fl} \<union> set extra)"
  shows "closed_sel lv S T (sc @ [fl] @ extra) (tc @ ovl)"
proof -
  have one': "t \<in> set ovl" if e: "e \<in> set extra" and t: "t \<in> set T" "overlaps t e" for t e
  proof -
    obtain t' where t': "t' \<in> set ovl" "overlaps t' e" using ex e by blast
    have "t = t'"
    proof (rule ccontr)
      assume "t \<noteq> t'"
      then have "card {t, t'} \<le> card (set (filter (\<lambda>t. overlaps t e) T))"
        using t t' sub by (intro card_mono) auto
      also have "\<dots> \<le> length (filter (\<lambda>t. overlaps t e) T)" by (rule card_length)
      also have "\<dots> \<le> 1" using one e sub by auto
      finally show False using \<open>t \<noteq> t'\<close> by simp
    qed
    with t' show ?thesis by simp
  qed
  have fl: "t \<in> set tc \<union> set ovl" if "overlaps t fl" "t \<in> set T" for t
    using that bounds(1) new by (fastforce simp: overlaps_def overlaps_time_range_def)
  have hull: "t \<in> set (tc @ ovl)" if "disjoint_times T" "t \<in> set T" "a \<in> set (sc @ [fl] @ extra)"
    "b \<in> set (sc @ [fl] @ extra)" "min_time a \<le> max_time t" "min_time t \<le> max_time b" for t a b
    using hull_extend [OF that(1), of extra ovl mn mx tc "fl # sc" t a b] that wf sub one' new bounds ex by auto
  have near: "\<exists>a \<in> set (sc @ [fl] @ extra). \<exists>b \<in> set (sc @ [fl] @ extra). min_time a \<le> max_time t \<and> min_time t \<le> max_time b"
    if "t \<in> set ovl" for t
  proof -
    obtain a b where "a \<in> insert fl (set sc)" "min_time a = mn" "b \<in> insert fl (set sc)" "max_time b = mx" using att by blast
    moreover have "mn \<le> max_time t" "min_time t \<le> mx" using sub(2) that by (auto simp: overlaps_time_range_def)
    ultimately show ?thesis by (intro bexI [of _ a] bexI [of _ b]) auto
  qed
  note c = closed_selD [OF cl]
  show ?thesis unfolding closed_sel_def
  proof (intro conjI)
    show "\<forall>s \<in> set (sc @ [fl] @ extra). \<forall>t \<in> set T. overlaps t s \<longrightarrow> t \<in> set (tc @ ovl)"
      using c(1) fl one' by auto
    show "lv = Final \<longrightarrow> (\<forall>t \<in> set (tc @ ovl). \<forall>s \<in> set S. overlaps s t \<longrightarrow> s \<in> set (sc @ [fl] @ extra))"
      using c(2) fin by auto
    have "\<exists>a \<in> set (sc @ [fl] @ extra). \<exists>b \<in> set (sc @ [fl] @ extra). min_time a \<le> max_time t \<and> min_time t \<le> max_time b"
      if "t \<in> set tc" for t
      using c(4) [OF that] by (metis Un_iff set_append)
    then show "\<forall>t \<in> set (tc @ ovl). \<exists>a \<in> set (sc @ [fl] @ extra). \<exists>b \<in> set (sc @ [fl] @ extra).
        min_time a \<le> max_time t \<and> min_time t \<le> max_time b"
      using near by (metis Un_iff set_append)
  qed (use hull in blast)
qed

text \<open>The loop takes the file together with its overlapped files.\<close>

lemma limit_inv_take:
  assumes ctx: "limit_ctx lv S T" and inv: "limit_inv lv mf ms S T done (file # rest) st"
    and fresh: "file \<notin> set (start_to_compact st)" and r: "time_range file (start_to_compact st) = (mn, mx)"
    and ovl: "ovl = filter (\<lambda>f. f \<notin> set (target_to_compact st)) (filter (\<lambda>f. overlaps_time_range f mn mx) T)"
    and ex: "extra_overlapped lv S (start_to_compact st) file ovl = Inr extra"
    and sz: "sz = file_size_bytes file + size_sum ovl + size_sum extra"
    and lim: "total_size st + sz \<le> as_i64 ms" "length (start_to_compact st) < mf"
  shows "limit_inv lv mf ms S T (done @ [file]) rest
    (st\<lparr>start_to_compact := start_to_compact st @ [file] @ extra,
        target_to_compact := target_to_compact st @ ovl, total_size := total_size st + sz\<rparr>)"
proof -
  have S: "S = done @ file # rest" using inv by (simp add: limit_inv_def)
  have sc: "mset (start_to_compact st) = mset done" by (rule limit_inv_fresh(1) [OF inv fresh])
  obtain rest' where e: "rest = extra @ rest'" "lv \<noteq> Final \<longrightarrow> extra = []"
    "\<forall>e \<in> set extra. \<exists>t \<in> set ovl. overlaps t e" "\<forall>e \<in> set extra. mx < min_time e"
    "lv = Final \<longrightarrow> (\<forall>t \<in> set ovl. \<forall>s \<in> set S. overlaps s t \<longrightarrow> s \<in> set done \<union> {file} \<union> set extra)"
    using ctx ex by (rule_tac extra_overlapped_ok [OF _ sc r, of lv rest T ovl]) (auto simp: S ovl)
  have bounds: "\<forall>f \<in> insert file (set (start_to_compact st)). mn \<le> min_time f \<and> max_time f \<le> mx"
    using time_range_bounds [OF r] by blast
  moreover have "wf_file file" using ctx by (auto simp: limit_ctx_def S)
  ultimately have "mn \<le> mx" by (auto simp: wf_file_def)
  moreover have "\<exists>a \<in> insert file (set (start_to_compact st)). min_time a = mn"
    "\<exists>b \<in> insert file (set (start_to_compact st)). max_time b = mx"
    using time_range_min_attained [OF r] time_range_max_attained [OF r] by auto
  ultimately have "closed_sel lv S T (start_to_compact st @ [file] @ extra) (target_to_compact st @ ovl)"
    using bounds inv ctx e mset_eq_setD [OF sc]
    by (intro closed_sel_extend [where mn = mn and mx = mx]) (auto simp: limit_inv_def limit_ctx_def S ovl)
  moreover have "distinct (target_to_compact st @ ovl)"
    using inv ctx by (auto simp: limit_inv_def limit_ctx_def ovl distinct_map)
  moreover have "mset (start_to_compact st @ [file] @ extra) = mset ((done @ [file]) @ extra)"
    using sc by simp
  ultimately show ?thesis
    using inv e(1,2) lim unfolding limit_inv_def by (auto simp: S ovl sz)
qed

lemma limit_stop_ok: "length ovl \<le> 1 \<Longrightarrow> \<exists>st'. limit_stop f ovl extra st = Inr st'"
  by (simp add: limit_stop_def Let_def)

lemma limit_loop_ok:
  assumes ctx: "limit_ctx lv S T" and inv: "limit_inv lv mf ms S T done rest st"
  shows "\<exists>st' rest'. limit_loop mf ms lv S T rest st = Inr (st', rest') \<and> limit_post lv mf ms S T st' rest'"
  using inv
proof (induction rest arbitrary: "done" st)
  case Nil
  then have "limit_inv lv mf ms S T S [] st" by (auto simp: limit_inv_def)
  then show ?case by (simp add: limit_post_def)
next
  case (Cons f1 rest)
  note inv = Cons.prems
  have S: "S = done @ f1 # rest" using inv by (simp add: limit_inv_def)
  have ids: "distinct (map pf_id S)" using ctx by (auto simp: limit_ctx_def)
  obtain ahead later where a: "f1 # rest = ahead @ later" "mset (start_to_compact st) = mset (done @ ahead)"
    using inv by (auto simp: limit_inv_def)
  then have "set (start_to_compact st) \<subseteq> set S" using mset_eq_setD [OF a(2)] by (auto simp: S)
  then have mem: "list_ex (\<lambda>x. pf_id x = pf_id f1) (start_to_compact st) \<longleftrightarrow> f1 \<in> set (start_to_compact st)"
    by (rule ids_member [OF ids]) (simp add: S)
  show ?case
  proof (cases "f1 \<in> set (start_to_compact st)")
    case True
    then show ?thesis using Cons.IH [OF limit_inv_skip [OF inv True ids]] mem by simp
  next
    case fresh: False
    obtain mn mx where r: "time_range f1 (start_to_compact st) = (mn, mx)" by fastforce
    define ovl where "ovl = filter (\<lambda>f. f \<notin> set (target_to_compact st)) (filter (\<lambda>f. overlaps_time_range f mn mx) T)"
    obtain extra rest' where ex: "extra_overlapped lv S (start_to_compact st) f1 ovl = Inr extra"
      using ctx by (rule_tac extra_overlapped_ok [OF _ limit_inv_fresh(1) [OF inv fresh] r, of lv rest T ovl])
        (auto simp: S ovl_def)
    define sz where "sz = file_size_bytes f1 + size_sum ovl + size_sum extra"
    show ?thesis
    proof (cases "total_size st + sz \<le> as_i64 ms \<and> length (start_to_compact st) < mf")
      case True
      then show ?thesis
        using Cons.IH [OF limit_inv_take [OF ctx inv fresh r ovl_def ex sz_def]] mem fresh r ex
        by (simp add: ovl_def sz_def Let_def)
    next
      case over: False
      then have step: "limit_loop mf ms lv S T (f1 # rest) st =
          bind_res (limit_stop f1 ovl extra st) (\<lambda>st'. Inr (st', rest))"
        using mem fresh r ex by (auto simp: ovl_def sz_def Let_def)
      show ?thesis
      proof (cases "start_to_compact st = []")
        case False
        then have "limit_post lv mf ms S T (st\<lparr>to_keep := [f1]\<rparr>) rest"
          using inv S limit_inv_fresh(1) [OF inv fresh] unfolding limit_post_def by blast
        moreover have "to_keep st = []" using inv by (simp add: limit_inv_def)
        ultimately show ?thesis using False step by (simp add: limit_stop_def)
      next
        case True
        then have st: "st = init_state" "done = []"
          using inv limit_inv_fresh(2) [OF inv fresh] by (simp_all add: limit_inv_def)
        have o: "ovl = filter (\<lambda>t. overlaps t f1) T"
          using r st by (simp add: ovl_def init_state_def time_range_def overlaps_def overlaps_time_range_def)
        have "length ovl \<le> 1" using ctx by (auto simp: o limit_ctx_def S)
        then obtain st' where "limit_stop f1 ovl extra st = Inr st'"
          using limit_stop_ok by blast
        then show ?thesis
          using step S over ex o unfolding limit_post_def st
          by (auto simp: st init_state_def sz_def)
      qed
    qed
  qed
qed

section \<open>What the function returns\<close>

definition kcs_files :: "keep_and_compact_split \<Rightarrow> files" where
  "kcs_files k = kcs_files_to_compact (kcs_split k) @ kcs_files_to_further_split (kcs_split k)
     @ map split_file (kcs_specific_splits (kcs_split k)) @ kcs_keep k"

text \<open>Split times that cut a file: inside its time range and strictly increasing.\<close>

definition cuts_file :: "file_to_split \<Rightarrow> bool" where
  "cuts_file s \<longleftrightarrow> split_times s \<noteq> [] \<and> sorted_wrt (<) (split_times s)
     \<and> (\<forall>t \<in> set (split_times s). min_time (split_file s) \<le> t \<and> t < max_time (split_file s))"

definition limit_result :: "compaction_level \<Rightarrow> nat \<Rightarrow> nat \<Rightarrow> files \<Rightarrow> files \<Rightarrow> compact_or_further_split \<Rightarrow> bool" where
  "limit_result lv mf ms S T c = (case c of
       CompactSet cs \<Rightarrow> \<exists>sc tc n. cs = sc @ tc \<and> sc \<noteq> [] \<and> mset sc = mset (take n S) \<and> set tc \<subseteq> set T
         \<and> size_sum cs \<le> as_i64 ms \<and> (lv \<noteq> Final \<longrightarrow> length sc \<le> mf) \<and> closed_sel lv S T sc tc
     | FurtherSplit fs \<Rightarrow> \<exists>f ovl extra rest. fs = f # ovl \<and> S = f # rest \<and> ovl = filter (\<lambda>t. overlaps t f) T
         \<and> length ovl \<le> 1 \<and> extra_overlapped lv S [] f ovl = Inr extra
         \<and> (extra \<noteq> [] \<longrightarrow> specific_splits_of extra ovl = [])
         \<and> \<not> (size_sum fs + size_sum extra \<le> as_i64 ms \<and> 0 < mf)
     | SpecificSplit ss \<Rightarrow> (ss = [] \<longrightarrow> S = []) \<and> (\<forall>s \<in> set ss. split_file s \<in> set T \<and> cuts_file s))"

text \<open>The files that are still there after the loop, in terms of what has been taken out.\<close>

lemma limit_finish_ok:
  assumes keep: "keep = to_keep st @ filter (\<lambda>f. \<not> list_ex (\<lambda>x. pf_id (split_file x) = pf_id f) (specific st))
       (filter (\<lambda>f. f \<notin> set (to_further_split st)) (filter (\<lambda>f. f \<notin> set (target_to_compact st)) T)) @ rest"
    and c: "c = (if start_to_compact st @ target_to_compact st \<noteq> [] then CompactSet (start_to_compact st @ target_to_compact st)
                else if to_further_split st \<noteq> [] then FurtherSplit (to_further_split st)
                else SpecificSplit (specific st))"
    and two: "(start_to_compact st @ target_to_compact st = [] \<and> to_further_split st = [])
       \<or> (start_to_compact st @ target_to_compact st = [] \<and> specific st = [])
       \<or> (to_further_split st = [] \<and> specific st = [])"
    and ms: "mset (start_to_compact st) + mset (target_to_compact st) + mset (to_further_split st)
       + mset (map split_file (specific st)) + mset keep = mset fs"
  shows "limit_finish (length fs) T st rest = Inr \<lparr>kcs_split = c, kcs_keep = keep\<rparr>
    \<and> mset (kcs_files \<lparr>kcs_split = c, kcs_keep = keep\<rparr>) = mset fs"
proof
  have "length (start_to_compact st @ target_to_compact st) + length (to_further_split st) + length (specific st)
      + length keep = length fs"
    using arg_cong [OF ms, of size] by simp
  moreover have "(2::nat) \<le> of_bool (start_to_compact st @ target_to_compact st = []) + of_bool (to_further_split st = [])
      + of_bool (specific st = [])" using two by auto
  ultimately show "limit_finish (length fs) T st rest = Inr \<lparr>kcs_split = c, kcs_keep = keep\<rparr>"
    unfolding limit_finish_def Let_def keep [symmetric] c [symmetric] by simp
  show "mset (kcs_files \<lparr>kcs_split = c, kcs_keep = keep\<rparr>) = mset fs"
    using two ms by (auto simp: kcs_files_def c)
qed

lemma limit_finish_compact:
  assumes ctx: "limit_ctx lv S T" and fs: "mset fs = mset S + mset T"
    and inv: "limit_inv lv mf ms S T done rest' st0" and ne: "start_to_compact st0 \<noteq> []"
    and sc: "mset (start_to_compact st0) = mset done" and S: "S = done @ kp @ rest"
    and st: "st = st0\<lparr>to_keep := kp\<rparr>"
  shows "\<exists>k. limit_finish (length fs) T st rest = Inr k \<and> mset (kcs_files k) = mset fs
    \<and> limit_result lv mf ms S T (kcs_split k)"
proof -
  have i: "to_further_split st0 = []" "specific st0 = []" "distinct (target_to_compact st0)"
    "set (target_to_compact st0) \<subseteq> set T" "total_size st0 = size_sum (start_to_compact st0 @ target_to_compact st0)"
    "total_size st0 \<le> as_i64 ms" "lv \<noteq> Final \<longrightarrow> length (start_to_compact st0) \<le> mf"
    "closed_sel lv S T (start_to_compact st0) (target_to_compact st0)"
    using inv ne by (auto simp: limit_inv_def)
  define keep where "keep = kp @ filter (\<lambda>f. f \<notin> set (target_to_compact st0)) T @ rest"
  have "distinct T" using ctx by (simp add: limit_ctx_def distinct_map)
  then have "mset (target_to_compact st0) + mset (filter (\<lambda>f. f \<notin> set (target_to_compact st0)) T) = mset T"
    using i by (intro mset_remove_members)
  then have "mset (start_to_compact st0) + mset (target_to_compact st0) + mset keep = mset fs"
    unfolding fs sc S keep_def by (simp add: ac_simps)
  then have "limit_finish (length fs) T st rest = Inr \<lparr>kcs_split = CompactSet (start_to_compact st0 @ target_to_compact st0), kcs_keep = keep\<rparr>
      \<and> mset (kcs_files \<lparr>kcs_split = CompactSet (start_to_compact st0 @ target_to_compact st0), kcs_keep = keep\<rparr>) = mset fs"
    using i ne by (intro limit_finish_ok) (simp_all add: st keep_def)
  moreover have "limit_result lv mf ms S T (CompactSet (start_to_compact st0 @ target_to_compact st0))"
  proof -
    have "mset (start_to_compact st0) = mset (take (length done) S)" by (simp add: sc S)
    then show ?thesis unfolding limit_result_def using i ne by auto
  qed
  ultimately show ?thesis by auto
qed

lemma specific_splits_cut:
  assumes "s \<in> set (specific_splits_of extra ovl)" "sorted_wrt (<) (map min_time extra)"
  shows "split_file s \<in> set ovl \<and> cuts_file s"
  using assms by (auto simp: specific_splits_of_def cuts_file_def sorted_wrt_filter)

lemma specific_splits_files: "map split_file (specific_splits_of extra ovl) =
    filter (\<lambda>f. \<exists>e \<in> set extra. min_time f \<le> min_time e \<and> min_time e < max_time f) ovl"
  by (induction ovl) (auto simp: specific_splits_of_def filter_empty_conv)

lemma limit_ctx_strict:
  assumes "limit_ctx Final S T"
  shows "sorted_wrt (<) (map min_time S)"
proof -
  have "sorted (map min_time S)" using assms by (simp add: limit_ctx_def)
  moreover have "distinct (map min_time S)"
  proof (rule distinct_map [THEN iffD2], intro conjI inj_onI)
    show "distinct S" using assms by (simp add: limit_ctx_def distinct_map)
    fix a b assume "a \<in> set S" "b \<in> set S" "min_time a = min_time b"
    moreover from this have "min_time a \<le> max_time a" "min_time b \<le> max_time b"
      using limit_ctx_wf [OF assms, of a] limit_ctx_wf [OF assms, of b] by blast+
    moreover have "disjoint_times S" using assms by (simp add: limit_ctx_def)
    ultimately show "a = b" using disjoint_timesD [of S a b] by (auto simp: overlaps_def)
  qed
  ultimately show ?thesis by (simp add: strict_sorted_iff)
qed

lemma extra_overlapped_sub:
  assumes "extra_overlapped lv S sc f ovl = Inr extra"
  shows "extra = [] \<or> lv = Final \<and> (\<exists>P. extra = filter P S)"
proof (cases "ovl \<noteq> [] \<and> lv = Final")
  case True
  then show ?thesis using assms by (fastforce simp: extra_overlapped_def)
qed (use assms in \<open>auto simp: extra_overlapped_def\<close>)

lemma limit_finish_first:
  assumes ctx: "limit_ctx lv S T" and fs: "mset fs = mset S + mset T"
    and S: "S = f # rest" and ovl: "ovl = filter (\<lambda>t. overlaps t f) T"
    and ex: "extra_overlapped lv S [] f ovl = Inr extra"
    and over: "\<not> (size_sum (f # ovl) + size_sum extra \<le> as_i64 ms \<and> 0 < mf)"
    and stop: "limit_stop f ovl extra init_state = Inr st"
  shows "\<exists>k. limit_finish (length fs) T st rest = Inr k \<and> mset (kcs_files k) = mset fs
    \<and> limit_result lv mf ms S T (kcs_split k)"
proof -
  define sp where "sp = (if extra \<noteq> [] then specific_splits_of extra ovl else [])"
  have dT: "distinct T" "inj_on pf_id (set T)" "f \<notin> set T"
    using ctx by (auto simp: limit_ctx_def distinct_map S)
  show ?thesis
  proof (cases "sp = []")
    case True
    then have st: "st = init_state\<lparr>to_further_split := f # ovl\<rparr>" "length ovl \<le> 1"
      using stop by (auto simp: limit_stop_def Let_def sp_def init_state_def split: if_splits)
    define keep where "keep = filter (\<lambda>t. t \<notin> set (f # ovl)) T @ rest"
    have "filter (\<lambda>t. t \<notin> set (f # ovl)) T = filter (\<lambda>t. t \<notin> set ovl) T"
      using dT by (auto intro!: filter_cong)
    moreover have "mset ovl + mset (filter (\<lambda>t. t \<notin> set ovl) T) = mset T"
      using dT by (intro mset_remove_members) (auto simp: ovl)
    ultimately have "mset (f # ovl) + mset keep = mset fs"
      unfolding fs S keep_def by (simp add: ac_simps)
    then have "limit_finish (length fs) T st rest = Inr \<lparr>kcs_split = FurtherSplit (f # ovl), kcs_keep = keep\<rparr>
        \<and> mset (kcs_files \<lparr>kcs_split = FurtherSplit (f # ovl), kcs_keep = keep\<rparr>) = mset fs"
      by (intro limit_finish_ok) (simp_all add: st init_state_def keep_def)
    moreover have "limit_result lv mf ms S T (FurtherSplit (f # ovl))"
      using True over ex S ovl st(2) unfolding limit_result_def sp_def by (auto split: if_splits)
    ultimately show ?thesis by auto
  next
    case False
    then have st: "st = init_state\<lparr>specific := sp, to_keep := [f]\<rparr>"
      using stop by (auto simp: limit_stop_def Let_def sp_def init_state_def split: if_splits)
    have fin: "lv = Final" and sub: "\<exists>P. extra = filter P S"
      using False extra_overlapped_sub [OF ex] by (auto simp: sp_def)
    then have "sorted_wrt (<) (map min_time extra)"
      using limit_ctx_strict [of S T] ctx by (auto simp: sorted_wrt_map sorted_wrt_filter)
    then have cut: "\<forall>s \<in> set sp. split_file s \<in> set T \<and> cuts_file s"
      using specific_splits_cut [of _ extra ovl] by (fastforce simp: sp_def ovl)
    define keep where "keep = f # filter (\<lambda>t. t \<notin> set (map split_file sp)) T @ rest"
    have rem: "filter (\<lambda>t. \<not> list_ex (\<lambda>x. pf_id (split_file x) = pf_id t) sp) T
        = filter (\<lambda>t. t \<notin> set (map split_file sp)) T"
      using dT cut by (intro filter_cong) (auto simp: list_ex_iff dest: inj_onD)
    have "distinct (map split_file sp)" using dT by (auto simp: sp_def specific_splits_files ovl)
    then have "mset (map split_file sp) + mset (filter (\<lambda>t. t \<notin> set (map split_file sp)) T) = mset T"
      using dT cut by (intro mset_remove_members) auto
    then have "mset (map split_file sp) + mset keep = mset fs"
      unfolding fs S keep_def by (simp add: ac_simps)
    then have "limit_finish (length fs) T st rest = Inr \<lparr>kcs_split = SpecificSplit sp, kcs_keep = keep\<rparr>
        \<and> mset (kcs_files \<lparr>kcs_split = SpecificSplit sp, kcs_keep = keep\<rparr>) = mset fs"
      by (intro limit_finish_ok) (simp_all add: st init_state_def keep_def rem)
    moreover have "limit_result lv mf ms S T (SpecificSplit sp)"
      using cut False unfolding limit_result_def by auto
    ultimately show ?thesis by auto
  qed
qed

section \<open>Properties\<close>

text \<open>
  What the caller guarantees: ids identify files, the files are of the two levels, no start level file
  overlaps two target level files, and level 1 files do not overlap each other.
\<close>

definition start_files :: "compaction_level \<Rightarrow> files \<Rightarrow> files" where
  "start_files lv fs = filter (\<lambda>f. compaction_level f \<le> prev_level lv) fs"

definition target_files :: "compaction_level \<Rightarrow> files \<Rightarrow> files" where
  "target_files lv fs = filter (\<lambda>f. \<not> compaction_level f \<le> prev_level lv) fs"

definition limit_pre :: "compaction_level \<Rightarrow> files \<Rightarrow> bool" where
  "limit_pre lv fs \<longleftrightarrow>
     list_all (\<lambda>f. compaction_level f = lv \<or> compaction_level f = prev_level lv) fs
     \<and> distinct (map pf_id fs) \<and> list_all wf_file fs
     \<and> list_all (\<lambda>s. length (filter (\<lambda>t. overlaps t s) (target_files lv fs)) \<le> 1) (start_files lv fs)
     \<and> (lv = Final \<longrightarrow> disjoint_times (start_files lv fs))"

lemma start_target_mset: "mset (start_files lv fs) + mset (target_files lv fs) = mset fs"
  by (simp only: start_files_def target_files_def mset_filter_not)

lemma limit_pre_ctx:
  assumes "limit_pre lv fs"
  shows "limit_ctx lv (order_files (start_files lv fs) (prev_level lv)) (target_files lv fs)"
proof -
  let ?S = "order_files (start_files lv fs) (prev_level lv)" and ?T = "target_files lv fs"
  have m: "mset (?S @ ?T) = mset fs" using start_target_mset by simp
  have "mset (map pf_id (?S @ ?T)) = mset (map pf_id fs)" by (simp only: mset_map m)
  then have "distinct (map pf_id (?S @ ?T))"
    using assms mset_eq_imp_distinct_iff by (auto simp only: limit_pre_def)
  moreover have "\<forall>f \<in> set ?S \<union> set ?T. wf_file f"
    using assms by (auto simp: limit_pre_def list_all_iff start_files_def target_files_def)
  moreover have "sorted (map min_time ?S) \<and> disjoint_times ?S" if "lv = Final"
    using assms that disjoint_times_mset [of ?S "start_files lv fs"]
    by (auto simp: limit_pre_def order_files_def)
  ultimately show ?thesis using assms by (simp add: limit_ctx_def limit_pre_def list_all_iff)
qed

lemma order_files_Nil [simp]: "order_files [] l = []"
  by (simp add: order_files_def)

lemma limit_files_to_compact_result:
  assumes "limit_pre lv fs"
  shows "\<exists>k. limit_files_to_compact mf ms fs lv = Inr k \<and> mset (kcs_files k) = mset fs
    \<and> limit_result lv mf ms (order_files (start_files lv fs) (prev_level lv)) (target_files lv fs) (kcs_split k)"
proof -
  let ?S = "order_files (start_files lv fs) (prev_level lv)" and ?T = "target_files lv fs"
  note ctx = limit_pre_ctx [OF assms]
  have fs: "mset fs = mset ?S + mset ?T" by (simp add: start_target_mset)
  obtain st rest where l: "limit_loop mf ms lv ?S ?T ?S init_state = Inr (st, rest)" "limit_post lv mf ms ?S ?T st rest"
    using limit_loop_ok [OF ctx limit_inv_init] by blast
  have "\<exists>k. limit_finish (length fs) ?T st rest = Inr k \<and> mset (kcs_files k) = mset fs
      \<and> limit_result lv mf ms ?S ?T (kcs_split k)"
    using l(2) unfolding limit_post_def
  proof (elim disjE exE conjE)
    assume a: "rest = []" "limit_inv lv mf ms ?S ?T ?S [] st"
    show ?thesis
    proof (cases "start_to_compact st = []")
      case True
      then have "st = init_state" "?S = []" using a by (auto simp: limit_inv_def)
      then have "limit_finish (length fs) ?T st rest = Inr \<lparr>kcs_split = SpecificSplit [], kcs_keep = ?T\<rparr>
          \<and> mset (kcs_files \<lparr>kcs_split = SpecificSplit [], kcs_keep = ?T\<rparr>) = mset fs"
        using fs a(1) by (intro limit_finish_ok) (simp_all add: init_state_def)
      then show ?thesis using \<open>?S = []\<close> by (auto simp: limit_result_def)
    next
      case False
      have "to_keep st = []" "mset (start_to_compact st) = mset ?S" using a by (auto simp: limit_inv_def)
      then show ?thesis using a False
        by (intro limit_finish_compact [OF ctx fs a(2) False, of "[]"]) auto
    qed
  next
    fix "done" f st0
    assume "?S = done @ f # rest" "limit_inv lv mf ms ?S ?T done (f # rest) st0" "start_to_compact st0 \<noteq> []"
      "mset (start_to_compact st0) = mset done" "st = st0\<lparr>to_keep := [f]\<rparr>"
    then show ?thesis by (intro limit_finish_compact [OF ctx fs]) auto
  qed (rule limit_finish_first [OF ctx fs])
  moreover have "target_level_split fs (prev_level lv) = Inr (start_files lv fs, ?T)"
    by (simp add: target_level_split_def o_def start_files_def target_files_def)
  ultimately show ?thesis
    using assms l(1) by (simp add: limit_files_to_compact_def limit_pre_def)
qed

text \<open>
  C8. The selection never fails. For well-formed files with distinct ids of the target level and the one
  below it, where each start level file overlaps at most one target level file and, for the final
  level, start level files do not overlap each other, none of the assertions of
  \<open>limit_files_to_compact\<close> fails (in particular all files are accounted for at the end) and every file
  of the input is found exactly once in the result. A set to compact stays within the byte limit, at
  every target level. The file limit bounds its level 0 files when level 0 is compacted to level 1; the
  target level files they overlap are not counted, and for the final level the number of files is not
  bounded, since files that overlap the same target level file are taken together.
\<close>

theorem limit_files_to_compact_total:
  assumes "limit_pre lv fs"
  shows "\<exists>k. limit_files_to_compact mf ms fs lv = Inr k \<and> mset (kcs_files k) = mset fs
    \<and> (kcs_files_to_compact (kcs_split k) \<noteq> [] \<longrightarrow>
         size_sum (kcs_files_to_compact (kcs_split k)) \<le> as_i64 ms
         \<and> (lv = FileNonOverlapped \<longrightarrow> length (start_files lv (kcs_files_to_compact (kcs_split k))) \<le> mf))"
proof -
  obtain k where k: "limit_files_to_compact mf ms fs lv = Inr k" "mset (kcs_files k) = mset fs"
    "limit_result lv mf ms (order_files (start_files lv fs) (prev_level lv)) (target_files lv fs) (kcs_split k)"
    using limit_files_to_compact_result [OF assms] by blast
  have "size_sum cs \<le> as_i64 ms \<and> (lv = FileNonOverlapped \<longrightarrow> length (start_files lv cs) \<le> mf)"
    if cs: "kcs_split k = CompactSet cs" for cs
  proof -
    obtain sc tc where c: "cs = sc @ tc" "set tc \<subseteq> set (target_files lv fs)" "size_sum cs \<le> as_i64 ms"
      "lv \<noteq> Final \<longrightarrow> length sc \<le> mf" 
      using k(3) [unfolded cs limit_result_def compact_or_further_split.case] by blast
    have "start_files lv tc = []" using c(2) by (auto simp: start_files_def target_files_def filter_empty_conv)
    then have "length (start_files lv cs) \<le> length sc" by (simp add: c(1) start_files_def)
    with c show ?thesis by auto
  qed
  with k show ?thesis by (cases "kcs_split k") auto
qed

theorem limit_files_to_compact_total_witness:
  "\<exists>k. limit_files_to_compact 1 100 [file_of 1 Initial 5 9 10 2, file_of 2 FileNonOverlapped 0 6 20 1,
       file_of 3 Initial 6 8 30 3] FileNonOverlapped = Inr k \<and> length (kcs_files k) = 3
     \<and> map pf_id (kcs_files_to_compact (kcs_split k)) = [1, 2]"
proof -
  let ?fs = "[file_of 1 Initial 5 9 10 2, file_of 2 FileNonOverlapped 0 6 20 1, file_of 3 Initial 6 8 30 3]"
  have pre: "limit_pre FileNonOverlapped ?fs" by code_simp
  obtain k where k: "limit_files_to_compact 1 100 ?fs FileNonOverlapped = Inr k" "mset (kcs_files k) = mset ?fs"
    using limit_files_to_compact_total [OF pre, of 1 100] by blast
  have "map_sum id (\<lambda>k. map pf_id (kcs_files_to_compact (kcs_split k))) (limit_files_to_compact 1 100 ?fs FileNonOverlapped)
      = Inr [1, 2]" by code_simp
  moreover have "length (kcs_files k) = 3" using arg_cong [OF k(2), of size] by simp
  ultimately show ?thesis using k(1) by simp
qed

text \<open>A disjoint target level file that is not selected lies outside the hull of the selection.\<close>

lemma closed_sel_hull:
  assumes cl: "closed_sel lv S T sc tc" and disj: "disjoint_times T" and tc: "set tc \<subseteq> set T"
    and t: "t \<in> set T" "t \<notin> set tc" "wf_file t" and r: "try_new (sc @ tc) = Some r"
  shows "\<not> contains r t"
proof
  assume c: "contains r t"
  obtain p q where pq: "p \<in> set (sc @ tc)" "min_time p = ftr_min r" "q \<in> set (sc @ tc)" "max_time q = ftr_max r"
    using try_new_attained [OF r] by metis
  have b: "min_time p \<le> max_time t" "min_time t \<le> max_time q" using c pq by (auto simp: contains_def)
  have near: "\<exists>a \<in> set sc. \<exists>b \<in> set sc. min_time a \<le> max_time u \<and> min_time u \<le> max_time b" if "u \<in> set tc" for u
    using closed_selD(4) [OF cl that] .
  have apart: "\<not> overlaps u t" if "u \<in> set tc" for u
    using disjoint_timesD [OF disj, of u t] that tc t by blast
  obtain a where a: "a \<in> set sc" "min_time a \<le> max_time t"
  proof (cases "p \<in> set sc")
    case False
    then have p: "p \<in> set tc" using pq(1) by auto
    then obtain a where "a \<in> set sc" "min_time a \<le> max_time p" using near by blast
    moreover have "max_time p < min_time t" using apart [OF p] b(1) by (auto simp: overlaps_def)
    moreover have "min_time t \<le> max_time t" using t(3) by (simp add: wf_file_def)
    ultimately show thesis using that by simp
  qed (use that b in blast)
  obtain d where d: "d \<in> set sc" "min_time t \<le> max_time d"
  proof (cases "q \<in> set sc")
    case False
    then have q: "q \<in> set tc" using pq(3) by auto
    then obtain d where "d \<in> set sc" "min_time q \<le> max_time d" using near by blast
    moreover have "max_time t < min_time q" using apart [OF q] b(2) by (auto simp: overlaps_def)
    moreover have "min_time t \<le> max_time t" using t(3) by (simp add: wf_file_def)
    ultimately show thesis using that by simp
  qed (use that b in blast)
  show False using closed_selD(3) [OF cl disj t(1) a(1) d(1) a(2) d(2)] t(2) by simp
qed

lemma limit_closed:
  assumes "limit_pre lv fs" and "limit_files_to_compact mf ms fs lv = Inr k" and "kcs_split k = CompactSet cs"
  shows "(\<forall>s \<in> set (start_files lv cs). \<forall>t \<in> set (target_files lv fs). overlaps t s \<longrightarrow> t \<in> set cs)
    \<and> (\<exists>n. set (start_files lv cs) = set (take n (order_files (start_files lv fs) (prev_level lv))))
    \<and> (lv = Final \<longrightarrow> (\<forall>t \<in> set (target_files lv cs). \<forall>s \<in> set (start_files lv (kcs_keep k)). \<not> overlaps s t))
    \<and> (disjoint_times (target_files lv fs) \<longrightarrow>
        (\<forall>t \<in> set (target_files lv (kcs_keep k)). \<forall>r. try_new cs = Some r \<longrightarrow> \<not> contains r t))"
proof (intro conjI)
  let ?S = "order_files (start_files lv fs) (prev_level lv)" and ?T = "target_files lv fs"
  have r: "limit_result lv mf ms ?S ?T (CompactSet cs)" and m: "mset (kcs_files k) = mset fs"
    using limit_files_to_compact_result [OF assms(1), of mf ms] assms(2,3) by auto
  then obtain sc tc n where c: "cs = sc @ tc" "mset sc = mset (take n ?S)" "set tc \<subseteq> set ?T" "closed_sel lv ?S ?T sc tc"
    unfolding limit_result_def compact_or_further_split.case by blast
  note cl = closed_selD [OF c(4)]
  have sc: "set sc = set (take n ?S)" using c(2) by (rule mset_eq_setD)
  then have sub: "set sc \<subseteq> set (start_files lv fs)" by (metis set_take_subset set_order_files)
  have st: "set (start_files lv cs) = set sc" "set (target_files lv cs) = set tc"
    using sub c(3) by (auto simp: c(1) start_files_def target_files_def)
  have "distinct fs" using assms(1) by (simp add: limit_pre_def distinct_map)
  then have "distinct (kcs_files k)" using m by (metis mset_eq_imp_distinct_iff)
  then have d: "set cs \<inter> set (kcs_keep k) = {}" using assms(3) by (auto simp: kcs_files_def)
  have "set (kcs_keep k) \<subseteq> set fs" using mset_eq_setD [OF m] by (auto simp: kcs_files_def)
  then have k: "set (start_files lv (kcs_keep k)) \<subseteq> set (start_files lv fs)" "set (target_files lv (kcs_keep k)) \<subseteq> set ?T"
    "set (target_files lv (kcs_keep k)) \<subseteq> set fs" by (auto simp: start_files_def target_files_def)
  have dk: "s \<notin> set sc" if "s \<in> set (start_files lv (kcs_keep k))" for s
    using that c(1) d by (auto simp: start_files_def)
  have dt: "t \<notin> set tc" if "t \<in> set (target_files lv (kcs_keep k))" for t
    using that c(1) d by (auto simp: target_files_def)
  show "\<forall>s \<in> set (start_files lv cs). \<forall>t \<in> set ?T. overlaps t s \<longrightarrow> t \<in> set cs"
    using cl(1) unfolding st by (simp add: c(1))
  show "\<exists>n. set (start_files lv cs) = set (take n ?S)" using sc st by blast
  show "lv = Final \<longrightarrow> (\<forall>t \<in> set (target_files lv cs). \<forall>s \<in> set (start_files lv (kcs_keep k)). \<not> overlaps s t)"
    using cl(2) k(1) dk unfolding st set_order_files by blast
  have wf: "\<forall>f \<in> set fs. wf_file f" using assms(1) by (simp add: limit_pre_def list_all_iff)
  show "disjoint_times ?T \<longrightarrow> (\<forall>t \<in> set (target_files lv (kcs_keep k)). \<forall>r. try_new cs = Some r \<longrightarrow> \<not> contains r t)"
  proof (intro impI ballI allI)
    fix t r' assume a: "disjoint_times ?T" "t \<in> set (target_files lv (kcs_keep k))" "try_new cs = Some r'"
    show "\<not> contains r' t"
      by (rule closed_sel_hull [OF c(4) a(1) c(3) _ dt [OF a(2)] _ a(3) [unfolded c(1)]]) (use a(2) k wf in auto)
  qed
qed

text \<open>
  C9. The selected set can be compacted without breaking deduplication. It contains every target level
  file that a selected start level file overlaps; the selected start level files come first in the
  deduplication order (no file that is kept precedes one that is compacted); for the final level no
  start level file that is kept overlaps a selected target level file; and if the target level files
  are disjoint, those that are kept lie outside the time range of the whole selection, so that they
  stay disjoint from its output.
\<close>

theorem limit_files_to_compact_closed:
  assumes "limit_pre lv fs" and "limit_files_to_compact mf ms fs lv = Inr k" and "kcs_split k = CompactSet cs"
  shows "(\<forall>s \<in> set (start_files lv cs). \<forall>t \<in> set (target_files lv fs). overlaps t s \<longrightarrow> t \<in> set cs)
    \<and> (\<exists>n. set (start_files lv cs) = set (take n (order_files (start_files lv fs) (prev_level lv))))
    \<and> (lv = Final \<longrightarrow> (\<forall>t \<in> set (target_files lv cs). \<forall>s \<in> set (start_files lv (kcs_keep k)). \<not> overlaps s t))
    \<and> (disjoint_times (target_files lv fs) \<longrightarrow>
        (\<forall>t \<in> set (target_files lv (kcs_keep k)). \<forall>r. try_new cs = Some r \<longrightarrow> \<not> contains r t))"
  using limit_closed [OF assms] .

theorem limit_files_to_compact_closed_witness:
  "\<exists>k cs. limit_files_to_compact 5 60 [file_of 1 FileNonOverlapped 5 9 10 2, file_of 2 Final 0 12 20 1,
       file_of 3 FileNonOverlapped 11 14 10 3, file_of 4 FileNonOverlapped 20 30 40 3] Final = Inr k
     \<and> kcs_split k = CompactSet cs
     \<and> (\<forall>s \<in> set (start_files Final cs). overlaps (file_of 2 Final 0 12 20 1) s \<longrightarrow> file_of 2 Final 0 12 20 1 \<in> set cs)"
proof -
  let ?fs = "[file_of 1 FileNonOverlapped 5 9 10 2, file_of 2 Final 0 12 20 1,
     file_of 3 FileNonOverlapped 11 14 10 3, file_of 4 FileNonOverlapped 20 30 40 3]"
  let ?k = "\<lparr>kcs_split = CompactSet [file_of 1 FileNonOverlapped 5 9 10 2, file_of 3 FileNonOverlapped 11 14 10 3,
      file_of 2 Final 0 12 20 1], kcs_keep = [file_of 4 FileNonOverlapped 20 30 40 3]\<rparr>"
  have pre: "limit_pre Final ?fs" by code_simp
  have r: "limit_files_to_compact 5 60 ?fs Final = Inr ?k" by code_simp
  have t: "file_of 2 Final 0 12 20 1 \<in> set (target_files Final ?fs)" by code_simp
  show ?thesis using limit_files_to_compact_closed [OF pre r keep_and_compact_split.select_convs(1)] r t
    by (intro exI [of _ ?k]) auto
qed

end
