(* ===== verification/Start_Level_Split.thy ===== *)
theory Start_Level_Split
  imports Files_To_Compact
begin

text \<open>
  Models \<open>components/split_or_compact/start_level_files_to_split.rs\<close>: aligning start level files with
  the target level files they overlap, dividing files into chains of overlapping files and merging
  chains again, and choosing split times for a time range.
\<close>

section \<open>The model\<close>

text \<open>\<open>dedup\<close> of \<open>itertools\<close> drops consecutive duplicates.\<close>

definition align_times :: "parquet_file \<Rightarrow> files \<Rightarrow> int list" where
  "align_times file ovl = remdups_adj (map max_time (filter (\<lambda>f. max_time f < max_time file) ovl))"

fun identify_loop :: "files \<Rightarrow> files \<Rightarrow> file_to_split list \<Rightarrow> files \<Rightarrow> file_to_split list \<times> files" where
  "identify_loop targets [] to_split not_split = (to_split, not_split)"
| "identify_loop targets (file # fs) to_split not_split =
     (let ovl = filter (\<lambda>f. overlaps file f) targets
      in if length ovl < 2 \<or> min_time file = max_time file
         then identify_loop targets fs to_split (not_split @ [file])
         else identify_loop targets fs
                (to_split @ [\<lparr>split_file = file, split_times = align_times file ovl\<rparr>]) not_split)"

definition identify_start_level_files_to_split ::
    "files \<Rightarrow> compaction_level \<Rightarrow> (file_to_split list \<times> files) res" where
  "identify_start_level_files_to_split fs lv =
     (let start_level = prev_level lv
      in assert_res (list_all (\<lambda>f. compaction_level f = lv \<or> compaction_level f = start_level) fs)
           ''all files to compact must be in start or target level''
        (bind_res (target_level_split fs start_level) (\<lambda>(starts, targets).
           let starts = sort_key max_l0_created_at starts;
               targets = sort_key min_time targets;
               (to_split, not_split) = identify_loop targets starts [] [];
               not_split = not_split @ targets
           in assert_res (length to_split + length not_split = length fs)
                ''all files should be accounted after file divisions''
                (Inr (to_split, not_split)))))"

fun chains_loop :: "files \<Rightarrow> files list \<Rightarrow> files \<Rightarrow> timestamp \<Rightarrow> files list" where
  "chains_loop [] css chain mx = css @ [chain]"
| "chains_loop (f # fs) css chain mx =
     (if chain = [] then chains_loop fs css [f] (max_time f)
      else if min_time f \<le> mx then
        chains_loop fs css (chain @ [f]) (if max_time f > mx then max_time f else mx)
      else chains_loop fs (css @ [chain]) [f] (max_time f))"

definition split_into_chains :: "files \<Rightarrow> files list" where
  "split_into_chains fs = chains_loop (sort_key min_time fs) [] [] 0"

text \<open>
  \<open>sort_by_key\<close> with a key that panics on an empty chain: with fewer than two elements the key is not
  evaluated at all, otherwise it is evaluated on every element.
\<close>

definition sort_chains :: "(files \<Rightarrow> 'k::linorder) \<Rightarrow> string \<Rightarrow> files list \<Rightarrow> files list res" where
  "sort_chains key msg css =
     (if length css < 2 then Inr css
      else assert_res (list_all (\<lambda>c. c \<noteq> []) css) msg (Inr (sort_key key css)))"

definition get_max_l0_created_at :: "files \<Rightarrow> timestamp" where
  "get_max_l0_created_at fs = (case max_opt (map max_l0_created_at fs) of Some t \<Rightarrow> t | None \<Rightarrow> 0)"

record merge_state =
  merged :: "files list"
  prior_bytes :: nat
  prior_min :: timestamp
  prior_max :: timestamp

text \<open>Does the start of a chain outside both ranges lie in the combined range?\<close>

definition chain_in_gap :: "timestamp \<Rightarrow> timestamp \<Rightarrow> timestamp \<Rightarrow> timestamp \<Rightarrow> timestamp \<Rightarrow> bool" where
  "chain_in_gap pmin pmax tmin tmax t \<longleftrightarrow>
     (t < pmin \<or> t > pmax) \<and> (t < tmin \<or> t > tmax) \<and> t \<ge> min pmin tmin \<and> t \<le> max pmax tmax"

definition count_matches :: "files \<Rightarrow> files \<Rightarrow> nat" where
  "count_matches chain prior =
     length (filter (\<lambda>f. list_ex (\<lambda>f2. max_l0_created_at f = max_l0_created_at f2) prior) chain)"

text \<open>
  One iteration of \<open>merge_small_l0_chains\<close>. The chain is not empty, so its minimum and maximum exist;
  the first element of every other chain is read only when there is a prior chain. The index
  \<open>prior_chain_idx\<close> is that of the last merged chain, since it grows with every push.
\<close>

definition merge_small_step :: "nat \<Rightarrow> files list \<Rightarrow> files \<Rightarrow> merge_state \<Rightarrow> merge_state res" where
  "merge_small_step max_size css chain st =
     (case (min_opt (map min_time chain), max_opt (map max_time chain)) of
        (Some tmin, Some tmax) \<Rightarrow>
          let bytes = total_bytes chain;
              prior = (if prior_bytes st > 0 then last (merged st) else []);
              matches = (if prior_bytes st > 0 then count_matches chain prior else 0)
          in assert_res (prior_bytes st > 0 \<longrightarrow> list_all (\<lambda>c. c \<noteq> []) css) ''index out of bounds''
            (let ooo = (prior_bytes st > 0 \<and>
                   list_ex (\<lambda>alt. chain_in_gap (prior_min st) (prior_max st) tmin tmax (min_time (hd alt))) css)
             in if prior_bytes st > 0 \<and> prior_bytes st + bytes \<le> max_size \<and> matches = 0 \<and> \<not> ooo then
                  Inr (st\<lparr>merged := butlast (merged st) @ [prior @ chain],
                          prior_bytes := prior_bytes st + bytes,
                          prior_min := min (prior_min st) tmin,
                          prior_max := max (prior_max st) tmax\<rparr>)
                else
                  Inr \<lparr>merged = merged st @ [chain], prior_bytes = bytes,
                       prior_min = tmin, prior_max = tmax\<rparr>)
      | _ \<Rightarrow> Inl (Panic ''called Option::unwrap on a None value''))"

fun merge_small_loop :: "nat \<Rightarrow> files list \<Rightarrow> files list \<Rightarrow> merge_state \<Rightarrow> merge_state res" where
  "merge_small_loop max_size css [] st = Inr st"
| "merge_small_loop max_size css (chain # rest) st =
     (if chain = [] then merge_small_loop max_size css rest st
      else bind_res (merge_small_step max_size css chain st) (merge_small_loop max_size css rest))"

definition merge_small_l0_chains :: "files list \<Rightarrow> nat \<Rightarrow> files list res" where
  "merge_small_l0_chains css max_size =
     bind_res (sort_chains get_max_l0_created_at ''called Option::unwrap on a None value'' css) (\<lambda>css.
     bind_res (merge_small_loop max_size css css
         \<lparr>merged = [], prior_bytes = 0, prior_min = 0, prior_max = 0\<rparr>) (\<lambda>st.
       sort_chains (\<lambda>c. min_time (hd c)) ''index out of bounds'' (merged st)))"

text \<open>The last merged chain takes the next chain when a level 1 file reaches from one to the other.\<close>

fun merge_l1_loop :: "files \<Rightarrow> files list \<Rightarrow> files list \<Rightarrow> timestamp option \<Rightarrow> files list res" where
  "merge_l1_loop l1s [] ms prior = Inr ms"
| "merge_l1_loop l1s (chain # rest) ms prior =
     (case (min_opt (map min_time chain), max_opt (map max_time chain)) of
        (Some tmin, Some tmax) \<Rightarrow>
          let ms = (case prior of
                      Some p \<Rightarrow> if p \<ge> tmin then butlast ms @ [last ms @ chain] else ms @ [chain]
                    | None \<Rightarrow> ms @ [chain])
          in merge_l1_loop l1s rest ms
               (max_opt (map max_time (filter (\<lambda>l1. min_time l1 \<le> tmax \<and> max_time l1 > tmax) l1s)))
      | _ \<Rightarrow> Inl (Panic ''called Option::unwrap on a None value''))"

definition merge_l1_spanned_chains :: "files list \<Rightarrow> files \<Rightarrow> files list res" where
  "merge_l1_spanned_chains css l1s =
     bind_res (sort_chains (\<lambda>c. min_time (hd c)) ''index out of bounds'' css) (\<lambda>css.
       merge_l1_loop l1s css [] None)"

text \<open>
  Choosing split times. The two inner loops advance the index of the hint; the outer loop may use a
  hint that lies before the current split time, so that it returns is a lemma and not part of its
  definition. The times are \<open>i64\<close> values and their arithmetic wraps around. Reserving room for more
  than \<open>isize::MAX\<close> bytes of split times panics.
\<close>

function advance_hint :: "int list \<Rightarrow> int \<Rightarrow> nat \<Rightarrow> nat" where
  "advance_hint hints bound i =
     (if i < length hints \<and> hints ! i < bound then advance_hint hints bound (i + 1) else i)"
  by pat_completeness auto
termination by (relation "measure (\<lambda>(hints, bound, i). length hints - i)") auto

definition abs_diff :: "int \<Rightarrow> int \<Rightarrow> int" where
  "abs_diff a b = wrap_i64 \<bar>wrap_i64 (a - b)\<bar>"

function closest_hint :: "int list \<Rightarrow> int \<Rightarrow> nat \<Rightarrow> nat" where
  "closest_hint hints next_time i =
     (if i + 1 < length hints \<and> abs_diff (hints ! i) next_time > abs_diff (hints ! (i + 1)) next_time
      then closest_hint hints next_time (i + 1) else i)"
  by pat_completeness auto
termination by (relation "measure (\<lambda>(hints, next_time, i). length hints - i)") auto

declare advance_hint.simps [simp del] closest_hint.simps [simp del]

partial_function (option) select_loop ::
    "int list \<Rightarrow> int \<Rightarrow> int \<Rightarrow> int \<Rightarrow> int \<Rightarrow> int \<Rightarrow> nat \<Rightarrow> int list \<Rightarrow> int list option" where
  [code]: "select_loop hints min_delta max_delta default_delta mx split_time i acc =
     (if wrap_i64 (split_time + max_delta) < mx then
        let next_time = wrap_i64 (split_time + default_delta);
            i = closest_hint hints next_time (advance_hint hints (wrap_i64 (split_time + min_delta)) i);
            split_time = (if i < length hints \<and> hints ! i < wrap_i64 (split_time + max_delta) then hints ! i else next_time)
        in select_loop hints min_delta max_delta default_delta mx split_time i
             (if split_time < mx then acc @ [split_time] else acc)
      else Some acc)"

definition select_split_times :: "nat \<Rightarrow> nat \<Rightarrow> int \<Rightarrow> int \<Rightarrow> int list \<Rightarrow> int list res" where
  "select_split_times cap max_size mn mx hints =
     (if mn = mx then Inr []
      else assert_res (max_size \<noteq> 0) ''attempt to divide by zero''
        (let splits = cap div max_size * 2 mod 2 ^ 64;
             default_delta = wrap_i64 (div_i64 (wrap_i64 (mx - mn)) (as_i64 (splits + 1)));
             min_delta = max (div_i64 default_delta 2) 1;
             max_delta = max (div_i64 (wrap_i64 (default_delta * 3)) 2) 1;
             splits = (if default_delta = 0 then as_usize (wrap_i64 (mx - mn)) else splits);
             default_delta = (if default_delta = 0 then 1 else default_delta)
         in assert_res (splits * 8 < 2 ^ 63) ''capacity overflow''
              (case select_loop hints min_delta max_delta default_delta mx mn 0 [] of
                 Some ts \<Rightarrow> Inr ts
               | None \<Rightarrow> Inl Diverges)))"

section \<open>Split times\<close>

lemma advance_hint_ge: "i \<le> advance_hint hints bound i"
  by (induction hints bound i rule: advance_hint.induct) (subst advance_hint.simps, auto)

lemma advance_hint_le: "advance_hint hints bound i \<le> max i (length hints)"
  by (induction hints bound i rule: advance_hint.induct) (subst advance_hint.simps, auto)

lemma advance_hint_bound:
  "advance_hint hints bound i < length hints \<Longrightarrow> bound \<le> hints ! advance_hint hints bound i"
proof (induction hints bound i rule: advance_hint.induct)
  case (1 hints bound i)
  show ?case
  proof (cases "i < length hints \<and> hints ! i < bound")
    case True
    then have "advance_hint hints bound i = advance_hint hints bound (i + 1)" by (subst advance_hint.simps) simp
    then show ?thesis using 1 True by simp
  next
    case False
    then have "advance_hint hints bound i = i" by (subst advance_hint.simps) auto
    then show ?thesis using 1 False by auto
  qed
qed

lemma closest_hint_ge: "i \<le> closest_hint hints t i"
  by (induction hints t i rule: closest_hint.induct) (subst closest_hint.simps, auto)

lemma closest_hint_le: "closest_hint hints t i \<le> max i (length hints - 1)"
  by (induction hints t i rule: closest_hint.induct) (subst closest_hint.simps, auto)

text \<open>One iteration of the outer loop: either the hint index or the split time grows.\<close>

definition next_hint :: "int list \<Rightarrow> int \<Rightarrow> int \<Rightarrow> int \<Rightarrow> nat \<Rightarrow> nat" where
  "next_hint hints min_delta default_delta s i =
     closest_hint hints (s + default_delta) (advance_hint hints (s + min_delta) i)"

definition next_split :: "int list \<Rightarrow> int \<Rightarrow> int \<Rightarrow> int \<Rightarrow> nat \<Rightarrow> int" where
  "next_split hints max_delta default_delta s i =
     (if i < length hints \<and> hints ! i < s + max_delta then hints ! i else s + default_delta)"

lemma select_loop_step:
  assumes "- (2 ^ 63) \<le> s" "s + maxd < 2 ^ 63" "0 < mind" "mind \<le> maxd" "0 < defd" "defd \<le> maxd"
  shows "select_loop hints mind maxd defd mx s i acc =
     (if s + maxd < mx then
        select_loop hints mind maxd defd mx (next_split hints maxd defd s (next_hint hints mind defd s i))
          (next_hint hints mind defd s i)
          (if next_split hints maxd defd s (next_hint hints mind defd s i) < mx
           then acc @ [next_split hints maxd defd s (next_hint hints mind defd s i)] else acc)
      else Some acc)"
proof -
  have "wrap_i64 (s + maxd) = s + maxd" "wrap_i64 (s + mind) = s + mind" "wrap_i64 (s + defd) = s + defd"
    using assms by (auto intro!: wrap_i64_id)
  then show ?thesis by (subst select_loop.simps) (simp add: next_hint_def next_split_def Let_def)
qed

lemma next_hint_ge: "i \<le> next_hint hints mind defd s i"
  unfolding next_hint_def using advance_hint_ge closest_hint_ge order_trans by blast

lemma next_hint_le: "i < next_hint hints mind defd s i \<Longrightarrow> i < length hints"
  unfolding next_hint_def
  using advance_hint_le [of hints "s + mind" i]
    closest_hint_le [of hints "s + defd" "advance_hint hints (s + mind) i"] by linarith

lemma next_split_progress:
  assumes "next_hint hints mind defd s i = i" "0 < mind" "0 < defd"
  shows "s < next_split hints maxd defd s i"
proof -
  have "advance_hint hints (s + mind) i = i"
    using assms(1) advance_hint_ge [of i hints "s + mind"]
      closest_hint_ge [of "advance_hint hints (s + mind) i" hints "s + defd"]
    by (simp add: next_hint_def)
  then have "i < length hints \<Longrightarrow> s + mind \<le> hints ! i" using advance_hint_bound [of hints "s + mind" i] by simp
  then show ?thesis using assms by (auto simp: next_split_def)
qed

text \<open>With hints in ascending order the split times ascend, too.\<close>

lemma next_split_sorted:
  assumes "sorted hints" "0 < mind" "0 < defd"
  shows "s < next_split hints maxd defd s (next_hint hints mind defd s i)"
proof -
  let ?a = "advance_hint hints (s + mind) i" and ?i = "next_hint hints mind defd s i"
  have "s + mind \<le> hints ! ?i" if "?i < length hints"
  proof -
    have "?a \<le> ?i" by (simp add: next_hint_def closest_hint_ge)
    then have "hints ! ?a \<le> hints ! ?i" "?a < length hints" using assms(1) that by (auto simp: sorted_nth_mono)
    then show ?thesis using advance_hint_bound [of hints "s + mind" i] by simp
  qed
  then show ?thesis using assms by (auto simp: next_split_def)
qed

lemma next_split_ge:
  assumes "- (2 ^ 63) \<le> s" "0 < defd" "list_all (\<lambda>h. - (2 ^ 63) \<le> h) hints"
  shows "- (2 ^ 63) \<le> next_split hints maxd defd s i"
  using assms by (auto simp: next_split_def list_all_length)

lemma select_loop_returns:
  assumes d: "0 < mind" "mind \<le> maxd" "0 < defd" "defd \<le> maxd"
    and "mx + maxd < 2 ^ 63" "list_all (\<lambda>h. - (2 ^ 63) \<le> h) hints" "- (2 ^ 63) \<le> s" "s \<le> mx"
  shows "\<exists>ts. select_loop hints mind maxd defd mx s i acc = Some (acc @ ts) \<and> (\<forall>t \<in> set ts. t < mx)
    \<and> (sorted hints \<longrightarrow> sorted_wrt (<) (s # ts))"
  using assms(7,8)
proof (induction "(length hints - i, nat (mx - s))" arbitrary: s i acc rule: wf_induct_rule [OF wf_lex_prod [OF wf_less_than wf_less_than]])
  case (1 s i)
  have "s + maxd < 2 ^ 63" using assms(5) 1(3) by linarith
  note step = select_loop_step [OF 1(2) this d, of hints mx i acc]
  show ?case
  proof (cases "s + maxd < mx")
    case False
    then show ?thesis by (simp add: step)
  next
    case True
    define i' where "i' = next_hint hints mind defd s i"
    define s' where "s' = next_split hints maxd defd s i'"
    have s': "s' < mx" "- (2 ^ 63) \<le> s'"
      using True d next_split_ge [OF 1(2) d(3) assms(6)] by (auto simp: s'_def next_split_def)
    have "((length hints - i', nat (mx - s')), (length hints - i, nat (mx - s))) \<in> less_than <*lex*> less_than"
    proof (cases "i' = i")
      case False
      then show ?thesis using next_hint_ge [of i hints mind defd s] next_hint_le [of i hints mind defd s]
        by (auto simp: i'_def)
    next
      case eq: True
      then have "s < s'" using next_split_progress d by (simp add: i'_def s'_def)
      then show ?thesis using eq True d by auto
    qed
    then obtain ts where ts: "select_loop hints mind maxd defd mx s' i' (acc @ [s']) = Some ((acc @ [s']) @ ts)"
        "\<forall>t \<in> set ts. t < mx" "sorted hints \<longrightarrow> sorted_wrt (<) (s' # ts)"
      using 1(1) s' less_imp_le by blast
    have "select_loop hints mind maxd defd mx s i acc = Some (acc @ s' # ts)"
      using True ts(1) s'(1) by (simp add: step flip: i'_def s'_def)
    moreover have "sorted hints \<longrightarrow> sorted_wrt (<) (s # s' # ts)"
      using ts(3) next_split_sorted [OF _ d(1,3), of hints s maxd i]
      by (fastforce simp flip: i'_def s'_def)
    ultimately show ?thesis using ts(2) s'(1) by auto
  qed
qed

text \<open>The deltas of a range.\<close>

lemma select_deltas:
  assumes "0 \<le> d" "3 * d < 2 ^ 63"
  defines "mind \<equiv> max (div_i64 d 2) 1" and "maxd \<equiv> max (div_i64 (wrap_i64 (d * 3)) 2) 1"
    and "defd \<equiv> if d = 0 then 1 else d"
  shows "0 < mind" "mind \<le> maxd" "0 < defd" "defd \<le> maxd" "maxd \<le> max (2 * d) 1"
proof -
  have "wrap_i64 (d * 3) = d * 3" using assms(1,2) by (intro wrap_i64_id) auto
  then have "mind = max (d div 2) 1" "maxd = max (d * 3 div 2) 1"
    using assms(1) by (simp_all add: mind_def maxd_def div_i64_nonneg)
  then show "0 < mind" "mind \<le> maxd" "0 < defd" "defd \<le> maxd" "maxd \<le> max (2 * d) 1"
    using assms(1) unfolding defd_def by (auto simp: max_def)
qed

lemma select_split_times_result:
  assumes "0 < max_size" "cap div max_size < 2 ^ 59" "mn \<le> mx" "- (2 ^ 63) \<le> mn"
    and "3 * (mx - mn) < 2 ^ 63" "mx + 2 * (mx - mn) < 2 ^ 63" "list_all (\<lambda>h. - (2 ^ 63) \<le> h) hints"
  shows "\<exists>ts. select_split_times cap max_size mn mx hints = Inr ts \<and> (\<forall>t \<in> set ts. t < mx)
    \<and> (sorted hints \<longrightarrow> sorted_wrt (<) (mn # ts))"
proof (cases "mn = mx")
  case False
  define k where "k = cap div max_size * 2"
  define n where "n = int k + 1"
  define d where "d = (mx - mn) div n"
  have k: "k mod 2 ^ 64 = k" "as_i64 (k + 1) = n" "k * 8 < 2 ^ 63" using assms(2) by (simp_all add: k_def n_def as_i64_small)
  have n: "0 < n" by (simp add: n_def)
  have d: "0 \<le> d" "d \<le> mx - mn"
    using assms(3) n zdiv_mono2 [of "mx - mn" 1 n] by (simp_all add: d_def pos_imp_zdiv_nonneg_iff)
  have w: "wrap_i64 (mx - mn) = mx - mn" using assms(3,5) by (intro wrap_i64_id) auto
  then have dd: "wrap_i64 (div_i64 (mx - mn) n) = d"
    using d assms(3,5) n by (simp add: div_i64_nonneg wrap_i64_id flip: d_def)
  have cap: "(if d = 0 then as_usize (mx - mn) else k) * 8 < 2 ^ 63"
  proof (cases "d = 0")
    case True
    then have "mx - mn < n" using n assms(3) by (auto simp: d_def zdiv_eq_0_iff)
    then have "nat (mx - mn) \<le> k" by (simp add: n_def)
    then show ?thesis using True k(3) assms(3,5) by (simp add: as_usize_nonneg)
  qed (use k in simp)
  have d3: "3 * d < 2 ^ 63" using d(2) assms(5) by simp
  note deltas = select_deltas [OF d(1) d3]
  have "mx + max (div_i64 (wrap_i64 (d * 3)) 2) 1 < 2 ^ 63" using deltas(5) d assms(3,6) False by simp
  from select_loop_returns [OF deltas(1-4) this assms(7,4,3), of 0 "[]"]
  obtain ts where ts: "select_loop hints (max (div_i64 d 2) 1) (max (div_i64 (wrap_i64 (d * 3)) 2) 1)
      (if d = 0 then 1 else d) mx mn 0 [] = Some ts"
    "\<forall>t \<in> set ts. t < mx" "sorted hints \<longrightarrow> sorted_wrt (<) (mn # ts)" by auto
  have "select_split_times cap max_size mn mx hints = Inr ts"
    using False assms(1) cap unfolding select_split_times_def Let_def k_def [symmetric] k(1,2) w dd ts(1) by simp
  with ts show ?thesis by blast
qed (simp add: select_split_times_def)

text \<open>
  C14. Choosing split times ends, whatever \<open>i64\<close> hints are given, when the times leave room for the
  deltas added to them: three times the length of the range, and its end plus twice its length, are
  below \<open>2 ^ 63\<close>, and fewer than \<open>2 ^ 59\<close> pieces are asked for. Every split time lies below the end
  of the time range; when the hints ascend, the split times strictly ascend from above the start of
  the range.
\<close>

theorem select_split_times_returns:
  assumes "0 < max_size" "cap div max_size < 2 ^ 59" "mn \<le> mx" "- (2 ^ 63) \<le> mn"
    and "3 * (mx - mn) < 2 ^ 63" "mx + 2 * (mx - mn) < 2 ^ 63" "list_all (\<lambda>h. - (2 ^ 63) \<le> h) hints"
  shows "\<exists>ts. select_split_times cap max_size mn mx hints = Inr ts \<and> (\<forall>t \<in> set ts. t < mx)
    \<and> (sorted hints \<longrightarrow> sorted_wrt (<) (mn # ts))"
  using select_split_times_result [OF assms] .

theorem select_split_times_returns_witness:
  "\<exists>ts. select_split_times 299 100 0 100 [15, 19, 23, 35, 41, 55, 61, 82, 83] = Inr ts
     \<and> ts = [19, 41, 61, 82] \<and> (\<forall>t \<in> set ts. t < 100) \<and> sorted_wrt (<) (0 # ts)"
proof -
  have "select_loop [15, 19, 23, 35, 41, 55, 61, 82, 83] 10 30 20 100 0 0 [] = Some [19, 41, 61, 82]" by code_simp
  moreover have "wrap_i64 100 = 100 \<and> wrap_i64 20 = 20 \<and> wrap_i64 60 = 60 \<and> as_i64 5 = 5"
    by (simp add: wrap_i64_def as_i64_def)
  moreover have "div_i64 100 5 = 20 \<and> div_i64 20 2 = 10 \<and> div_i64 60 2 = 30" by (simp add: div_i64_def)
  ultimately have "select_split_times 299 100 0 100 [15, 19, 23, 35, 41, 55, 61, 82, 83] = Inr [19, 41, 61, 82]"
    by (simp add: select_split_times_def Let_def)
  moreover have "sorted [15, 19, 23, 35, 41, 55, 61, 82, 83 :: int]" by simp
  ultimately show ?thesis
    using select_split_times_returns [of 100 299 0 100 "[15, 19, 23, 35, 41, 55, 61, 82, 83]"] by auto
qed

section \<open>Aligning start level files\<close>

lemma disjoint_sorted:
  assumes "disjoint_times fs" "\<forall>f \<in> set fs. wf_file f" "sorted (map min_time fs)"
  shows "sorted_wrt (\<lambda>a b. max_time a < min_time b) fs"
  using assms
proof (induction fs)
  case (Cons f fs)
  have "max_time f < min_time g" if "g \<in> set fs" for g
  proof -
    have "min_time f \<le> min_time g" "min_time g \<le> max_time g" "\<not> overlaps f g"
      using Cons.prems that by (auto simp: disjoint_times_Cons wf_file_def)
    then show ?thesis by (simp add: overlaps_def)
  qed
  then show ?case using Cons by (simp add: disjoint_times_Cons)
qed simp

text \<open>The time ranges of the files a split produces.\<close>

definition pieces :: "file_to_split \<Rightarrow> (int \<times> int) list" where
  "pieces s = zip (min_time (split_file s) # map (\<lambda>t. t + 1) (split_times s)) (split_times s @ [max_time (split_file s)])"

lemma piece_no_cut:
  assumes "(lo, hi) \<in> set (zip (mn # map (\<lambda>t. t + 1) ts) (ts @ [mx]))" "sorted_wrt (<) ts"
    "\<forall>t \<in> set ts. mn \<le> t \<and> t < (mx::int)"
  shows "mn \<le> lo \<and> hi \<le> mx \<and> (\<forall>t \<in> set ts. \<not> (lo \<le> t \<and> t < hi))"
  using assms
proof (induction ts arbitrary: mn)
  case (Cons t ts)
  show ?case
  proof (cases "(lo, hi) = (mn, t)")
    case True
    then show ?thesis using Cons.prems by force
  next
    case False
    then have "(lo, hi) \<in> set (zip ((t + 1) # map (\<lambda>t. t + 1) ts) (ts @ [mx]))" using Cons.prems by auto
    then have "t + 1 \<le> lo \<and> hi \<le> mx \<and> (\<forall>t \<in> set ts. \<not> (lo \<le> t \<and> t < hi))"
      using Cons.prems by (intro Cons.IH) auto
    then show ?thesis using Cons.prems by auto
  qed
qed simp

lemma align_times_eq:
  assumes "sorted_wrt (\<lambda>a b. max_time a < min_time b) ovl" "\<forall>f \<in> set ovl. wf_file f"
  shows "align_times fl ovl = map max_time (filter (\<lambda>f. max_time f < max_time fl) ovl)"
    and "sorted_wrt (<) (align_times fl ovl)"
proof -
  have s: "sorted_wrt (\<lambda>a b. max_time a < max_time b) (filter (\<lambda>f. max_time f < max_time fl) ovl)"
    using assms by (intro sorted_wrt_filter sorted_wrt_mono_rel [OF _ assms(1)]) (auto simp: wf_file_def)
  then have "distinct (map max_time (filter (\<lambda>f. max_time f < max_time fl) ovl))"
    by (auto simp: sorted_wrt_map [symmetric] strict_sorted_iff)
  then show e: "align_times fl ovl = map max_time (filter (\<lambda>f. max_time f < max_time fl) ovl)"
    by (simp add: align_times_def remdups_adj_distinct)
  show "sorted_wrt (<) (align_times fl ovl)" using s by (simp add: e sorted_wrt_map)
qed

lemma align_cuts:
  assumes T: "sorted_wrt (\<lambda>a b. max_time a < min_time b) T" "\<forall>f \<in> set T. wf_file f"
    and ovl: "ovl = filter (\<lambda>f. overlaps fl f) T" "2 \<le> length ovl"
  shows "cuts_file \<lparr>split_file = fl, split_times = align_times fl ovl\<rparr>"
proof -
  have s: "sorted_wrt (\<lambda>a b. max_time a < min_time b) ovl" using T by (simp add: ovl sorted_wrt_filter)
  have wf: "\<forall>f \<in> set ovl. wf_file f" using T by (simp add: ovl)
  note e = align_times_eq [OF s wf, of fl]
  obtain a b r where ab: "ovl = a # b # r" using ovl(2) by (auto simp: Suc_le_length_iff numeral_2_eq_2)
  have "b \<in> set (filter (\<lambda>f. overlaps fl f) T)" using ab ovl(1) by (metis list.set_intros)
  then have "max_time a < max_time fl" using s ab by (auto simp: overlaps_def)
  then have "align_times fl ovl \<noteq> []" unfolding e(1) by (simp add: ab)
  moreover have "\<forall>t \<in> set (align_times fl ovl). min_time fl \<le> t \<and> t < max_time fl"
    unfolding e(1) by (auto simp: ovl overlaps_def)
  ultimately show ?thesis using e(2) by (simp add: cuts_file_def)
qed

lemma align_one_target:
  assumes T: "sorted_wrt (\<lambda>a b. max_time a < min_time b) T" "\<forall>f \<in> set T. wf_file f"
    and ovl: "ovl = filter (\<lambda>f. overlaps fl f) T" "2 \<le> length ovl"
    and p: "(lo, hi) \<in> set (pieces \<lparr>split_file = fl, split_times = align_times fl ovl\<rparr>)"
    and t: "t1 \<in> set T" "t2 \<in> set T" "overlaps_time_range t1 lo hi" "overlaps_time_range t2 lo hi"
  shows "t1 = t2"
proof -
  let ?s = "\<lparr>split_file = fl, split_times = align_times fl ovl\<rparr>"
  have "cuts_file ?s" by (rule align_cuts [OF T ovl])
  then have no: "min_time fl \<le> lo \<and> hi \<le> max_time fl \<and> (\<forall>t \<in> set (align_times fl ovl). \<not> (lo \<le> t \<and> t < hi))"
    using p by (intro piece_no_cut) (auto simp: pieces_def cuts_file_def)
  have s: "sorted_wrt (\<lambda>a b. max_time a < min_time b) ovl" using T by (simp add: ovl sorted_wrt_filter)
  have wf: "\<forall>f \<in> set ovl. wf_file f" using T by (simp add: ovl)
  have "False" if "a \<in> set T" "b \<in> set T" "max_time a < min_time b"
    "overlaps_time_range a lo hi" "overlaps_time_range b lo hi" for a b
  proof -
    have "max_time a \<in> set (align_times fl ovl)"
      using that no unfolding align_times_eq(1) [OF s wf] by (auto simp: ovl overlaps_def overlaps_time_range_def)
    then show False using no that by (auto simp: overlaps_time_range_def)
  qed
  moreover have "t1 = t2 \<or> max_time t1 < min_time t2 \<or> max_time t2 < min_time t1"
    using sorted_wrt_iff_nth_less t T(1)
    by (metis in_set_conv_nth linorder_neqE_nat)
  ultimately show ?thesis using t by blast
qed

lemma single_timestamp_one_target:
  assumes T: "sorted_wrt (\<lambda>a b. max_time a < min_time b) T" and "min_time fl = max_time fl"
  shows "length (filter (\<lambda>f. overlaps fl f) T) < 2"
proof (rule ccontr)
  assume "\<not> ?thesis"
  then obtain a b r where ab: "filter (\<lambda>f. overlaps fl f) T = a # b # r"
    by (cases "filter (\<lambda>f. overlaps fl f) T"; cases "tl (filter (\<lambda>f. overlaps fl f) T)") auto
  then have "{a, b} \<subseteq> set (filter (\<lambda>f. overlaps fl f) T)" by simp
  then have "overlaps fl a" "overlaps fl b" by auto
  moreover have "sorted_wrt (\<lambda>a b. max_time a < min_time b) (a # b # r)"
    using T ab by (metis sorted_wrt_filter)
  ultimately show False using assms(2) by (auto simp: overlaps_def)
qed

definition needs_align :: "files \<Rightarrow> parquet_file \<Rightarrow> bool" where
  "needs_align T f \<longleftrightarrow> 2 \<le> length (filter (overlaps f) T) \<and> min_time f \<noteq> max_time f"

definition aligned :: "files \<Rightarrow> parquet_file \<Rightarrow> file_to_split" where
  "aligned T f = \<lparr>split_file = f, split_times = align_times f (filter (overlaps f) T)\<rparr>"

lemma identify_loop_eq:
  "identify_loop T fs a b = (a @ map (aligned T) (filter (needs_align T) fs), b @ filter (\<lambda>f. \<not> needs_align T f) fs)"
  by (induction fs arbitrary: a b) (auto simp: needs_align_def aligned_def Let_def)

lemma identify_eq:
  assumes "list_all (\<lambda>f. compaction_level f = lv \<or> compaction_level f = prev_level lv) fs"
    and "S = sort_key max_l0_created_at (start_files lv fs)" "T = sort_key min_time (target_files lv fs)"
  shows "identify_start_level_files_to_split fs lv =
      Inr (map (aligned T) (filter (needs_align T) S), filter (\<lambda>f. \<not> needs_align T f) S @ T)"
    and "mset (map split_file (map (aligned T) (filter (needs_align T) S)) @ filter (\<lambda>f. \<not> needs_align T f) S @ T) = mset fs"
proof -
  have "map split_file (map (aligned T) xs) = xs" for xs by (induction xs) (simp_all add: aligned_def)
  then show m: "mset (map split_file (map (aligned T) (filter (needs_align T) S)) @ filter (\<lambda>f. \<not> needs_align T f) S @ T) = mset fs"
    using start_target_mset [of lv fs] mset_filter_not [of "needs_align T" S]
    by (simp add: assms(2,3) flip: add.assoc)
  have "target_level_split fs (prev_level lv) = Inr (start_files lv fs, target_files lv fs)"
    by (simp add: target_level_split_def o_def start_files_def target_files_def)
  moreover have "length (filter (needs_align T) S) + length (filter (\<lambda>f. \<not> needs_align T f) S @ T) = length fs"
    using mset_eq_length [OF m] by simp
  ultimately show "identify_start_level_files_to_split fs lv =
      Inr (map (aligned T) (filter (needs_align T) S), filter (\<lambda>f. \<not> needs_align T f) S @ T)"
    using assms(1) by (simp add: identify_start_level_files_to_split_def Let_def identify_loop_eq assms(2,3))
qed

lemma identify_aligned:
  assumes "list_all (\<lambda>f. compaction_level f = lv \<or> compaction_level f = prev_level lv) fs"
    and "list_all wf_file fs" "disjoint_times (target_files lv fs)"
  shows "\<exists>ts ns. identify_start_level_files_to_split fs lv = Inr (ts, ns) \<and> mset (map split_file ts @ ns) = mset fs
    \<and> (\<forall>s \<in> set ts. cuts_file s \<and> (\<forall>(lo, hi) \<in> set (pieces s). \<forall>t1 \<in> set (target_files lv fs). \<forall>t2 \<in> set (target_files lv fs).
          overlaps_time_range t1 lo hi \<and> overlaps_time_range t2 lo hi \<longrightarrow> t1 = t2))
    \<and> (\<forall>f \<in> set (start_files lv ns). length (filter (overlaps f) (target_files lv fs)) \<le> 1)"
proof -
  define S where "S = sort_key max_l0_created_at (start_files lv fs)"
  define T where "T = sort_key min_time (target_files lv fs)"
  have wf: "\<forall>f \<in> set T. wf_file f" using assms(2) by (auto simp: T_def target_files_def list_all_iff)
  have "disjoint_times T" using assms(3) disjoint_times_mset [of T "target_files lv fs"] by (simp add: T_def)
  then have s: "sorted_wrt (\<lambda>a b. max_time a < min_time b) T" using wf by (intro disjoint_sorted) (simp_all add: T_def)
  have setT: "set T = set (target_files lv fs)" by (simp add: T_def)
  note id = identify_eq [OF assms(1) S_def T_def]
  have cut: "cuts_file (aligned T f)" if "needs_align T f" for f
    using align_cuts [OF s wf refl, of f] that by (simp add: needs_align_def aligned_def)
  have one: "t1 = t2" if "needs_align T f" "(lo, hi) \<in> set (pieces (aligned T f))" "t1 \<in> set T" "t2 \<in> set T"
    "overlaps_time_range t1 lo hi" "overlaps_time_range t2 lo hi" for f lo hi t1 t2
    using align_one_target [OF s wf refl, of f lo hi t1 t2] that by (simp add: needs_align_def aligned_def)
  have "length (filter (overlaps f) T) \<le> 1" if "\<not> needs_align T f" for f
    using single_timestamp_one_target [OF s, of f] that by (fastforce simp: needs_align_def)
  moreover have "length (filter (overlaps f) T) = length (filter (overlaps f) (target_files lv fs))" for f
    by (metis T_def mset_filter mset_sort size_mset)
  moreover have "set (start_files lv T) = {}" by (auto simp: T_def start_files_def target_files_def)
  ultimately have "\<forall>f \<in> set (start_files lv (filter (\<lambda>f. \<not> needs_align T f) S @ T)). length (filter (overlaps f) (target_files lv fs)) \<le> 1"
    by (auto simp: start_files_def)
  moreover have "\<forall>s \<in> set (map (aligned T) (filter (needs_align T) S)). cuts_file s \<and> (\<forall>(lo, hi) \<in> set (pieces s).
      \<forall>t1 \<in> set (target_files lv fs). \<forall>t2 \<in> set (target_files lv fs).
          overlaps_time_range t1 lo hi \<and> overlaps_time_range t2 lo hi \<longrightarrow> t1 = t2)"
    using cut one by (auto simp flip: setT)
  ultimately show ?thesis using id by blast
qed

text \<open>
  C10. Aligning start level files. The function returns and no file is lost. With target level files
  that do not overlap each other, every file to split is cut at strictly ascending times inside its
  range, each of its pieces shares timestamps with at most one target level file, and every start level
  file that is not split overlaps at most one target level file.
\<close>

theorem identify_start_level_aligned:
  assumes "list_all (\<lambda>f. compaction_level f = lv \<or> compaction_level f = prev_level lv) fs"
    and "list_all wf_file fs" "disjoint_times (target_files lv fs)"
  shows "\<exists>ts ns. identify_start_level_files_to_split fs lv = Inr (ts, ns) \<and> mset (map split_file ts @ ns) = mset fs
    \<and> (\<forall>s \<in> set ts. cuts_file s \<and> (\<forall>(lo, hi) \<in> set (pieces s). \<forall>t1 \<in> set (target_files lv fs). \<forall>t2 \<in> set (target_files lv fs).
          overlaps_time_range t1 lo hi \<and> overlaps_time_range t2 lo hi \<longrightarrow> t1 = t2))
    \<and> (\<forall>f \<in> set (start_files lv ns). length (filter (overlaps f) (target_files lv fs)) \<le> 1)"
  using identify_aligned [OF assms] .

theorem identify_start_level_aligned_witness:
  "\<exists>s ns. identify_start_level_files_to_split [file_of 1 Initial 5 25 10 2, file_of 2 FileNonOverlapped 0 9 20 1,
       file_of 3 FileNonOverlapped 10 19 10 1, file_of 4 FileNonOverlapped 20 30 40 1] FileNonOverlapped = Inr ([s], ns)
     \<and> split_times s = [9, 19] \<and> cuts_file s"
proof -
  let ?fs = "[file_of 1 Initial 5 25 10 2, file_of 2 FileNonOverlapped 0 9 20 1,
       file_of 3 FileNonOverlapped 10 19 10 1, file_of 4 FileNonOverlapped 20 30 40 1]"
  let ?s = "\<lparr>split_file = file_of 1 Initial 5 25 10 2, split_times = [9, 19]\<rparr>"
  have pre: "list_all (\<lambda>f. compaction_level f = FileNonOverlapped \<or> compaction_level f = prev_level FileNonOverlapped) ?fs"
    "list_all wf_file ?fs" "disjoint_times (target_files FileNonOverlapped ?fs)" by code_simp+
  have r: "identify_start_level_files_to_split ?fs FileNonOverlapped =
    Inr ([?s], [file_of 2 FileNonOverlapped 0 9 20 1, file_of 3 FileNonOverlapped 10 19 10 1, file_of 4 FileNonOverlapped 20 30 40 1])"
    by code_simp
  show ?thesis using identify_start_level_aligned [OF pre] r by auto
qed

section \<open>Chains\<close>

definition chains_sep :: "files list \<Rightarrow> bool" where
  "chains_sep css \<longleftrightarrow> sorted_wrt (\<lambda>c d. \<forall>a \<in> set c. \<forall>b \<in> set d. max_time a < min_time b) css"

text \<open>Every file but the first begins within an earlier one.\<close>

definition linked :: "files \<Rightarrow> bool" where
  "linked c \<longleftrightarrow> (\<forall>i < length c. 0 < i \<longrightarrow> (\<exists>j < i. min_time (c ! i) \<le> max_time (c ! j)))"

lemma linked_snoc:
  assumes "linked c" "a \<in> set c" "min_time f \<le> max_time a"
  shows "linked (c @ [f])"
  unfolding linked_def
proof (intro allI impI)
  fix i assume i: "i < length (c @ [f])" "0 < i"
  show "\<exists>j < i. min_time ((c @ [f]) ! i) \<le> max_time ((c @ [f]) ! j)"
  proof (cases "i < length c")
    case True
    then obtain j where "j < i" "min_time (c ! i) \<le> max_time (c ! j)" using assms(1) i by (auto simp: linked_def)
    then show ?thesis using True by (intro exI [of _ j]) (simp add: nth_append)
  next
    case False
    then have "i = length c" using i by simp
    moreover obtain j where "j < length c" "c ! j = a" using assms(2) by (auto simp: in_set_conv_nth)
    ultimately show ?thesis using assms(3) by (intro exI [of _ j]) (simp add: nth_append)
  qed
qed

definition chains_inv :: "files list \<Rightarrow> files \<Rightarrow> timestamp \<Rightarrow> files \<Rightarrow> bool" where
  "chains_inv css chain mx fs \<longleftrightarrow> chains_sep css \<and> list_all linked css \<and> linked chain
     \<and> (\<forall>a \<in> set (concat css). \<forall>b \<in> set (chain @ fs). max_time a < min_time b)
     \<and> (chain \<noteq> [] \<longrightarrow> (\<exists>a \<in> set chain. max_time a = mx) \<and> (\<forall>a \<in> set chain. max_time a \<le> mx))
     \<and> (chain = [] \<longrightarrow> css = [])"

lemma chains_loop_ok:
  assumes "chains_inv css chain mx fs" "sorted (map min_time fs)"
  shows "concat (chains_loop fs css chain mx) = concat css @ chain @ fs
    \<and> chains_sep (chains_loop fs css chain mx) \<and> list_all linked (chains_loop fs css chain mx)"
  using assms
proof (induction fs arbitrary: css chain mx)
  case Nil
  then show ?case by (auto simp: chains_inv_def chains_sep_def sorted_wrt_append)
next
  case (Cons f fs)
  note inv = Cons.prems(1)
  have srt: "sorted (map min_time fs)" using Cons.prems(2) by simp
  consider "chain = []" | "chain \<noteq> []" "min_time f \<le> mx" | "chain \<noteq> []" "mx < min_time f" by linarith
  then show ?case
  proof cases
    case 1
    then have "chains_inv css [f] (max_time f) fs" using inv by (auto simp: chains_inv_def linked_def)
    from Cons.IH [OF this srt] show ?thesis using 1 by simp
  next
    case 2
    obtain a where a: "a \<in> set chain" "max_time a = mx" using inv 2 by (auto simp: chains_inv_def)
    then have "linked (chain @ [f])" using inv 2 by (intro linked_snoc [of chain a]) (auto simp: chains_inv_def)
    then have "chains_inv css (chain @ [f]) (if max_time f > mx then max_time f else mx) fs"
      using inv 2 a unfolding chains_inv_def by force
    from Cons.IH [OF this srt] show ?thesis using 2 by simp
  next
    case 3
    have "max_time a < min_time b" if "a \<in> set chain" "b \<in> set (f # fs)" for a b
      using that inv 3 Cons.prems(2) by (force simp: chains_inv_def)
    then have "chains_inv (css @ [chain]) [f] (max_time f) fs"
      using inv unfolding chains_inv_def chains_sep_def by (auto simp: sorted_wrt_append linked_def)
    from Cons.IH [OF this srt] show ?thesis using 3 by simp
  qed
qed

lemma split_into_chains_ok:
  "concat (split_into_chains fs) = sort_key min_time fs"
  "chains_sep (split_into_chains fs)"
  "list_all linked (split_into_chains fs)"
  using chains_loop_ok [of "[]" "[]" 0 "sort_key min_time fs"]
  by (simp_all add: split_into_chains_def chains_inv_def chains_sep_def linked_def)

lemma mset_split_into_chains [simp, conserve]: "mset (concat (split_into_chains fs)) = mset fs"
  by (simp add: split_into_chains_ok)

definition overlap_rel :: "files \<Rightarrow> (parquet_file \<times> parquet_file) set" where
  "overlap_rel fs = {(a, b). a \<in> set fs \<and> b \<in> set fs \<and> overlaps a b}"

lemma overlap_rel_sym: "(a, b) \<in> (overlap_rel fs)\<^sup>* \<Longrightarrow> (b, a) \<in> (overlap_rel fs)\<^sup>*"
  by (rule symD [OF sym_rtrancl]) (auto simp: sym_def overlap_rel_def overlaps_def)

lemma linked_connected:
  assumes "linked c" "sorted (map min_time c)" "set c \<subseteq> set fs" "\<forall>f \<in> set fs. wf_file f" "i < length c"
  shows "(c ! 0, c ! i) \<in> (overlap_rel fs)\<^sup>*"
  using assms(5)
proof (induction i rule: less_induct)
  case (less i)
  show ?case
  proof (cases "i = 0")
    case False
    then obtain j where j: "j < i" "min_time (c ! i) \<le> max_time (c ! j)"
      using assms(1) less.prems by (auto simp: linked_def)
    have "min_time (c ! j) \<le> min_time (c ! i)"
      using assms(2) j(1) less.prems sorted_nth_mono [of "map min_time c" j i] by simp
    moreover have "min_time (c ! i) \<le> max_time (c ! i)"
      using assms(3,4) nth_mem [OF less.prems] by (auto simp: wf_file_def)
    ultimately have "(c ! j, c ! i) \<in> overlap_rel fs"
      using j nth_mem [of i c] nth_mem [of j c] less.prems assms(3) by (auto simp: overlap_rel_def overlaps_def)
    then show ?thesis using less.IH [OF j(1)] j(1) less.prems by (meson less_trans rtrancl.rtrancl_into_rtrancl)
  qed simp
qed

lemma sep_same_chain:
  assumes "chains_sep css" "c \<in> set css" "d \<in> set css" "a \<in> set c" "b \<in> set d" "overlaps a b"
  shows "b \<in> set c"
proof (rule ccontr)
  assume n: "b \<notin> set c"
  obtain i j where ij: "i < length css" "css ! i = c" "j < length css" "css ! j = d"
    using assms by (auto simp: in_set_conv_nth)
  then have "i \<noteq> j" using n assms(5) by auto
  then have "max_time a < min_time b \<or> max_time b < min_time a"
    using assms(1,4,5) ij unfolding chains_sep_def sorted_wrt_iff_nth_less by (metis linorder_neqE_nat)
  then show False using assms(6) by (auto simp: overlaps_def)
qed

text \<open>
  C11. Chains are the connected components of overlap. The chains hold exactly the given files in the
  order of their start; every file of a chain ends before every file of a later chain begins; and two
  files are in the same chain if and only if a sequence of overlapping files leads from one to the
  other.
\<close>

theorem split_into_chains_components:
  assumes "list_all wf_file fs" "a \<in> set fs" "b \<in> set fs"
  shows "concat (split_into_chains fs) = sort_key min_time fs \<and> chains_sep (split_into_chains fs)
    \<and> ((\<exists>c \<in> set (split_into_chains fs). a \<in> set c \<and> b \<in> set c) \<longleftrightarrow> (a, b) \<in> (overlap_rel fs)\<^sup>*)"
proof (intro conjI iffI)
  let ?css = "split_into_chains fs"
  have sub: "set c \<subseteq> set fs \<and> sorted (map min_time c) \<and> linked c" if c: "c \<in> set ?css" for c
  proof -
    obtain l r where "?css = l @ c # r" using split_list [OF c] by blast
    then have e: "concat l @ c @ concat r = sort_key min_time fs" using split_into_chains_ok(1) [of fs] by simp
    have "sorted (map min_time (concat l @ c @ concat r))" unfolding e by simp
    moreover have "set (concat l @ c @ concat r) = set fs" unfolding e by simp
    ultimately show ?thesis using split_into_chains_ok(3) [of fs] c
      by (auto simp: sorted_append list_all_iff)
  qed
  show "(a, b) \<in> (overlap_rel fs)\<^sup>*" if ex: "\<exists>c \<in> set ?css. a \<in> set c \<and> b \<in> set c"
  proof -
    obtain c where c0: "c \<in> set ?css" "a \<in> set c" "b \<in> set c" using ex by blast
    then obtain i j where c: "c \<in> set ?css" "i < length c" "c ! i = a" "j < length c" "c ! j = b"
      by (metis in_set_conv_nth)
    have "(c ! 0, a) \<in> (overlap_rel fs)\<^sup>*" "(c ! 0, b) \<in> (overlap_rel fs)\<^sup>*"
      using sub [OF c(1)] c assms(1) linked_connected [of c fs] by (auto simp: list_all_iff)
    then show ?thesis using overlap_rel_sym rtrancl_trans by metis
  qed
  obtain c where c: "c \<in> set ?css" "a \<in> set c"
    using assms(2) split_into_chains_ok(1) [of fs] by (metis UN_E set_concat set_sort)
  show "\<exists>c \<in> set ?css. a \<in> set c \<and> b \<in> set c" if "(a, b) \<in> (overlap_rel fs)\<^sup>*"
  proof -
    from that have "b \<in> set c"
    proof (induction rule: rtrancl_induct)
      case (step y z)
      then have "z \<in> set fs" "overlaps y z" by (auto simp: overlap_rel_def)
      then obtain d where "d \<in> set ?css" "z \<in> set d"
        using split_into_chains_ok(1) [of fs] by (metis UN_E set_concat set_sort)
      then show ?case using sep_same_chain [OF split_into_chains_ok(2) c(1)] step.IH \<open>overlaps y z\<close> by blast
    qed (rule c(2))
    then show ?thesis using c by blast
  qed
qed (rule split_into_chains_ok)+

theorem split_into_chains_components_witness:
  "(file_of 1 Initial 0 9 1 1, file_of 3 Initial 15 30 1 1)
     \<in> (overlap_rel [file_of 1 Initial 0 9 1 1, file_of 3 Initial 15 30 1 1, file_of 2 Initial 8 20 1 1, file_of 4 Initial 31 40 1 1])\<^sup>*"
proof -
  let ?fs = "[file_of 1 Initial 0 9 1 1, file_of 3 Initial 15 30 1 1, file_of 2 Initial 8 20 1 1, file_of 4 Initial 31 40 1 1]"
  have "split_into_chains ?fs = [[file_of 1 Initial 0 9 1 1, file_of 2 Initial 8 20 1 1, file_of 3 Initial 15 30 1 1], [file_of 4 Initial 31 40 1 1]]"
    by code_simp
  moreover have "list_all wf_file ?fs" by code_simp
  ultimately show ?thesis
    using split_into_chains_components [of ?fs "file_of 1 Initial 0 9 1 1" "file_of 3 Initial 15 30 1 1"] by simp
qed

section \<open>Merging chains\<close>

lemma sort_chains_ok: "list_all (\<lambda>c. c \<noteq> []) css \<Longrightarrow> sort_chains key msg css = Inr (sort_key key css)"
  by (simp add: sort_chains_def sort_key_short)

lemma chain_bounds:
  assumes "c \<noteq> []"
  obtains tmin tmax where "min_opt (map min_time c) = Some tmin" "max_opt (map max_time c) = Some tmax"
    "\<forall>a \<in> set c. tmin \<le> min_time a \<and> max_time a \<le> tmax"
    "\<exists>a \<in> set c. min_time a = tmin" "\<exists>a \<in> set c. max_time a = tmax"
proof -
  obtain tmin tmax where t: "min_opt (map min_time c) = Some tmin" "max_opt (map max_time c) = Some tmax"
    using assms by (metis Nil_is_map_conv max_opt_None min_opt_None option.exhaust)
  show thesis using min_opt_Some [OF t(1)] max_opt_Some [OF t(2)] by (intro that [OF t]) auto
qed

text \<open>No level 1 file overlaps files of both chains.\<close>

definition no_span :: "files \<Rightarrow> files \<Rightarrow> files \<Rightarrow> bool" where
  "no_span l1s c d \<longleftrightarrow> (\<forall>l \<in> set l1s. \<not> (list_ex (overlaps l) c \<and> list_ex (overlaps l) d))"

lemma no_span_append [simp]: "no_span l1s c (d @ e) \<longleftrightarrow> no_span l1s c d \<and> no_span l1s c e"
  by (auto simp: no_span_def)

lemma merge_l1_loop_ok:
  assumes "ms \<noteq> []" "sorted_wrt (no_span l1s) (butlast ms @ [last ms @ concat rest])"
    and "chains_sep (ms @ rest)" "list_all (\<lambda>c. c \<noteq> []) rest" "\<forall>f \<in> set (concat rest). wf_file f"
    and "\<forall>l \<in> set l1s. list_ex (overlaps l) (concat ms) \<and> list_ex (overlaps l) (concat rest) \<longrightarrow>
          (\<exists>p. prior = Some p \<and> max_time l \<le> p)"
  shows "\<exists>r. merge_l1_loop l1s rest ms prior = Inr r \<and> concat r = concat ms @ concat rest
    \<and> chains_sep r \<and> sorted_wrt (no_span l1s) r"
  using assms
proof (induction rest arbitrary: ms prior)
  case Nil
  then show ?case by simp
next
  case (Cons c rest)
  have c: "c \<noteq> []" using Cons.prems by simp
  then obtain tmin tmax where t: "min_opt (map min_time c) = Some tmin" "max_opt (map max_time c) = Some tmax"
    and tb: "\<forall>a \<in> set c. tmin \<le> min_time a \<and> max_time a \<le> tmax"
    and ta: "\<exists>a \<in> set c. min_time a = tmin" "\<exists>a \<in> set c. max_time a = tmax" by (rule chain_bounds)
  let ?prior = "max_opt (map max_time (filter (\<lambda>l1. min_time l1 \<le> tmax \<and> max_time l1 > tmax) l1s))"
  define join where "join \<longleftrightarrow> (\<exists>p. prior = Some p \<and> tmin \<le> p)"
  define ms' where "ms' = (if join then butlast ms @ [last ms @ c] else ms @ [c])"
  have step: "merge_l1_loop l1s (c # rest) ms prior = merge_l1_loop l1s rest ms' ?prior"
    using t by (cases prior) (auto simp: ms'_def join_def Let_def)
  have sep: "\<forall>a \<in> set (concat ms). \<forall>b \<in> set (c @ concat rest). max_time a < min_time b"
    "\<forall>a \<in> set c. \<forall>b \<in> set (concat rest). max_time a < min_time b"
    "chains_sep ms" "chains_sep rest"
    using Cons.prems(3) by (auto simp: chains_sep_def sorted_wrt_append)
  obtain m0 x where ms: "ms = m0 @ [x]" using Cons.prems(1) by (metis rev_exhaust)
  have sep': "chains_sep (ms' @ rest)"
    using sep unfolding chains_sep_def ms'_def ms by (auto simp: sorted_wrt_append)
  have cat: "concat ms' = concat ms @ c" by (simp add: ms'_def ms)
  have span: "sorted_wrt (no_span l1s) (butlast ms' @ [last ms' @ concat rest])"
  proof (cases join)
    case True
    then show ?thesis using Cons.prems(2) by (simp add: ms'_def ms)
  next
    case False
    have "\<not> (list_ex (overlaps l) (concat ms) \<and> list_ex (overlaps l) (c @ concat rest))" if l: "l \<in> set l1s" for l
    proof
      assume s: "list_ex (overlaps l) (concat ms) \<and> list_ex (overlaps l) (c @ concat rest)"
      then obtain p where p: "prior = Some p" "max_time l \<le> p" using Cons.prems(6) l by auto
      obtain b where b: "b \<in> set (c @ concat rest)" "overlaps l b" using s by (auto simp: list_ex_iff)
      have "tmin \<le> min_time b"
      proof (cases "b \<in> set c")
        case False
        obtain a where a: "a \<in> set c" "min_time a = tmin" using ta by auto
        then have "max_time a < min_time b" "min_time a \<le> max_time a"
          using sep(2) b False Cons.prems(5) by (auto simp: wf_file_def)
        then show ?thesis using a by simp
      qed (use tb in auto)
      then show False using b p False by (auto simp: join_def overlaps_def)
    qed
    then have "no_span l1s d (c @ concat rest)" if "d \<in> set ms" for d
      using that by (fastforce simp: no_span_def list_ex_iff)
    moreover have "sorted_wrt (no_span l1s) ms"
      using Cons.prems(2) by (auto simp: sorted_wrt_append ms)
    ultimately show ?thesis using False by (simp add: ms'_def sorted_wrt_append)
  qed
  have "\<exists>p. ?prior = Some p \<and> max_time l \<le> p"
    if l: "l \<in> set l1s" "list_ex (overlaps l) (concat ms')" "list_ex (overlaps l) (concat rest)" for l
  proof -
    obtain a b where ab: "a \<in> set (concat ms @ c)" "overlaps l a" "b \<in> set (concat rest)" "overlaps l b"
      using l cat by (auto simp: list_ex_iff)
    obtain m where m: "m \<in> set c" "max_time m = tmax" using ta by auto
    have wm: "min_time m \<le> max_time m" using Cons.prems(5) m by (auto simp: wf_file_def)
    have "max_time a \<le> tmax"
    proof (cases "a \<in> set c")
      case False
      then have "max_time a < min_time m" using ab(1) sep(1) m(1) by auto
      then show ?thesis using wm m by simp
    qed (use tb in auto)
    moreover have "tmax < min_time b" using sep(2) m ab(3) by auto
    ultimately have "l \<in> set (filter (\<lambda>l1. min_time l1 \<le> tmax \<and> max_time l1 > tmax) l1s)"
      using ab(2,4) l(1) by (auto simp: overlaps_def)
    then show ?thesis
      by (cases ?prior) (auto simp: filter_empty_conv dest: max_opt_Some)
  qed
  then have "\<exists>r. merge_l1_loop l1s rest ms' ?prior = Inr r \<and> concat r = concat ms' @ concat rest
      \<and> chains_sep r \<and> sorted_wrt (no_span l1s) r"
    using Cons.prems span sep' by (intro Cons.IH) (auto simp: ms'_def)
  then show ?case unfolding step cat by auto
qed

lemma chains_sep_sorted:
  assumes "chains_sep css" "list_all (\<lambda>c. c \<noteq> []) css" "\<forall>f \<in> set (concat css). wf_file f"
  shows "sort_key (\<lambda>c. min_time (hd c)) css = css"
proof -
  have "sorted (map (\<lambda>c. min_time (hd c)) css)"
    using assms unfolding chains_sep_def
  proof (induction css)
    case (Cons c css)
    have "min_time (hd c) \<le> min_time (hd d)" if d: "d \<in> set css" for d
    proof -
      have "hd c \<in> set c" "hd d \<in> set d" using Cons.prems d by (auto simp: list_all_iff)
      then have "max_time (hd c) < min_time (hd d)" "min_time (hd c) \<le> max_time (hd c)"
        using Cons.prems(1,3) d by (auto simp: wf_file_def)
      then show ?thesis by simp
    qed
    then show ?case using Cons by simp
  qed simp
  then show ?thesis by (rule sort_key_id_if_sorted)
qed

lemma merge_l1_spanned_result:
  assumes "chains_sep css" "list_all (\<lambda>c. c \<noteq> []) css" "list_all wf_file (concat css)"
  shows "\<exists>ms. merge_l1_spanned_chains css l1s = Inr ms \<and> concat ms = concat css
    \<and> chains_sep ms \<and> sorted_wrt (no_span l1s) ms"
proof (cases css)
  case Nil
  then show ?thesis by (simp add: merge_l1_spanned_chains_def sort_chains_def chains_sep_def)
next
  case (Cons c rest)
  have wf: "\<forall>f \<in> set (concat css). wf_file f" using assms(3) by (simp only: list_all_iff)
  have "c \<noteq> []" using assms(2) Cons by simp
  then obtain tmin tmax where t: "min_opt (map min_time c) = Some tmin" "max_opt (map max_time c) = Some tmax"
    and tb: "\<forall>a \<in> set c. tmin \<le> min_time a \<and> max_time a \<le> tmax" and ta: "\<exists>a \<in> set c. max_time a = tmax"
    by (rule chain_bounds)
  let ?prior = "max_opt (map max_time (filter (\<lambda>l1. min_time l1 \<le> tmax \<and> max_time l1 > tmax) l1s))"
  have "merge_l1_spanned_chains css l1s = merge_l1_loop l1s rest [c] ?prior"
    unfolding merge_l1_spanned_chains_def sort_chains_ok [OF assms(2)] chains_sep_sorted [OF assms(1,2) wf]
    using t by (simp add: Cons)
  moreover have "\<exists>r. merge_l1_loop l1s rest [c] ?prior = Inr r \<and> concat r = concat [c] @ concat rest
      \<and> chains_sep r \<and> sorted_wrt (no_span l1s) r"
  proof (rule merge_l1_loop_ok)
    show "\<forall>l \<in> set l1s. list_ex (overlaps l) (concat [c]) \<and> list_ex (overlaps l) (concat rest) \<longrightarrow>
        (\<exists>p. ?prior = Some p \<and> max_time l \<le> p)"
    proof (intro ballI impI)
      fix l assume l: "l \<in> set l1s" "list_ex (overlaps l) (concat [c]) \<and> list_ex (overlaps l) (concat rest)"
      obtain a b where ab: "a \<in> set c" "overlaps l a" "b \<in> set (concat rest)" "overlaps l b"
        using l(2) by (auto simp: list_ex_iff)
      obtain m where m: "m \<in> set c" "max_time m = tmax" using ta by auto
      have "tmax < min_time b" using assms(1) m ab(3) by (auto simp: Cons chains_sep_def)
      moreover have "max_time a \<le> tmax" using tb ab(1) by auto
      ultimately have "l \<in> set (filter (\<lambda>l1. min_time l1 \<le> tmax \<and> max_time l1 > tmax) l1s)"
        using ab(2,4) l(1) by (auto simp: overlaps_def)
      then show "\<exists>p. ?prior = Some p \<and> max_time l \<le> p"
        by (cases ?prior) (auto simp: filter_empty_conv dest: max_opt_Some)
    qed
  qed (use assms wf Cons in auto)
  ultimately show ?thesis by (simp add: Cons)
qed

text \<open>
  C12. Merging chains that a level 1 file spans. For chains in ascending disjoint time ranges the result
  holds the same files in the same order, is again a sequence of chains in ascending disjoint time
  ranges, and no level 1 file overlaps files of two of its chains.
\<close>

theorem merge_l1_spanned_chains_ok:
  assumes "chains_sep css" "list_all (\<lambda>c. c \<noteq> []) css" "list_all wf_file (concat css)"
  shows "\<exists>ms. merge_l1_spanned_chains css l1s = Inr ms \<and> concat ms = concat css
    \<and> chains_sep ms \<and> sorted_wrt (no_span l1s) ms"
  using merge_l1_spanned_result [OF assms] .

theorem merge_l1_spanned_chains_ok_witness:
  "\<exists>ms. merge_l1_spanned_chains [[file_of 1 Initial 0 9 1 1], [file_of 2 Initial 20 29 1 1], [file_of 3 Initial 40 49 1 1]]
      [file_of 4 FileNonOverlapped 5 25 1 1] = Inr ms
    \<and> map (map pf_id) ms = [[1, 2], [3]] \<and> sorted_wrt (no_span [file_of 4 FileNonOverlapped 5 25 1 1]) ms"
proof -
  let ?css = "[[file_of 1 Initial 0 9 1 1], [file_of 2 Initial 20 29 1 1], [file_of 3 Initial 40 49 1 1]]"
  have pre: "chains_sep ?css" "list_all (\<lambda>c. c \<noteq> []) ?css" "list_all wf_file (concat ?css)"
    unfolding chains_sep_def by code_simp+
  have "map_sum id (map (map pf_id)) (merge_l1_spanned_chains ?css [file_of 4 FileNonOverlapped 5 25 1 1]) = Inr [[1, 2], [3]]"
    by code_simp
  then show ?thesis using merge_l1_spanned_chains_ok [OF pre, of "[file_of 4 FileNonOverlapped 5 25 1 1]"] by auto
qed

subsection \<open>Merging small chains\<close>

definition apart :: "files \<Rightarrow> files \<Rightarrow> bool" where
  "apart c d \<longleftrightarrow> (\<forall>a \<in> set c. \<forall>b \<in> set d. max_time a < min_time b) \<or> (\<forall>a \<in> set c. \<forall>b \<in> set d. max_time b < min_time a)"

text \<open>The state describes the last merged chain; every merged chain starts with a given one.\<close>

definition merge_inv :: "nat \<Rightarrow> files list \<Rightarrow> files list \<Rightarrow> merge_state \<Rightarrow> bool" where
  "merge_inv max_size css rest st \<longleftrightarrow>
     sorted_wrt apart (merged st @ rest) \<and> set rest \<subseteq> set css
     \<and> list_all (\<lambda>c. c \<noteq> []) (merged st) \<and> (\<forall>f \<in> set (concat (merged st)). wf_file f)
     \<and> (\<forall>c \<in> set (merged st). \<exists>alt \<in> set css. hd alt \<in> set c)
     \<and> (\<forall>c \<in> set (merged st). c \<in> set css \<or> total_bytes c \<le> max_size)
     \<and> (prior_bytes st > 0 \<longrightarrow> merged st \<noteq> [] \<and> prior_bytes st = total_bytes (last (merged st))
         \<and> (\<forall>a \<in> set (last (merged st)). prior_min st \<le> min_time a \<and> max_time a \<le> prior_max st)
         \<and> (\<exists>a \<in> set (last (merged st)). min_time a = prior_min st)
         \<and> (\<exists>a \<in> set (last (merged st)). max_time a = prior_max st))"

lemma apart_merge:
  assumes "apart q p" "apart q c" "h \<in> set q"
    and p: "\<exists>a \<in> set p. max_time a = pmax" "\<exists>a \<in> set p. min_time a = pmin" "pmin \<le> pmax"
    and c: "\<exists>a \<in> set c. max_time a = tmax" "\<exists>a \<in> set c. min_time a = tmin" "tmin \<le> tmax"
    and h: "min_time h \<le> max_time h" and gap: "\<not> chain_in_gap pmin pmax tmin tmax (min_time h)"
  shows "apart q (p @ c)"
proof -
  have "False" if "pmax < min_time h" "max_time h < tmin"
    using gap h p(3) c(3) that by (auto simp: chain_in_gap_def)
  moreover have "False" if "tmax < min_time h" "max_time h < pmin"
    using gap h p(3) c(3) that by (auto simp: chain_in_gap_def)
  ultimately show ?thesis using assms(1-3) p(1,2) c(1,2) unfolding apart_def by (metis Un_iff set_append)
qed

lemma apart_sym: "apart c d \<Longrightarrow> apart d c"
  by (auto simp: apart_def)

lemma total_bytes_append: "total_bytes (c @ d) = total_bytes c + total_bytes d"
  by (simp add: total_bytes_def)

lemma merge_small_join:
  assumes inv: "merge_inv max_size css (c # rest) st" and ne: "list_all (\<lambda>c. c \<noteq> []) css"
    and wf: "\<forall>f \<in> set (concat css). wf_file f"
    and t: "\<forall>a \<in> set c. tmin \<le> min_time a \<and> max_time a \<le> tmax"
      "\<exists>a \<in> set c. min_time a = tmin" "\<exists>a \<in> set c. max_time a = tmax"
    and b: "prior_bytes st > 0" "prior_bytes st + total_bytes c \<le> max_size"
    and gap: "\<forall>alt \<in> set css. \<not> chain_in_gap (prior_min st) (prior_max st) tmin tmax (min_time (hd alt))"
  shows "merge_inv max_size css rest
    (st\<lparr>merged := butlast (merged st) @ [last (merged st) @ c], prior_bytes := prior_bytes st + total_bytes c,
        prior_min := min (prior_min st) tmin, prior_max := max (prior_max st) tmax\<rparr>)"
proof -
  have "merged st \<noteq> []" using inv b(1) by (auto simp: merge_inv_def)
  then obtain m0 p where m: "merged st = m0 @ [p]" by (metis rev_exhaust)
  have p: "total_bytes p = prior_bytes st" "\<forall>a \<in> set p. prior_min st \<le> min_time a \<and> max_time a \<le> prior_max st"
    "\<exists>a \<in> set p. min_time a = prior_min st" "\<exists>a \<in> set p. max_time a = prior_max st" "\<forall>f \<in> set p. wf_file f"
    using inv b(1) by (auto simp: merge_inv_def m)
  have sub: "set (c # rest) \<subseteq> set css" using inv by (simp add: merge_inv_def)
  have wc: "\<forall>f \<in> set c. wf_file f" using sub wf by auto
  have pm: "prior_min st \<le> prior_max st" using p(2,3,5) by (fastforce simp: wf_file_def)
  have tm: "tmin \<le> tmax" using t wc by (fastforce simp: wf_file_def)
  have join: "apart q (p @ c)" if "apart q p" "apart q c" "alt \<in> set css" "hd alt \<in> set q" for q alt
  proof (rule apart_merge [OF that(1,2,4) p(4,3) pm t(3,2) tm])
    show "min_time (hd alt) \<le> max_time (hd alt)"
      using wf that(3) ne by (fastforce simp: list_all_iff wf_file_def)
    show "\<not> chain_in_gap (prior_min st) (prior_max st) tmin tmax (min_time (hd alt))" using gap that(3) by blast
  qed
  have ap: "sorted_wrt apart ((m0 @ [p]) @ c # rest)" using inv by (simp add: merge_inv_def m)
  have "apart q (p @ c)" if q: "q \<in> set m0" for q
    using inv q ap join by (fastforce simp: merge_inv_def m sorted_wrt_append)
  moreover have "apart (p @ c) q" if q: "q \<in> set rest" for q
  proof (rule apart_sym, rule join [of q q])
    show "apart q p" "apart q c" using ap q by (auto simp: sorted_wrt_append intro: apart_sym)
    show "q \<in> set css" using sub q by auto
    then show "hd q \<in> set q" using ne by (simp add: list_all_iff)
  qed
  ultimately have "sorted_wrt apart (m0 @ [p @ c] @ rest)" using ap by (auto simp: sorted_wrt_append)
  moreover have "min (prior_min st) tmin \<le> min_time a \<and> max_time a \<le> max (prior_max st) tmax" if "a \<in> set (p @ c)" for a
    using p(2) t(1) that by (auto simp: min_le_iff_disj le_max_iff_disj)
  moreover have "\<exists>a \<in> set (p @ c). min_time a = min (prior_min st) tmin" "\<exists>a \<in> set (p @ c). max_time a = max (prior_max st) tmax"
    using p(3,4) t(2,3) by (auto simp: min_def max_def)
  moreover have "\<exists>alt \<in> set css. hd alt \<in> set (p @ c)" using inv by (auto simp: merge_inv_def m)
  ultimately show ?thesis
    using inv sub wc b p(1) unfolding merge_inv_def m
    by (simp add: total_bytes_append ball_Un)
qed

lemma merge_small_push:
  assumes inv: "merge_inv max_size css (c # rest) st" and ne: "c \<noteq> []" and wf: "\<forall>f \<in> set c. wf_file f"
    and t: "\<forall>a \<in> set c. tmin \<le> min_time a \<and> max_time a \<le> tmax"
      "\<exists>a \<in> set c. min_time a = tmin" "\<exists>a \<in> set c. max_time a = tmax"
  shows "merge_inv max_size css rest
    \<lparr>merged = merged st @ [c], prior_bytes = total_bytes c, prior_min = tmin, prior_max = tmax\<rparr>"
proof -
  have "c \<in> set css" "hd c \<in> set c" using inv ne by (auto simp: merge_inv_def)
  then have "\<exists>alt \<in> set css. hd alt \<in> set c" by blast
  then show ?thesis using inv ne wf t \<open>c \<in> set css\<close> unfolding merge_inv_def by (simp add: ball_Un)
qed

lemma merge_small_step_ok:
  assumes inv: "merge_inv max_size css (c # rest) st" and ne: "list_all (\<lambda>c. c \<noteq> []) css"
    and wf: "\<forall>f \<in> set (concat css). wf_file f"
  shows "\<exists>st'. merge_small_step max_size css c st = Inr st' \<and> merge_inv max_size css rest st'
    \<and> concat (merged st') = concat (merged st) @ c"
proof -
  have c: "c \<in> set css" "c \<noteq> []" using inv ne by (auto simp: merge_inv_def list_all_iff)
  then obtain tmin tmax where t: "min_opt (map min_time c) = Some tmin" "max_opt (map max_time c) = Some tmax"
    and b: "\<forall>a \<in> set c. tmin \<le> min_time a \<and> max_time a \<le> tmax"
      "\<exists>a \<in> set c. min_time a = tmin" "\<exists>a \<in> set c. max_time a = tmax" using chain_bounds by blast
  define join where "join \<longleftrightarrow> prior_bytes st > 0 \<and> prior_bytes st + total_bytes c \<le> max_size
      \<and> count_matches c (last (merged st)) = 0
      \<and> \<not> list_ex (\<lambda>alt. chain_in_gap (prior_min st) (prior_max st) tmin tmax (min_time (hd alt))) css"
  show ?thesis
  proof (cases join)
    case True
    then have "merge_inv max_size css rest
        (st\<lparr>merged := butlast (merged st) @ [last (merged st) @ c], prior_bytes := prior_bytes st + total_bytes c,
            prior_min := min (prior_min st) tmin, prior_max := max (prior_max st) tmax\<rparr>)"
      by (intro merge_small_join [OF inv ne wf b]) (auto simp: join_def list_ex_iff)
    moreover have "merged st \<noteq> []" using inv True by (auto simp: merge_inv_def join_def)
    then have "concat (butlast (merged st) @ [last (merged st) @ c]) = concat (merged st) @ c"
      by (metis append_assoc append_butlast_last_id concat.simps concat_append append_Nil2)
    ultimately show ?thesis using True t ne by (simp add: merge_small_step_def join_def)
  next
    case False
    then have "merge_small_step max_size css c st =
        Inr \<lparr>merged = merged st @ [c], prior_bytes = total_bytes c, prior_min = tmin, prior_max = tmax\<rparr>"
      using t ne by (auto simp: merge_small_step_def join_def Let_def)
    moreover have "\<forall>f \<in> set c. wf_file f" using wf c(1) by auto
    ultimately show ?thesis using merge_small_push [OF inv c(2) _ b] by simp
  qed
qed

lemma merge_small_loop_ok:
  assumes "merge_inv max_size css rest st" "list_all (\<lambda>c. c \<noteq> []) css" "\<forall>f \<in> set (concat css). wf_file f"
  shows "\<exists>st'. merge_small_loop max_size css rest st = Inr st' \<and> merge_inv max_size css [] st'
    \<and> concat (merged st') = concat (merged st) @ concat rest"
  using assms(1)
proof (induction rest arbitrary: st)
  case (Cons c rest)
  have "c \<noteq> []" using Cons.prems assms(2) by (auto simp: merge_inv_def list_all_iff)
  moreover obtain st1 where s: "merge_small_step max_size css c st = Inr st1" "merge_inv max_size css rest st1"
    "concat (merged st1) = concat (merged st) @ c" using merge_small_step_ok [OF Cons.prems assms(2,3)] by blast
  ultimately show ?case using Cons.IH [OF s(2)] by auto
qed simp

lemma apart_sorted:
  assumes "sorted_wrt apart css" "sorted (map (\<lambda>c. min_time (hd c)) css)" "list_all (\<lambda>c. c \<noteq> []) css"
    "\<forall>f \<in> set (concat css). wf_file f"
  shows "chains_sep css"
  using assms unfolding chains_sep_def
proof (induction css)
  case (Cons c css)
  have "max_time a < min_time b" if "d \<in> set css" "a \<in> set c" "b \<in> set d" for d a b
  proof -
    have h: "hd c \<in> set c" "hd d \<in> set d" using Cons.prems that by (auto simp: list_all_iff)
    then have "wf_file (hd c)" "wf_file (hd d)" using Cons.prems(4) that(1) by (auto simp: ball_Un)
    note h = h this
    have "min_time (hd c) \<le> min_time (hd d)" using Cons.prems(2) that by auto
    then have "\<not> max_time (hd d) < min_time (hd c)" using h by (simp add: wf_file_def)
    moreover have "apart c d" using Cons.prems(1) that by simp
    ultimately show ?thesis using h that by (auto simp: apart_def)
  qed
  then show ?case using Cons by simp
qed simp

lemma merge_small_l0_result:
  assumes "chains_sep css" "list_all (\<lambda>c. c \<noteq> []) css" "list_all wf_file (concat css)"
  shows "\<exists>ms. merge_small_l0_chains css max_size = Inr ms \<and> mset (concat ms) = mset (concat css) \<and> chains_sep ms
    \<and> list_all (\<lambda>c. c \<in> set css \<or> total_bytes c \<le> max_size) ms
    \<and> (\<exists>order. mset order = mset ms \<and> concat order = concat (sort_key get_max_l0_created_at css))"
proof -
  let ?css = "sort_key get_max_l0_created_at css"
  let ?st = "\<lparr>merged = [], prior_bytes = 0, prior_min = 0, prior_max = 0\<rparr>"
  have wf: "\<forall>f \<in> set (concat ?css). wf_file f" using assms(3) by (simp add: list_all_iff)
  have ne: "list_all (\<lambda>c. c \<noteq> []) ?css" using assms(2) by (simp add: list_all_iff)
  have "sorted_wrt apart css"
    using assms(1) unfolding chains_sep_def by (rule sorted_wrt_mono_rel [rotated]) (auto simp: apart_def)
  then have "sorted_wrt apart ?css"
    by (rule sorted_wrt_permute) (auto intro: apart_sym)
  then have "merge_inv max_size ?css ?css ?st" by (simp add: merge_inv_def)
  then obtain st where st: "merge_small_loop max_size ?css ?css ?st = Inr st" "merge_inv max_size ?css [] st"
    "concat (merged st) = concat ?css" using merge_small_loop_ok [OF _ ne wf] by fastforce
  define ms where "ms = sort_key (\<lambda>c. min_time (hd c)) (merged st)"
  have m: "list_all (\<lambda>c. c \<noteq> []) (merged st)" "sorted_wrt apart (merged st)" "\<forall>f \<in> set (concat (merged st)). wf_file f"
    "\<forall>c \<in> set (merged st). c \<in> set css \<or> total_bytes c \<le> max_size"
    using st(2) by (auto simp: merge_inv_def)
  have "merge_small_l0_chains css max_size = Inr ms"
    using st(1) m(1) assms(2) by (simp add: merge_small_l0_chains_def sort_chains_ok ms_def)
  moreover have "sorted_wrt apart ms"
    using m(2) unfolding ms_def by (rule sorted_wrt_permute) (auto intro: apart_sym)
  then have "chains_sep ms"
    using m(1,3) by (intro apart_sorted) (simp_all add: ms_def list_all_iff)
  moreover have "mset (concat ms) = mset (concat css)"
  proof -
    have "mset (concat ms) = mset (concat (merged st))" by (rule mset_concat_cong) (simp add: ms_def)
    also have "\<dots> = mset (concat css)" unfolding st(3) by (rule mset_concat_cong) simp
    finally show ?thesis .
  qed
  moreover have "list_all (\<lambda>c. c \<in> set css \<or> total_bytes c \<le> max_size) ms" using m(4) by (simp add: ms_def list_all_iff)
  moreover have "mset (merged st) = mset ms" by (simp add: ms_def)
  ultimately show ?thesis using st(3) by blast
qed

text \<open>
  C13. Merging small chains. For chains with pairwise disjoint time ranges no step panics; the result
  holds the same files, its chains have disjoint time ranges in ascending order, and a chain that is not
  one of the given ones holds at most \<open>max_compact_size\<close> bytes. Before the final ordering by time the
  files are in the order of their chains' newest \<open>max_l0_created_at\<close>.
\<close>

theorem merge_small_l0_chains_ok:
  assumes "chains_sep css" "list_all (\<lambda>c. c \<noteq> []) css" "list_all wf_file (concat css)"
  shows "\<exists>ms. merge_small_l0_chains css max_size = Inr ms \<and> mset (concat ms) = mset (concat css) \<and> chains_sep ms
    \<and> list_all (\<lambda>c. c \<in> set css \<or> total_bytes c \<le> max_size) ms
    \<and> (\<exists>order. mset order = mset ms \<and> concat order = concat (sort_key get_max_l0_created_at css))"
  using merge_small_l0_result [OF assms] .

theorem merge_small_l0_chains_ok_witness:
  "\<exists>ms. merge_small_l0_chains [[file_of 1 Initial 0 9 10 5], [file_of 2 Initial 20 29 10 7], [file_of 3 Initial 40 49 10 6]] 25 = Inr ms
    \<and> map (map pf_id) ms = [[1], [3, 2]] \<and> chains_sep ms"
proof -
  let ?css = "[[file_of 1 Initial 0 9 10 5], [file_of 2 Initial 20 29 10 7], [file_of 3 Initial 40 49 10 6]]"
  have pre: "chains_sep ?css" "list_all (\<lambda>c. c \<noteq> []) ?css" "list_all wf_file (concat ?css)"
    unfolding chains_sep_def by code_simp+
  have "map_sum id (map (map pf_id)) (merge_small_l0_chains ?css 25) = Inr [[1], [3, 2]]" by code_simp
  then show ?thesis using merge_small_l0_chains_ok [OF pre, of 25] by auto
qed

section \<open>No chain is empty\<close>

lemma chains_loop_nonempty:
  "list_all (\<lambda>c. c \<noteq> []) css \<Longrightarrow> fs \<noteq> [] \<or> cur \<noteq> [] \<Longrightarrow> list_all (\<lambda>c. c \<noteq> []) (chains_loop fs css cur mx)"
  by (induction fs css cur mx rule: chains_loop.induct) auto

lemma split_into_chains_nonempty: "fs \<noteq> [] \<Longrightarrow> list_all (\<lambda>c. c \<noteq> []) (split_into_chains fs)"
  unfolding split_into_chains_def by (rule chains_loop_nonempty) (auto dest: arg_cong [of _ _ length])

lemma merge_l1_loop_nonempty:
  "merge_l1_loop l1s css ms prior = Inr r \<Longrightarrow> list_all (\<lambda>c. c \<noteq> []) css \<Longrightarrow> list_all (\<lambda>c. c \<noteq> []) ms \<Longrightarrow>
     list_all (\<lambda>c. c \<noteq> []) r"
proof (induction css arbitrary: ms prior)
  case (Cons c css)
  have "list_all (\<lambda>c. c \<noteq> []) (butlast ms)" using Cons.prems(3) by (auto simp: list_all_iff dest: in_set_butlastD)
  then show ?case using Cons.prems by (auto simp: Let_def split: option.splits if_splits intro: Cons.IH)
qed simp

lemma merge_l1_spanned_nonempty:
  "merge_l1_spanned_chains css l1s = Inr ms \<Longrightarrow> list_all (\<lambda>c. c \<noteq> []) css \<Longrightarrow> list_all (\<lambda>c. c \<noteq> []) ms"
  using merge_l1_loop_nonempty [of l1s "sort_key (\<lambda>c. min_time (hd c)) css" "[]" None ms]
  by (auto simp: merge_l1_spanned_chains_def sort_chains_ok list_all_iff)

end
