(* ===== verification/F64.thy ===== *)
theory F64
  imports Prelude "HOL-Library.Log_Nat"
begin

text \<open>
  IEEE-754 double precision arithmetic on the values the compactor computes with: zero and numbers in
  the range of normal numbers (quotients and products of 64-bit integers stay far inside it). A
  number is a mantissa and a binary exponent. The operations are computed with integers; the lemma
  \<open>f64_rnd_correct\<close> says that they are the exact operations followed by rounding to 53 significant
  bits, ties to even. Rounding is monotone (\<open>f64_round_mono\<close>) and keeps powers of two
  (\<open>f64_round_le_pow2\<close>).
\<close>

section \<open>Operations\<close>

datatype f64 = F64 int int

definition f64_val :: "f64 \<Rightarrow> rat" where
  "f64_val x = (case x of F64 m e \<Rightarrow> of_int m * 2 powi e)"

text \<open>Is \<open>2\<^sup>d \<le> p / q\<close>?\<close>

definition pow2_le :: "int \<Rightarrow> int \<Rightarrow> int \<Rightarrow> bool" where
  "pow2_le d p q \<longleftrightarrow> (if d \<ge> 0 then q * 2 ^ nat d \<le> p else q \<le> p * 2 ^ nat (- d))"

text \<open>Rounds \<open>p / q \<cdot> 2\<^sup>e\<close> to 53 significant bits, for \<open>0 < q\<close>; a negative number as its absolute value.\<close>

definition f64_rnd_nonneg :: "int \<Rightarrow> int \<Rightarrow> int \<Rightarrow> f64" where
  "f64_rnd_nonneg p q e =
     (if p = 0 then F64 0 0
      else let d = int (floorlog 2 (nat p)) - int (floorlog 2 (nat q));
               t = 52 - (if pow2_le d p q then d else d - 1);
               num = (if t \<ge> 0 then p * 2 ^ nat t else p);
               den = (if t \<ge> 0 then q else q * 2 ^ nat (- t));
               n = num div den;
               r = num mod den
           in F64 (if 2 * r < den then n else if 2 * r > den then n + 1 else if even n then n else n + 1) (e - t))"

definition f64_rnd :: "int \<Rightarrow> int \<Rightarrow> int \<Rightarrow> f64" where
  "f64_rnd p q e =
     (if p < 0 then (case f64_rnd_nonneg (- p) q e of F64 m x \<Rightarrow> F64 (- m) x) else f64_rnd_nonneg p q e)"

definition f64_of_int :: "int \<Rightarrow> f64" where
  "f64_of_int n = f64_rnd n 1 0"

fun f64_mul :: "f64 \<Rightarrow> f64 \<Rightarrow> f64" where
  "f64_mul (F64 a e) (F64 b f) = f64_rnd (a * b) 1 (e + f)"

fun f64_div :: "f64 \<Rightarrow> f64 \<Rightarrow> f64" where
  "f64_div (F64 a e) (F64 b f) = f64_rnd a b (e - f)"

fun f64_add :: "f64 \<Rightarrow> f64 \<Rightarrow> f64" where
  "f64_add (F64 a e) (F64 b f) =
     f64_rnd (a * 2 ^ nat (e - min e f) + b * 2 ^ nat (f - min e f)) 1 (min e f)"

fun f64_floor :: "f64 \<Rightarrow> int" where
  "f64_floor (F64 m e) = (if e \<ge> 0 then m * 2 ^ nat e else m div 2 ^ nat (- e))"

fun f64_ceil :: "f64 \<Rightarrow> int" where
  "f64_ceil (F64 m e) = (if e \<ge> 0 then m * 2 ^ nat e else - ((- m) div 2 ^ nat (- e)))"

text \<open>The saturating casts to \<open>i64\<close> and \<open>u64\<close> of a non-negative integral part.\<close>

definition saturate_i64 :: "int \<Rightarrow> int" where
  "saturate_i64 n = max (- (2 ^ 63)) (min (2 ^ 63 - 1) n)"

definition saturate_u64 :: "int \<Rightarrow> nat" where
  "saturate_u64 n = nat (max 0 (min (2 ^ 64 - 1) n))"

section \<open>Rounding of rationals\<close>

text \<open>The exponent of the leading bit of a positive rational.\<close>

definition f64_exp :: "rat \<Rightarrow> int" where
  "f64_exp x =
     (let (p, q) = quotient_of x;
          e = int (floorlog 2 (nat p)) - int (floorlog 2 (nat q))
      in if 2 powi e \<le> x then e else e - 1)"

definition round_even :: "rat \<Rightarrow> int" where
  "round_even x =
     (let n = \<lfloor>x\<rfloor>; d = x - of_int n
      in if d < 1 / 2 then n else if d > 1 / 2 then n + 1 else if even n then n else n + 1)"

definition f64_round :: "rat \<Rightarrow> rat" where
  "f64_round x =
     (if x = 0 then 0
      else let ulp = 2 powi (f64_exp x - 52) in of_int (round_even (x / ulp)) * ulp)"

section \<open>Lemmas\<close>

lemma floorlog_rat:
  assumes "0 < (p::int)"
  shows "(2::rat) ^ (floorlog 2 (nat p) - 1) \<le> of_int p" "of_int p < (2::rat) ^ floorlog 2 (nat p)"
    "0 < floorlog 2 (nat p)"
proof -
  have b: "2 ^ (floorlog 2 (nat p) - 1) \<le> nat p" "nat p < 2 ^ floorlog 2 (nat p)"
    using assms floorlog_bounds [of "nat p" 2] by simp_all
  have "of_nat (2 ^ (floorlog 2 (nat p) - 1)) \<le> (of_nat (nat p) :: rat)"
    "(of_nat (nat p) :: rat) < of_nat (2 ^ floorlog 2 (nat p))"
    using b by (simp_all only: of_nat_le_iff of_nat_less_iff)
  then show "(2::rat) ^ (floorlog 2 (nat p) - 1) \<le> of_int p" "of_int p < (2::rat) ^ floorlog 2 (nat p)"
    using assms by simp_all
  show "0 < floorlog 2 (nat p)" using assms by (simp add: floorlog_def)
qed

lemma f64_exp_bounds:
  assumes "0 < x"
  shows "2 powi f64_exp x \<le> x" "x < 2 powi (f64_exp x + 1)"
proof -
  obtain p q where pq: "quotient_of x = (p, q)" by fastforce
  have q: "0 < q" using pq by (rule quotient_of_denom_pos)
  have x: "x = of_int p / of_int q" using pq by (rule quotient_of_div)
  then have p: "0 < p" using assms q by (simp add: zero_less_divide_iff)
  let ?e = "int (floorlog 2 (nat p)) - int (floorlog 2 (nat q))"
  define a where "a = floorlog 2 (nat p)"
  define c where "c = floorlog 2 (nat q)"
  note P = floorlog_rat [OF p, folded a_def] and Q = floorlog_rat [OF q, folded c_def]
  have "x < 2 ^ a / 2 ^ (c - 1)" unfolding x using P Q p q by (intro frac_less) auto
  also have "\<dots> = 2 powi (?e + 1)"
    using Q(3) unfolding a_def [symmetric] c_def [symmetric]
    by (simp add: power_int_diff power_int_add of_nat_diff flip: power_int_of_nat)
  finally have up: "x < 2 powi (?e + 1)" .
  have "2 powi (?e - 1) = 2 ^ (a - 1) / (2 ^ c :: rat)"
    using P(3) unfolding a_def [symmetric] c_def [symmetric]
    by (simp add: power_int_diff of_nat_diff flip: power_int_of_nat)
  also have "\<dots> \<le> x" unfolding x using P Q p q by (intro frac_le) auto
  finally have lo: "2 powi (?e - 1) \<le> x" .
  have e: "f64_exp x = (if 2 powi ?e \<le> x then ?e else ?e - 1)" by (simp add: f64_exp_def pq Let_def)
  show "2 powi f64_exp x \<le> x" "x < 2 powi (f64_exp x + 1)" using up lo unfolding e by auto
qed

lemma round_even_ge: "of_int n \<le> x \<Longrightarrow> n \<le> round_even x"
  using le_floor_iff [of n x] by (simp add: round_even_def Let_def)

lemma round_even_near: "\<bar>of_int (round_even x) - x\<bar> \<le> 1 / 2"
proof -
  have "of_int \<lfloor>x\<rfloor> \<le> x" "x < of_int \<lfloor>x\<rfloor> + 1" by linarith+
  then show ?thesis unfolding round_even_def Let_def by (auto simp: abs_le_iff)
qed

lemma f64_round_pos:
  assumes "0 < x"
  shows "0 < f64_round x"
proof -
  have "(2::rat) powi (f64_exp x - 52) \<le> x"
    using f64_exp_bounds(1) [OF assms] power_int_increasing [of "f64_exp x - 52" "f64_exp x" "2::rat"] by simp
  then have "of_int 1 \<le> x / 2 powi (f64_exp x - 52)" by (simp add: le_divide_eq)
  then have "1 \<le> round_even (x / 2 powi (f64_exp x - 52))" by (rule round_even_ge)
  then show ?thesis using assms by (simp add: f64_round_def Let_def)
qed

lemma f64_exp_unique:
  assumes "0 < x" "2 powi e \<le> x" "x < 2 powi (e + 1)"
  shows "f64_exp x = e"
proof -
  note b = f64_exp_bounds [OF assms(1)]
  have "e < f64_exp x + 1"
  proof (rule ccontr)
    assume "\<not> ?thesis"
    then have "(2::rat) powi (f64_exp x + 1) \<le> 2 powi e" by (intro power_int_increasing) simp_all
    then show False using assms(2) b(2) by simp
  qed
  moreover have "f64_exp x < e + 1"
  proof (rule ccontr)
    assume "\<not> ?thesis"
    then have "(2::rat) powi (e + 1) \<le> 2 powi f64_exp x" by (intro power_int_increasing) simp_all
    then show False using assms(3) b(1) by simp
  qed
  ultimately show ?thesis by simp
qed

lemma f64_exp_scale:
  assumes "0 < x"
  shows "f64_exp (x * 2 powi e) = f64_exp x + e"
  using f64_exp_bounds [OF assms] assms
  by (intro f64_exp_unique) (simp_all add: power_int_add add.commute [of _ e] add.assoc mult.commute [of x])

lemma pow2_le_iff:
  assumes "0 < p" "0 < q"
  shows "pow2_le d p q \<longleftrightarrow> 2 powi d \<le> (of_int p / of_int q :: rat)"
proof (cases "d \<ge> 0")
  case True
  then have "2 powi d = (of_int (2 ^ nat d) :: rat)" by (simp add: power_int_def)
  then have "2 powi d \<le> (of_int p / of_int q :: rat) \<longleftrightarrow> (of_int (q * 2 ^ nat d) :: rat) \<le> of_int p"
    using assms by (simp add: le_divide_eq mult.commute)
  then show ?thesis using True by (simp only: of_int_le_iff pow2_le_def if_True)
next
  case False
  then have "2 powi d = (1 / of_int (2 ^ nat (- d)) :: rat)" by (simp add: power_int_def inverse_eq_divide power_divide)
  moreover have "1 / of_int (2 ^ nat (- d)) \<le> (of_int p / of_int q :: rat) \<longleftrightarrow> (of_int q :: rat) \<le> of_int (p * 2 ^ nat (- d))"
    using assms by (simp add: divide_simps mult.commute)
  ultimately have "2 powi d \<le> (of_int p / of_int q :: rat) \<longleftrightarrow> (of_int q :: rat) \<le> of_int (p * 2 ^ nat (- d))"
    by simp
  then show ?thesis using False by (simp only: of_int_le_iff pow2_le_def if_False)
qed

lemma round_even_frac:
  assumes "0 < den"
  shows "round_even (of_int num / of_int den) =
    (let n = num div den; r = num mod den
     in if 2 * r < den then n else if 2 * r > den then n + 1 else if even n then n else n + 1)"
proof -
  have f: "\<lfloor>of_int num / of_int den :: rat\<rfloor> = num div den" by (rule floor_divide_of_int_eq)
  have d: "(of_int num / of_int den :: rat) - of_int (num div den) = of_int (num mod den) / of_int den"
    using assms by (simp add: field_simps flip: of_int_mult of_int_add)
  have lt: "rat_of_int a * 2 < of_int b \<longleftrightarrow> 2 * a < b" and gt: "of_int b < rat_of_int a * 2 \<longleftrightarrow> b < 2 * a" for a b
    by (metis mult.commute of_int_less_iff of_int_mult of_int_numeral)+
  have l: "(of_int (num mod den) / of_int den < (1 / 2 :: rat)) \<longleftrightarrow> 2 * (num mod den) < den"
    and g: "((1 / 2 :: rat) < of_int (num mod den) / of_int den) \<longleftrightarrow> den < 2 * (num mod den)"
    using assms by (simp_all add: divide_simps lt gt)
  show ?thesis unfolding round_even_def Let_def f d l g ..
qed

lemma f64_rnd_correct:
  assumes "0 < p" "0 < q"
  shows "f64_val (f64_rnd p q e) = f64_round (of_int p / of_int q * 2 powi e)"
proof -
  let ?x = "of_int p / of_int q :: rat"
  have x: "0 < ?x" using assms by simp
  define d where "d = int (floorlog 2 (nat p)) - int (floorlog 2 (nat q))"
  define t where "t = 52 - (if pow2_le d p q then d else d - 1)"
  define num where "num = (if t \<ge> 0 then p * 2 ^ nat t else p)"
  define den where "den = (if t \<ge> 0 then q else q * 2 ^ nat (- t))"
  have den: "0 < den" using assms by (simp add: den_def)
  have "f64_exp ?x = (if pow2_le d p q then d else d - 1)"
  proof (rule f64_exp_unique [OF x])
    note P = floorlog_rat [OF assms(1)] and Q = floorlog_rat [OF assms(2)]
    have "?x < 2 ^ floorlog 2 (nat p) / 2 ^ (floorlog 2 (nat q) - 1)" using P Q assms by (intro frac_less) auto
    also have "\<dots> = 2 powi (d + 1)"
      using Q(3) unfolding d_def by (simp add: power_int_diff power_int_add of_nat_diff flip: power_int_of_nat)
    finally have up: "?x < 2 powi (d + 1)" .
    have "2 powi (d - 1) = 2 ^ (floorlog 2 (nat p) - 1) / (2 ^ floorlog 2 (nat q) :: rat)"
      using P(3) unfolding d_def by (simp add: power_int_diff of_nat_diff flip: power_int_of_nat)
    also have "\<dots> \<le> ?x" using P Q assms by (intro frac_le) auto
    finally have lo: "2 powi (d - 1) \<le> ?x" .
    show "2 powi (if pow2_le d p q then d else d - 1) \<le> ?x" "?x < 2 powi ((if pow2_le d p q then d else d - 1) + 1)"
      using up lo pow2_le_iff [OF assms] by auto
  qed
  then have t: "f64_exp (?x * 2 powi e) - 52 = e - t"
    using f64_exp_scale [OF x] by (simp add: t_def)
  have "?x * 2 powi e / 2 powi (e - t) = ?x * 2 powi t"
    by (simp add: power_int_diff)
  also have "\<dots> = of_int num / of_int den"
    using assms by (simp add: num_def den_def power_int_def inverse_eq_divide power_divide)
  finally have r: "?x * 2 powi e / 2 powi (e - t) = of_int num / of_int den" .
  have "f64_rnd p q e = F64 (round_even (of_int num / of_int den)) (e - t)"
    using assms unfolding round_even_frac [OF den] f64_rnd_def f64_rnd_nonneg_def Let_def d_def [symmetric] t_def [symmetric]
      num_def [symmetric] den_def [symmetric] by simp
  moreover have "?x * 2 powi e \<noteq> 0" using assms by simp
  ultimately show ?thesis unfolding f64_round_def Let_def t r f64_val_def by simp
qed

lemma f64_val_pos_iff: "0 < f64_val (F64 m e) \<longleftrightarrow> 0 < m"
  unfolding f64_val_def f64.case
  by (metis mult_pos_pos of_int_0_less_iff zero_less_mult_pos2 zero_less_numeral zero_less_power_int)

lemma f64_rnd_pos:
  assumes "0 < p" "0 < q"
  shows "0 < f64_val (f64_rnd p q e)"
  unfolding f64_rnd_correct [OF assms] using assms by (intro f64_round_pos) simp

lemma f64_of_int_pos: "0 < n \<Longrightarrow> 0 < f64_val (f64_of_int n)"
  by (simp add: f64_of_int_def f64_rnd_pos)

lemma f64_mul_pos: "0 < f64_val x \<Longrightarrow> 0 < f64_val y \<Longrightarrow> 0 < f64_val (f64_mul x y)"
  by (cases x; cases y) (simp add: f64_val_pos_iff f64_rnd_pos)

lemma f64_div_pos: "0 < f64_val x \<Longrightarrow> 0 < f64_val y \<Longrightarrow> 0 < f64_val (f64_div x y)"
  by (cases x; cases y) (simp add: f64_val_pos_iff f64_rnd_pos)

lemma f64_ceil_val: "f64_ceil x = \<lceil>f64_val x\<rceil>"
proof (cases x)
  case (F64 m e)
  have "\<lceil>of_int m * 2 powi e :: rat\<rceil> = - ((- m) div 2 ^ nat (- e))" if "e < 0"
  proof -
    have "of_int m * 2 powi e = (of_int m / of_int (2 ^ nat (- e)) :: rat)"
      using that by (simp add: power_int_def inverse_eq_divide power_divide)
    then show ?thesis by (simp only: ceiling_divide_eq_div)
  qed
  moreover have "\<lceil>of_int m * 2 powi e :: rat\<rceil> = m * 2 ^ nat e" if "0 \<le> e"
  proof -
    have "of_int m * 2 powi e = (of_int (m * 2 ^ nat e) :: rat)" using that by (simp add: power_int_def)
    then show ?thesis by (simp only: ceiling_of_int)
  qed
  ultimately show ?thesis by (simp add: F64 f64_val_def)
qed

text \<open>The relative rounding error is at most \<open>2\<^sup>-\<^sup>5\<^sup>3\<close>.\<close>

lemma f64_round_lower:
  assumes "0 < x"
  shows "x * (1 - 1 / 2 ^ 53) \<le> f64_round x"
proof -
  define u where "u = (2::rat) powi (f64_exp x - 52)"
  have u: "0 < u" by (simp add: u_def)
  have "2 ^ 52 * u = 2 powi f64_exp x"
    by (simp add: u_def power_int_diff)
  then have z: "2 ^ 52 \<le> x / u" using f64_exp_bounds(1) [OF assms] u by (simp add: pos_le_divide_eq)
  have "x / u - 1 / 2 \<le> of_int (round_even (x / u))" using round_even_near [of "x / u"] by linarith
  then have "x / u * (1 - 1 / 2 ^ 53) \<le> of_int (round_even (x / u))" using z by simp
  then have "x / u * (1 - 1 / 2 ^ 53) * u \<le> of_int (round_even (x / u)) * u" using u by (intro mult_right_mono) auto
  then show ?thesis using assms u unfolding f64_round_def Let_def u_def [symmetric] by simp
qed

lemma f64_floor_val: "f64_floor x = \<lfloor>f64_val x\<rfloor>"
proof (cases x)
  case (F64 m e)
  have "\<lfloor>of_int m * 2 powi e :: rat\<rfloor> = m div 2 ^ nat (- e)" if "e < 0"
  proof -
    have "of_int m * 2 powi e = (of_int m / of_int (2 ^ nat (- e)) :: rat)"
      using that by (simp add: power_int_def inverse_eq_divide power_divide)
    then show ?thesis by (simp only: floor_divide_of_int_eq)
  qed
  moreover have "\<lfloor>of_int m * 2 powi e :: rat\<rfloor> = m * 2 ^ nat e" if "0 \<le> e"
  proof -
    have "of_int m * 2 powi e = (of_int (m * 2 ^ nat e) :: rat)" using that by (simp add: power_int_def)
    then show ?thesis by (simp only: floor_of_int)
  qed
  ultimately show ?thesis by (simp add: F64 f64_val_def)
qed

lemma f64_of_int_lower: "0 < n \<Longrightarrow> of_int n * (1 - 1 / 2 ^ 53) \<le> f64_val (f64_of_int n)"
  using f64_round_lower [of "of_int n"] by (simp add: f64_of_int_def f64_rnd_correct)

lemma f64_mul_val:
  assumes "0 < f64_val x" "0 < f64_val y"
  shows "f64_val (f64_mul x y) = f64_round (f64_val x * f64_val y)"
proof (cases x; cases y)
  fix a e b f assume x: "x = F64 a e" and y: "y = F64 b f"
  have p: "0 < a * b" using assms by (simp add: x y f64_val_pos_iff)
  show ?thesis using f64_rnd_correct [OF p, of 1 "e + f"] by (simp add: x y f64_val_def power_int_add ac_simps)
qed

lemma f64_mul_lower:
  assumes "0 < f64_val x" "0 < f64_val y"
  shows "f64_val x * f64_val y * (1 - 1 / 2 ^ 53) \<le> f64_val (f64_mul x y)"
  unfolding f64_mul_val [OF assms] using assms by (intro f64_round_lower) simp

text \<open>Rounding is monotone and keeps powers of two.\<close>

lemma round_even_mono: "x \<le> y \<Longrightarrow> round_even x \<le> round_even y"
proof (cases "\<lfloor>x\<rfloor> = \<lfloor>y\<rfloor>")
  case False
  assume "x \<le> y"
  then have "\<lfloor>x\<rfloor> + 1 \<le> \<lfloor>y\<rfloor>" using False floor_mono [of x y] by linarith
  moreover have "round_even x \<le> \<lfloor>x\<rfloor> + 1" "\<lfloor>y\<rfloor> \<le> round_even y" by (simp_all add: round_even_def Let_def)
  ultimately show ?thesis by linarith
qed (simp add: round_even_def Let_def)

lemma round_even_int: "round_even (of_int n) = n"
  by (simp add: round_even_def Let_def)

lemma f64_round_le_pow2:
  assumes "0 < x" "x \<le> 2 powi k"
  shows "f64_round x \<le> 2 powi k"
proof -
  define u where "u = (2::rat) powi (f64_exp x - 52)"
  have u: "0 < u" by (simp add: u_def)
  have r: "f64_round x = of_int (round_even (x / u)) * u" using assms(1) by (simp add: f64_round_def u_def Let_def)
  have "f64_exp x \<le> k"
  proof (rule ccontr)
    assume "\<not> ?thesis"
    then have "(2::rat) powi (k + 1) \<le> 2 powi f64_exp x" by (intro power_int_increasing) simp_all
    moreover have "(2::rat) powi k < 2 powi (k + 1)" by (simp add: power_int_add)
    ultimately show False using f64_exp_bounds(1) [OF assms(1)] assms(2) by linarith
  qed
  then have "k - (f64_exp x - 52) = int (nat (k - f64_exp x + 52))" by simp
  then have "2 powi k / u = of_int (2 ^ nat (k - f64_exp x + 52))"
    unfolding u_def by (metis of_int_numeral of_int_power power_int_diff power_int_of_nat zero_neq_numeral)
  moreover have "x / u \<le> 2 powi k / u" using assms(2) u by (intro divide_right_mono) auto
  ultimately have "round_even (x / u) \<le> 2 ^ nat (k - f64_exp x + 52)"
    using round_even_mono [of "x / u" "of_int (2 ^ nat (k - f64_exp x + 52))"] by (simp only: round_even_int)
  then have "of_int (round_even (x / u)) \<le> (of_int (2 ^ nat (k - f64_exp x + 52)) :: rat)" by (simp only: of_int_le_iff)
  then have "of_int (round_even (x / u)) * u \<le> 2 powi k / u * u"
    using u \<open>2 powi k / u = _\<close> by (intro mult_right_mono) auto
  then show ?thesis using u r by simp
qed

lemma f64_round_ge_exp: "0 < x \<Longrightarrow> 2 powi f64_exp x \<le> f64_round x"
proof -
  assume x: "0 < x"
  define u where "u = (2::rat) powi (f64_exp x - 52)"
  have u: "0 < u" by (simp add: u_def)
  have e: "2 powi f64_exp x = of_int (2 ^ 52) * u" by (simp add: u_def power_int_diff)
  then have "of_int (2 ^ 52) \<le> x / u" using f64_exp_bounds(1) [OF x] u by (simp add: pos_le_divide_eq)
  then have "2 ^ 52 \<le> round_even (x / u)" by (rule round_even_ge)
  then have "of_int (2 ^ 52) * u \<le> of_int (round_even (x / u)) * u"
    using u by (intro mult_right_mono) (simp_all only: of_int_le_iff less_imp_le)
  then show ?thesis using x unfolding e f64_round_def Let_def u_def [symmetric] by simp
qed

lemma f64_round_mono:
  assumes "0 < x" "x \<le> y"
  shows "f64_round x \<le> f64_round y"
proof (cases "f64_exp x = f64_exp y")
  case True
  then show ?thesis using assms round_even_mono [of "x / 2 powi (f64_exp y - 52)" "y / 2 powi (f64_exp y - 52)"]
    by (auto simp: f64_round_def Let_def divide_right_mono intro!: mult_right_mono)
next
  case False
  have "f64_exp x < f64_exp y + 1"
  proof (rule ccontr)
    assume "\<not> ?thesis"
    then have "(2::rat) powi (f64_exp y + 1) \<le> 2 powi f64_exp x" by (intro power_int_increasing) simp_all
    then show False using f64_exp_bounds(1) [OF assms(1)] f64_exp_bounds(2) [of y] assms by linarith
  qed
  then have "(2::rat) powi (f64_exp x + 1) \<le> 2 powi f64_exp y" using False by (intro power_int_increasing) simp_all
  moreover have "f64_round x \<le> 2 powi (f64_exp x + 1)"
    using f64_exp_bounds(2) [OF assms(1)] assms(1) by (intro f64_round_le_pow2) simp_all
  moreover have "2 powi f64_exp y \<le> f64_round y" using assms by (intro f64_round_ge_exp) simp
  ultimately show ?thesis by linarith
qed

lemma f64_of_int_val: "0 < n \<Longrightarrow> f64_val (f64_of_int n) = f64_round (of_int n)"
  by (simp add: f64_of_int_def f64_rnd_correct)

lemma f64_div_val:
  assumes "0 < f64_val x" "0 < f64_val y"
  shows "f64_val (f64_div x y) = f64_round (f64_val x / f64_val y)"
proof (cases x; cases y)
  fix a e b f assume x: "x = F64 a e" and y: "y = F64 b f"
  have p: "0 < a" "0 < b" using assms by (simp_all add: x y f64_val_pos_iff)
  show ?thesis using f64_rnd_correct [OF p, of "e - f"] by (simp add: x y f64_val_def power_int_diff ac_simps)
qed

end
