(* ===== verification/Linear_Ranges.thy ===== *)
theory Linear_Ranges
  imports Start_Level_Split F64
begin

text \<open>
  Models \<open>linear_dist_ranges\<close> of \<open>components/split_or_compact/start_level_files_to_split.rs\<close>: dividing the time
  range of overlapping files into ranges of about the same data density, before split times are chosen.
\<close>

section \<open>The model\<close>

text \<open>
  Wrap-around of \<open>i64\<close> is written out where it can happen: in the length of the time range and of a
  file. When the length of the range wraps, the regions are not computed at all; otherwise every other
  sum and product of times stays between the first and the last timestamp.
\<close>

text \<open>Where a file falls in the hypothetical regions: the regions its first and its last timestamp are in.\<close>

definition region_span :: "int \<Rightarrow> int \<Rightarrow> int \<Rightarrow> parquet_file \<Rightarrow> int \<times> int" where
  "region_span mn delta split_count f =
     (let first_region_idx = min (div_i64 (min_time f - mn) delta) (split_count - 1);
          last_region_idx = min (div_i64 (max_time f - mn - 1) delta) (split_count - 1)
      in (first_region_idx, if first_region_idx > last_region_idx then first_region_idx else last_region_idx))"

definition add_cap :: "int \<Rightarrow> int \<Rightarrow> nat list \<Rightarrow> nat list res" where
  "add_cap i c caps =
     (let k = as_usize i
      in if k < length caps then Inr (caps[k := caps ! k + as_usize c]) else Inl (Panic ''index out of bounds''))"

fun add_caps :: "int list \<Rightarrow> int \<Rightarrow> nat list \<Rightarrow> nat list res" where
  "add_caps [] c caps = Inr caps"
| "add_caps (i # is) c caps = bind_res (add_cap i c caps) (add_caps is c)"

text \<open>The loop body over the files: the bytes each region gets from one file.\<close>

definition file_region_caps :: "int \<Rightarrow> int \<Rightarrow> int \<Rightarrow> parquet_file \<Rightarrow> nat list \<Rightarrow> nat list res" where
  "file_region_caps mn delta split_count f caps =
     (let (first_region_idx, last_region_idx) = region_span mn delta split_count f;
          f_cap = file_size_bytes f
      in assert_res (first_region_idx \<ge> 0) ''invalid first region'' (
         assert_res (last_region_idx \<ge> 0) ''invalid last region'' (
         if first_region_idx = last_region_idx then add_cap first_region_idx f_cap caps
         else
           let first_region_start = mn + first_region_idx * delta;
               last_region_start = mn + last_region_idx * delta;
               total_time = wrap_i64 (max_time f - min_time f + 1);
               time_in_first_region = first_region_start + delta - min_time f;
               time_in_last_region = wrap_i64 (max_time f - last_region_start + 1);
               first_region_cap = div_i64 (f_cap * time_in_first_region) total_time;
               last_region_cap = div_i64 (f_cap * time_in_last_region) total_time
           in assert_res (first_region_start \<le> min_time f) ''invalid first_region_start'' (
              assert_res (last_region_start \<le> max_time f) ''invalid last_region_start'' (
              assert_res (time_in_first_region > 0) ''invalid time_in_first_region'' (
              assert_res (time_in_last_region > 0) ''invalid time_in_last_region'' (
              assert_res (first_region_cap \<ge> 0) ''invalid first_region_cap'' (
              assert_res (last_region_cap \<ge> 0) ''invalid last_region_cap'' (
              bind_res (add_cap first_region_idx first_region_cap caps) (\<lambda>caps.
              bind_res (add_cap last_region_idx last_region_cap caps) (\<lambda>caps.
              if last_region_idx > first_region_idx + 1 then
                let mid_region_cap = div_i64 (f_cap - first_region_cap - last_region_cap)
                                       (last_region_idx - first_region_idx - 1)
                in add_caps [first_region_idx + 1 .. last_region_idx - 1] mid_region_cap caps
              else Inr caps)))))))))))"

fun chain_region_caps :: "int \<Rightarrow> int \<Rightarrow> int \<Rightarrow> files \<Rightarrow> nat list \<Rightarrow> nat list res" where
  "chain_region_caps mn delta split_count [] caps = Inr caps"
| "chain_region_caps mn delta split_count (f # fs) caps =
     bind_res (file_region_caps mn delta split_count f caps) (chain_region_caps mn delta split_count fs)"

text \<open>
  The loop that doubles the number of regions until the data is spread evenly enough; it returns the
  number of regions, their length in time and their bytes.
\<close>

function regions_loop :: "files \<Rightarrow> int \<Rightarrow> int \<Rightarrow> nat \<Rightarrow> nat \<Rightarrow> (nat \<times> int \<times> nat list) res" where
  "regions_loop chain mn mx max_compact_size split_count =
     (let caps = replicate split_count 0;
          delta = div_i64 (wrap_i64 (mx - mn)) (as_i64 split_count)
      in if delta < 1 then Inr (split_count, delta, caps)
         else bind_res (chain_region_caps mn delta (as_i64 split_count) chain caps) (\<lambda>caps.
           case (min_opt caps, max_opt caps) of
             (Some min_region_cap, Some max_region_cap) \<Rightarrow>
               if min_region_cap * 3 div 2 > max_region_cap \<or> max_region_cap < max_compact_size div 2 \<or> delta = 1
               then Inr (split_count, delta, caps)
               else if split_count > 10000 then Inr (split_count, delta, caps)
               else regions_loop chain mn mx max_compact_size (split_count * 2)
           | _ \<Rightarrow> Inl (Panic ''called `Option::unwrap()` on a `None` value'')))"
  by pat_completeness auto
termination
proof (relation "measure (\<lambda>(chain, mn, mx, m, n). 20001 - n)"; clarsimp)
  fix mx mn :: int and split_count :: nat
  assume "\<not> div_i64 (wrap_i64 (mx - mn)) (as_i64 split_count) < 1" "\<not> 10000 < split_count"
  then show "20001 - split_count * 2 < 20001 - split_count"
    by (cases "split_count = 0") (auto simp: div_i64_def as_i64_def)
qed

declare regions_loop.simps [simp del]

text \<open>
  The density of a region relative to that of the regions before it. \<open>None\<close> stands for an infinite
  or undefined quotient (no bytes before), for which the tests below are false.
\<close>

definition relative_density :: "nat \<Rightarrow> int \<Rightarrow> nat \<Rightarrow> int \<Rightarrow> f64 option" where
  "relative_density this_cap this_time prior_cap prior_time =
     (if prior_cap = 0 then None
      else Some (f64_div (f64_div (f64_of_int (int this_cap)) (f64_of_int this_time))
                   (f64_div (f64_of_int (int prior_cap)) (f64_of_int prior_time))))"

fun f64_less :: "f64 \<Rightarrow> f64 \<Rightarrow> bool" where
  "f64_less (F64 a e) (F64 b f) \<longleftrightarrow> a * 2 ^ nat (e - min e f) < b * 2 ^ nat (f - min e f)"

text \<open>Is a density between the quotients of two pairs of integers, the constants of the source?\<close>

definition density_between :: "int \<times> int \<Rightarrow> int \<times> int \<Rightarrow> f64 option \<Rightarrow> bool" where
  "density_between lo hi d \<longleftrightarrow>
     (case d of None \<Rightarrow> False
      | Some x \<Rightarrow> f64_less (f64_div (f64_of_int (fst lo)) (f64_of_int (snd lo))) x
                \<and> f64_less x (f64_div (f64_of_int (fst hi)) (f64_of_int (snd hi))))"

record consolidated =
  con_min :: int
  con_max :: int
  con_cap :: nat
  con_cnt :: nat

definition mergeable :: "nat \<Rightarrow> nat \<Rightarrow> nat \<Rightarrow> f64 option \<Rightarrow> bool" where
  "mergeable max_compact_size this_cap prior_cap d \<longleftrightarrow>
     density_between (1, 2) (3, 2) d
     \<or> prior_cap + this_cap < max_compact_size
     \<or> prior_cap + this_cap < max_compact_size * 2 \<and> density_between (3, 10) (2, 1) d
     \<or> this_cap * 5 < prior_cap \<and> density_between (3, 10) (2, 1) d"

fun consolidate :: "int \<Rightarrow> int \<Rightarrow> nat \<Rightarrow> nat \<Rightarrow> nat list \<Rightarrow> consolidated \<Rightarrow> file_range list \<Rightarrow> consolidated \<times> file_range list" where
  "consolidate mn delta max_compact_size i [] con rs = (con, rs)"
| "consolidate mn delta max_compact_size i (this_cap # caps) con rs =
     (let this_min = mn + int i * delta;
          this_max = mn + (int i + 1) * delta - 1;
          fresh = \<lparr>con_min = this_min, con_max = this_max, con_cap = this_cap, con_cnt = 1\<rparr>
      in if con_cnt con > 0 then
           if mergeable max_compact_size this_cap (con_cap con)
                (relative_density this_cap (this_max - this_min + 1) (con_cap con) (con_max con - con_min con + 1))
           then consolidate mn delta max_compact_size (i + 1) caps
                  (con\<lparr>con_max := this_max, con_cap := con_cap con + this_cap, con_cnt := con_cnt con + 1\<rparr>) rs
           else consolidate mn delta max_compact_size (i + 1) caps fresh
                  (rs @ [\<lparr>fr_min = con_min con, fr_max = con_max con, fr_cap = con_cap con\<rparr>])
         else consolidate mn delta max_compact_size (i + 1) caps fresh rs)"

definition linear_dist_ranges :: "files \<Rightarrow> nat \<Rightarrow> nat \<Rightarrow> file_range list res" where
  "linear_dist_ranges chain cap max_compact_size =
     (case (min_opt (map min_time chain), max_opt (map max_time chain)) of
        (Some mn, Some mx) \<Rightarrow>
          assert_res (max_compact_size div 2 \<noteq> 0) ''attempt to divide by zero'' (
          let split_count = cap div (max_compact_size div 2)
          in if split_count < 2 then Inr [\<lparr>fr_min = mn, fr_max = mx, fr_cap = cap\<rparr>]
             else bind_res (regions_loop chain mn mx max_compact_size split_count) (\<lambda>(split_count, delta, caps).
               if as_i64 split_count \<ge> wrap_i64 (mx - mn) then
                 Inr (map (\<lambda>t. \<lparr>fr_min = t, fr_max = t, fr_cap = cap div as_usize (wrap_i64 (mx - mn + 1))\<rparr>)
                   [mn..wrap_i64 (mx + 1) - 1])
               else
                 let (con, rs) = consolidate mn delta max_compact_size 0 (take split_count caps)
                       \<lparr>con_min = 0, con_max = 0, con_cap = 0, con_cnt = 0\<rparr> []
                 in Inr (if con_cnt con > 0
                         then rs @ [\<lparr>fr_min = con_min con, fr_max = con_max con, fr_cap = con_cap con\<rparr>]
                         else rs)))
      | _ \<Rightarrow> Inl (Panic ''called `Option::unwrap()` on a `None` value''))"


section \<open>The bytes of the regions\<close>

lemma add_cap_ok:
  assumes "0 \<le> i" "i < int (length caps)" "length caps < 2 ^ 64" "0 \<le> c" "c < 2 ^ 64"
  shows "\<exists>caps'. add_cap i c caps = Inr caps' \<and> length caps' = length caps \<and> sum_list caps' = sum_list caps + nat c"
proof -
  have "as_usize i = nat i" "as_usize c = nat c" using assms by (simp_all add: as_usize_nonneg)
  moreover have "nat i < length caps" using assms by simp
  ultimately show ?thesis by (simp add: add_cap_def sum_list_update Let_def elem_le_sum_list)
qed

lemma add_caps_ok:
  assumes "length caps < 2 ^ 64" "0 \<le> c" "c < 2 ^ 64" "\<forall>i \<in> set is. 0 \<le> i \<and> i < int (length caps)"
  shows "\<exists>caps'. add_caps is c caps = Inr caps' \<and> length caps' = length caps
    \<and> sum_list caps' = sum_list caps + length is * nat c"
  using assms
proof (induction "is" arbitrary: caps)
  case (Cons i "is")
  then obtain c1 where c1: "add_cap i c caps = Inr c1" "length c1 = length caps" "sum_list c1 = sum_list caps + nat c"
    using add_cap_ok [of i caps c] by auto
  obtain c2 where "add_caps is c c1 = Inr c2" "length c2 = length c1" "sum_list c2 = sum_list c1 + length is * nat c"
    using Cons.IH [of c1] Cons.prems c1(2) by auto
  with c1 show ?case by simp
qed simp

lemma div_mult_le_int: "0 < (d::int) \<Longrightarrow> x div d * d \<le> x"
  using pos_mod_sign [of d x] by (simp add: minus_mod_eq_div_mult [symmetric])

lemma lt_div_mult_int: "0 < (d::int) \<Longrightarrow> x < (x div d + 1) * d"
  using pos_mod_bound [of d x] div_mult_mod_eq [of x d] unfolding distrib_right mult_1 by linarith

lemma div_i64_nonpos: "x \<le> 0 \<Longrightarrow> 0 < d \<Longrightarrow> div_i64 x d \<le> 0"
  by (auto simp: div_i64_def sgn_if pos_imp_zdiv_nonneg_iff)

text \<open>The regions of a file that spans more than one.\<close>

lemma region_span_bounds:
  assumes d: "1 \<le> delta" and n: "1 \<le> n" and f: "mn \<le> min_time f" "wf_file f"
    and s: "region_span mn delta n f = (i, l)"
  shows "0 \<le> i \<and> i \<le> l \<and> l \<le> n - 1"
    and "i \<noteq> l \<Longrightarrow> mn + i * delta \<le> min_time f \<and> min_time f < mn + (i + 1) * delta \<and> mn + l * delta < max_time f"
proof -
  define a where "a = (min_time f - mn) div delta"
  have a0: "div_i64 (min_time f - mn) delta = a" "0 \<le> a"
    using d f by (simp_all add: a_def div_i64_nonneg pos_imp_zdiv_nonneg_iff)
  let ?l = "min (div_i64 (max_time f - mn - 1) delta) (n - 1)"
  have il: "i = min a (n - 1)" "l = (if i > ?l then i else ?l)" using s a0 by (auto simp: region_span_def Let_def)
  then show "0 \<le> i \<and> i \<le> l \<and> l \<le> n - 1" using a0(2) n by auto
  assume ne: "i \<noteq> l"
  then have l: "l = ?l" "i < l" using il(2) by (auto split: if_splits)
  then have ia: "i = a" using il(1) by auto
  have "0 < div_i64 (max_time f - mn - 1) delta" using l a0(2) n il(1) by (auto simp: min_def split: if_splits)
  then have "0 < max_time f - mn - 1" using d div_i64_nonpos [of "max_time f - mn - 1" delta] by force
  then have "l * delta \<le> (max_time f - mn - 1) div delta * delta"
    using l(1) d by (intro mult_right_mono) (auto simp: div_i64_nonneg)
  also have "\<dots> \<le> max_time f - mn - 1" using d by (intro div_mult_le_int) simp
  finally have "mn + l * delta < max_time f" by simp
  moreover have "a * delta \<le> min_time f - mn" unfolding a_def using d by (intro div_mult_le_int) simp
  moreover have "min_time f - mn < (a + 1) * delta"
    unfolding a_def using d by (intro lt_div_mult_int) simp
  ultimately show "mn + i * delta \<le> min_time f \<and> min_time f < mn + (i + 1) * delta \<and> mn + l * delta < max_time f"
    by (simp add: ia algebra_simps)
qed

text \<open>The shares of the first and the last region are at most the whole.\<close>

lemma shares_le:
  assumes "0 \<le> (c::int)" "0 \<le> a" "0 \<le> b" "a + b \<le> t" "0 < t"
  shows "0 \<le> div_i64 (c * a) t" "0 \<le> div_i64 (c * b) t" "div_i64 (c * a) t + div_i64 (c * b) t \<le> c"
proof -
  have e: "div_i64 (c * a) t = c * a div t" "div_i64 (c * b) t = c * b div t" using assms by (simp_all add: div_i64_nonneg)
  show "0 \<le> div_i64 (c * a) t" "0 \<le> div_i64 (c * b) t" unfolding e using assms by (simp_all add: pos_imp_zdiv_nonneg_iff)
  have "c * a div t * t \<le> c * a" "c * b div t * t \<le> c * b" using assms(5) by (simp_all add: div_mult_le_int)
  then have "(c * a div t + c * b div t) * t \<le> c * (a + b)" by (simp add: algebra_simps)
  also have "\<dots> \<le> c * t" using assms by (intro mult_left_mono) auto
  finally show "div_i64 (c * a) t + div_i64 (c * b) t \<le> c" unfolding e using assms(5) by simp
qed

lemma file_region_caps_ok:
  assumes d: "1 \<le> delta" and n: "1 \<le> n" "n < 2 ^ 63" and f: "mn \<le> min_time f" "wf_file f" "0 \<le> file_size_bytes f" "file_size_bytes f < 2 ^ 63"
    and span: "max_time f - mn < 2 ^ 63 - 1" and len: "int (length caps) = n"
  shows "\<exists>caps'. file_region_caps mn delta n f caps = Inr caps' \<and> length caps' = length caps
    \<and> sum_list caps' \<le> sum_list caps + nat (file_size_bytes f)"
proof -
  obtain i l where s: "region_span mn delta n f = (i, l)" by fastforce
  note b = region_span_bounds [OF d n(1) f(1,2) s]
  have lc: "length caps < 2 ^ 64" using len n by simp
  show ?thesis
  proof (cases "i = l")
    case True
    then show ?thesis using add_cap_ok [of i caps "file_size_bytes f"] b(1) len lc f
      by (auto simp: file_region_caps_def s)
  next
    case False
    define tt where "tt = max_time f - min_time f + 1"
    define t1 where "t1 = mn + i * delta + delta - min_time f"
    define t2 where "t2 = max_time f - (mn + l * delta) + 1"
    define c1 where "c1 = div_i64 (file_size_bytes f * t1) tt"
    define c2 where "c2 = div_i64 (file_size_bytes f * t2) tt"
    define js where "js = [i + 1..l - 1]"
    define m where "m = div_i64 (file_size_bytes f - c1 - c2) (l - i - 1)"
    note g = b(2) [OF False]
    have t: "0 < t1" "0 < t2" "0 < tt" using g f(2) by (auto simp: t1_def t2_def tt_def wf_file_def algebra_simps)
    have "(i + 1) * delta \<le> l * delta" using False b(1) d by (intro mult_right_mono) auto
    then have t12: "t1 + t2 \<le> tt" by (simp add: t1_def t2_def tt_def algebra_simps)
    have "tt < 2 ^ 63" using span f(1) by (simp add: tt_def)
    then have w: "wrap_i64 tt = tt" "wrap_i64 t2 = t2" using t t12 by (simp_all add: wrap_i64_id)
    from t12 have c: "0 \<le> c1" "0 \<le> c2" "c1 + c2 \<le> file_size_bytes f"
      using shares_le [OF f(3), of t1 t2 tt] t by (simp_all add: c1_def c2_def)
    obtain caps1 where s1: "add_cap i c1 caps = Inr caps1" "length caps1 = length caps" "sum_list caps1 = sum_list caps + nat c1"
      using add_cap_ok [of i caps c1] b(1) len lc c f(4) by fastforce
    obtain caps2 where s2: "add_cap l c2 caps1 = Inr caps2" "length caps2 = length caps" "sum_list caps2 = sum_list caps1 + nat c2"
      using add_cap_ok [of l caps1 c2] b(1) len lc c f(4) s1(2) by fastforce
    have e: "file_region_caps mn delta n f caps = (if l > i + 1 then add_caps js m caps2 else Inr caps2)"
      using b(1) False g t c s1 s2
      by (simp add: file_region_caps_def s Let_def w [unfolded tt_def t2_def] tt_def t1_def t2_def c1_def c2_def js_def m_def)
    have s12: "sum_list caps2 + nat (file_size_bytes f - c1 - c2) = sum_list caps + nat (file_size_bytes f)"
      using s1(3) s2(3) c by simp
    show ?thesis
    proof (cases "l > i + 1")
      case True
      have "m = (file_size_bytes f - c1 - c2) div (l - i - 1)" using True c by (simp add: m_def div_i64_nonneg)
      moreover have "0 \<le> file_size_bytes f - c1 - c2" using c by simp
      ultimately have m0: "0 \<le> m" "m * (l - i - 1) \<le> file_size_bytes f - c1 - c2"
        using True by (simp_all add: pos_imp_zdiv_nonneg_iff div_mult_le_int)
      have "m * 1 \<le> m * (l - i - 1)" using m0(1) True by (intro mult_left_mono) auto
      then have m1: "m \<le> file_size_bytes f" using m0(2) c by linarith
      have "length js = nat (l - i - 1)" by (simp add: js_def)
      then have "int (length js * nat m) = m * (l - i - 1)" using True m0(1) by simp
      then have "length js * nat m \<le> nat (file_size_bytes f - c1 - c2)" using m0(2) by linarith
      moreover have "\<forall>j \<in> set js. 0 \<le> j \<and> j < int (length caps2)" using b(1) s2(2) len by (auto simp: js_def)
      then obtain caps3 where "add_caps js m caps2 = Inr caps3" "length caps3 = length caps"
        "sum_list caps3 = sum_list caps2 + length js * nat m"
        using add_caps_ok [of caps2 m js] m0(1) m1 s2(2) lc f(4) by fastforce
      ultimately show ?thesis using True e s12 by simp
    qed (use e s2(2) s12 in simp)
  qed
qed

definition nat_sizes :: "files \<Rightarrow> nat" where
  "nat_sizes fs = sum_list (map (\<lambda>f. nat (file_size_bytes f)) fs)"

definition regions_pre :: "files \<Rightarrow> int \<Rightarrow> bool" where
  "regions_pre chain mn \<longleftrightarrow> list_all (\<lambda>f. mn \<le> min_time f \<and> max_time f - mn < 2 ^ 63 - 1 \<and> wf_file f \<and> 0 \<le> file_size_bytes f \<and> file_size_bytes f < 2 ^ 63) chain"

lemma chain_region_caps_ok:
  assumes "regions_pre chain mn" "1 \<le> delta" "1 \<le> n" "n < 2 ^ 63" "int (length caps) = n"
  shows "\<exists>caps'. chain_region_caps mn delta n chain caps = Inr caps' \<and> length caps' = length caps
    \<and> sum_list caps' \<le> sum_list caps + nat_sizes chain"
  using assms
proof (induction chain arbitrary: caps)
  case (Cons f fs)
  then obtain c1 where c1: "file_region_caps mn delta n f caps = Inr c1" "length c1 = length caps"
    "sum_list c1 \<le> sum_list caps + nat (file_size_bytes f)"
    using file_region_caps_ok [of delta n mn f caps] by (auto simp: regions_pre_def)
  obtain c2 where "chain_region_caps mn delta n fs c1 = Inr c2" "length c2 = length c1" "sum_list c2 \<le> sum_list c1 + nat_sizes fs"
    using Cons.IH [of c1] Cons.prems c1(2) by (auto simp: regions_pre_def)
  with c1 show ?case by (simp add: nat_sizes_def)
qed (simp add: nat_sizes_def)

lemma regions_loop_ok:
  assumes "regions_pre chain mn" "mn \<le> mx" "1 \<le> n" "n < 2 ^ 63" "mx - mn < 2 ^ 63"
  shows "\<exists>n' delta caps. regions_loop chain mn mx m n = Inr (n', delta, caps) \<and> 1 \<le> n' \<and> n' < 2 ^ 63
    \<and> length caps = n' \<and> delta = (mx - mn) div int n' \<and> sum_list caps \<le> nat_sizes chain"
  using assms
proof (induction chain mn mx m n rule: regions_loop.induct)
  case (1 chain mn mx m n)
  have n: "as_i64 n = int n" using 1(5) by (simp add: as_i64_small)
  define delta where "delta = (mx - mn) div int n"
  have "wrap_i64 (mx - mn) = mx - mn" using 1(3,6) by (simp add: wrap_i64_id)
  then have d: "div_i64 (wrap_i64 (mx - mn)) (as_i64 n) = delta" using 1(3,4) by (simp add: n delta_def div_i64_nonneg)
  show ?case
  proof (cases "delta < 1")
    case True
    then show ?thesis using 1(4,5) d
      by (subst regions_loop.simps) (simp add: Let_def n delta_def sum_list_replicate)
  next
    case False
    then obtain caps where c: "chain_region_caps mn delta (int n) chain (replicate n 0) = Inr caps" "length caps = n"
      "sum_list caps \<le> nat_sizes chain"
      using chain_region_caps_ok [OF 1(2), of delta "int n" "replicate n 0"] 1(4,5) by (auto simp: sum_list_replicate)
    then obtain lo hi where lh: "min_opt caps = Some lo" "max_opt caps = Some hi"
      using 1(4) by (metis min_opt_None max_opt_None option.exhaust list.size(3) not_one_le_zero)
    show ?thesis
    proof (cases "lo * 3 div 2 > hi \<or> hi < m div 2 \<or> delta = 1 \<or> n > 10000")
      case True
      then have "regions_loop chain mn mx m n = Inr (n, delta, caps)"
        using False d n c lh by (subst regions_loop.simps) (auto simp: Let_def)
      then show ?thesis using c 1(4,5) delta_def by auto
    next
      case more: False
      then have e: "regions_loop chain mn mx m n = regions_loop chain mn mx m (n * 2)"
        using False d n c lh by (subst regions_loop.simps) (simp add: Let_def)
      show ?thesis unfolding e
        by (rule 1(1) [OF refl refl _ c(1) [folded n d] refl lh])
          (use more False 1(2,3,4,5,6) d in \<open>auto\<close>)
    qed
  qed
qed

section \<open>The ranges\<close>

text \<open>The ranges are non-empty and cover the interval without gaps or overlaps.\<close>

fun covers :: "int \<Rightarrow> file_range list \<Rightarrow> int \<Rightarrow> bool" where
  "covers a [] b \<longleftrightarrow> b = a - 1"
| "covers a (r # rs) b \<longleftrightarrow> fr_min r = a \<and> a \<le> fr_max r \<and> covers (fr_max r + 1) rs b"

lemma covers_append: "covers a (xs @ ys) c \<longleftrightarrow> (\<exists>b. covers a xs b \<and> covers (b + 1) ys c)"
  by (induction xs arbitrary: a) auto

definition con_range :: "consolidated \<Rightarrow> file_range" where
  "con_range con = \<lparr>fr_min = con_min con, fr_max = con_max con, fr_cap = con_cap con\<rparr>"

lemma consolidate_ok:
  assumes "1 \<le> delta" "0 < con_cnt con" "covers mn (rs @ [con_range con]) (mn + int i * delta - 1)"
    and "consolidate mn delta m i caps con rs = (con', rs')"
  shows "0 < con_cnt con' \<and> covers mn (rs' @ [con_range con']) (mn + int (i + length caps) * delta - 1)
    \<and> sum_list (map fr_cap (rs' @ [con_range con'])) = sum_list (map fr_cap (rs @ [con_range con])) + sum_list caps"
  using assms
proof (induction mn delta m i caps con rs rule: consolidate.induct)
  case (2 mn delta m i c caps con rs)
  let ?mn = "mn + int i * delta" and ?mx = "mn + (int i + 1) * delta - 1"
  let ?fresh = "\<lparr>con_min = ?mn, con_max = ?mx, con_cap = c, con_cnt = 1\<rparr>"
  let ?merge = "mergeable m c (con_cap con) (relative_density c (?mx - ?mn + 1) (con_cap con) (con_max con - con_min con + 1))"
  have mx: "?mn \<le> ?mx" "?mx = mn + int (i + 1) * delta - 1" using 2(4) by (simp_all add: algebra_simps)
  obtain b where b: "covers mn rs b" "con_min con = b + 1" "b + 1 \<le> con_max con" "con_max con = ?mn - 1"
    using 2(6) by (auto simp: covers_append con_range_def)
  show ?case
  proof (cases ?merge)
    case True
    let ?con = "con\<lparr>con_max := ?mx, con_cap := con_cap con + c, con_cnt := con_cnt con + 1\<rparr>"
    have "covers mn (rs @ [con_range ?con]) (mn + int (i + 1) * delta - 1)"
      using b 2(4) by (auto simp: covers_append con_range_def algebra_simps)
    moreover have "consolidate mn delta m (i + 1) caps ?con rs = (con', rs')" using 2(5,7) True by simp
    ultimately show ?thesis using 2(1) [OF refl refl refl 2(5) True 2(4)] by (simp add: con_range_def)
  next
    case False
    let ?rs = "rs @ [con_range con]"
    have "covers mn (?rs @ [con_range ?fresh]) (mn + int (i + 1) * delta - 1)"
      using b 2(4) by (auto simp: covers_append con_range_def algebra_simps)
    moreover have "consolidate mn delta m (i + 1) caps ?fresh ?rs = (con', rs')"
      using 2(5,7) False by (simp add: con_range_def)
    ultimately show ?thesis using 2(2) [OF refl refl refl 2(5) False 2(4)] by (simp add: con_range_def)
  qed
qed (simp add: con_range_def)

lemma consolidate_from_start:
  assumes "1 \<le> delta" "caps \<noteq> []"
    and "consolidate mn delta m 0 caps \<lparr>con_min = 0, con_max = 0, con_cap = 0, con_cnt = 0\<rparr> [] = (con', rs')"
  shows "0 < con_cnt con' \<and> covers mn (rs' @ [con_range con']) (mn + int (length caps) * delta - 1)
    \<and> sum_list (map fr_cap (rs' @ [con_range con'])) = sum_list caps"
proof -
  obtain c cs where c: "caps = c # cs" using assms(2) by (cases caps) auto
  let ?con = "\<lparr>con_min = mn, con_max = mn + delta - 1, con_cap = c, con_cnt = 1\<rparr>"
  have "consolidate mn delta m 1 cs ?con [] = (con', rs')" using assms(3) by (simp add: c)
  from consolidate_ok [OF assms(1) _ _ this] show ?thesis using assms(1) by (simp add: c con_range_def)
qed

lemma covers_each_ns:
  "mn \<le> mx + 1 \<Longrightarrow> covers mn (map (\<lambda>t. \<lparr>fr_min = t, fr_max = t, fr_cap = c\<rparr>) [mn..mx]) mx"
proof (induction "nat (mx + 1 - mn)" arbitrary: mn)
  case (Suc n)
  then have "covers (mn + 1) (map (\<lambda>t. \<lparr>fr_min = t, fr_max = t, fr_cap = c\<rparr>) [mn + 1..mx]) mx" by simp
  then show ?case using Suc by (simp add: upto_rec1)
qed simp

lemma linear_dist_ranges_result:
  assumes "chain \<noteq> []" "list_all (\<lambda>f. wf_file f \<and> 0 \<le> file_size_bytes f \<and> file_size_bytes f < 2 ^ 63) chain"
    and "min_opt (map min_time chain) = Some mn" "max_opt (map max_time chain) = Some mx"
    and "- (2 ^ 63) \<le> mn" "mx < 2 ^ 63 - 1" "mx - mn < 2 ^ 63 - 1"
    and "cap = nat_sizes chain" "cap < 2 ^ 63" "2 \<le> max_compact_size"
  shows "\<exists>rs e. linear_dist_ranges chain cap max_compact_size = Inr rs \<and> rs \<noteq> [] \<and> covers mn rs e \<and> e \<le> mx
    \<and> sum_list (map fr_cap rs) \<le> cap"
proof -
  have b: "\<forall>f \<in> set chain. mn \<le> min_time f \<and> max_time f \<le> mx"
    using min_opt_Some [OF assms(3)] max_opt_Some [OF assms(4)] by auto
  obtain f where "f \<in> set chain" using assms(1) by (cases chain) auto
  then have mnmx: "mn \<le> mx" using b assms(2) by (fastforce simp: list_all_iff wf_file_def)
  have pre: "regions_pre chain mn" using assms(2,7) b by (fastforce simp: regions_pre_def list_all_iff)
  have w: "wrap_i64 (mx - mn) = mx - mn" "wrap_i64 (mx - mn + 1) = mx - mn + 1" "wrap_i64 (mx + 1) = mx + 1"
    using mnmx assms(5-7) by (simp_all add: wrap_i64_id)
  have m: "max_compact_size div 2 \<noteq> 0" using assms(10) by simp
  show ?thesis
  proof (cases "cap div (max_compact_size div 2) < 2")
    case True
    then have "linear_dist_ranges chain cap max_compact_size = Inr [\<lparr>fr_min = mn, fr_max = mx, fr_cap = cap\<rparr>]"
      using m by (simp add: linear_dist_ranges_def assms(3,4) Let_def)
    then show ?thesis using mnmx by (intro exI [of _ "[\<lparr>fr_min = mn, fr_max = mx, fr_cap = cap\<rparr>]"] exI [of _ mx]) simp
  next
    case many: False
    have "cap div (max_compact_size div 2) < 2 ^ 63" using assms(9) by (meson div_le_dividend le_less_trans)
    then obtain n delta caps where r: "regions_loop chain mn mx max_compact_size (cap div (max_compact_size div 2)) = Inr (n, delta, caps)"
      "1 \<le> n" "n < 2 ^ 63" "length caps = n" "delta = (mx - mn) div int n" "sum_list caps \<le> cap"
      using regions_loop_ok [OF pre mnmx, of "cap div (max_compact_size div 2)" max_compact_size] many assms(7,8) by auto
    show ?thesis
    proof (cases "int n \<ge> mx - mn")
      case True
      let ?rs = "map (\<lambda>t. \<lparr>fr_min = t, fr_max = t, fr_cap = cap div nat (mx - mn + 1)\<rparr>) [mn..mx]"
      have u: "as_usize (mx - mn + 1) = nat (mx - mn + 1)" using mnmx assms(7) by (intro as_usize_nonneg) simp_all
      have "linear_dist_ranges chain cap max_compact_size = Inr ?rs"
        using m many r True by (simp add: linear_dist_ranges_def assms(3,4) Let_def as_i64_small u w)
      moreover have "sum_list (map fr_cap ?rs) = nat (mx - mn + 1) * (cap div nat (mx - mn + 1))"
        by (simp add: comp_def sum_list_triv)
      moreover have "\<dots> \<le> cap" by simp
      moreover have "covers mn ?rs mx" using mnmx by (intro covers_each_ns) simp
      moreover have "?rs \<noteq> []" using mnmx by simp
      ultimately show ?thesis by (intro exI [of _ ?rs] exI [of _ mx]) simp
    next
      case False
      then have d: "1 \<le> delta" using r(2,5) mnmx by (simp add: pos_imp_zdiv_pos_iff int_one_le_iff_zero_less)
      obtain con rs where c: "consolidate mn delta max_compact_size 0 caps \<lparr>con_min = 0, con_max = 0, con_cap = 0, con_cnt = 0\<rparr> [] = (con, rs)"
        by fastforce
      have "caps \<noteq> []" using r(2,4) by auto
      note k = consolidate_from_start [OF d this c]
      have "linear_dist_ranges chain cap max_compact_size = Inr (rs @ [con_range con])"
        using m many r False k c by (simp add: linear_dist_ranges_def assms(3,4) Let_def as_i64_small con_range_def w)
      moreover have "int n * delta \<le> mx - mn" using r(2,5) div_mult_le_int [of "int n" "mx - mn"] by (simp add: mult.commute)
      ultimately show ?thesis using k r(4,6)
        by (intro exI [of _ "rs @ [con_range con]"] exI [of _ "mn + int n * delta - 1"]) simp
    qed
  qed
qed

text \<open>
  C22. Estimating the distribution of the data ends, and none of its assertions or index operations
  fails, when the length of the time range, counted in timestamps, fits in \<open>i64\<close> and the last
  timestamp is not \<open>i64::MAX\<close>. The ranges start at the first timestamp, follow each other without gaps
  or overlaps, end at or before the last timestamp, and hold no more bytes than the files.
\<close>

theorem linear_dist_ranges_ok:
  assumes "chain \<noteq> []" "list_all (\<lambda>f. wf_file f \<and> 0 \<le> file_size_bytes f \<and> file_size_bytes f < 2 ^ 63) chain"
    and "min_opt (map min_time chain) = Some mn" "max_opt (map max_time chain) = Some mx"
    and "- (2 ^ 63) \<le> mn" "mx < 2 ^ 63 - 1" "mx - mn < 2 ^ 63 - 1"
    and "cap = nat_sizes chain" "cap < 2 ^ 63" "2 \<le> max_compact_size"
  shows "\<exists>rs e. linear_dist_ranges chain cap max_compact_size = Inr rs \<and> rs \<noteq> [] \<and> covers mn rs e \<and> e \<le> mx
    \<and> sum_list (map fr_cap rs) \<le> cap"
  using linear_dist_ranges_result [OF assms] .

theorem linear_dist_ranges_ok_witness:
  "\<exists>rs e. linear_dist_ranges [file_of 1 Initial 0 9 60 5, file_of 2 Initial 5 19 60 2] 120 50 = Inr rs
     \<and> rs \<noteq> [] \<and> covers 0 rs e \<and> e \<le> 19 \<and> sum_list (map fr_cap rs) \<le> 120"
  by (rule linear_dist_ranges_ok) (simp_all add: file_of_def wf_file_def nat_sizes_def)

end
