(* ===== verification/Planner.thy ===== *)
theory Planner
  imports File_Classification F64
begin

text \<open>
  Models \<open>components/ir_planner/planner_v1.rs\<close> and \<open>plan_ir.rs\<close>: turning a classification into plans.
  The lemmas show that computing split times ends, and that the plans meet what the query planner
  demands of split times.
\<close>

section \<open>Plans\<close>

record 'path file_ir =
  ir_file :: parquet_file
  ir_path :: 'path
  ir_order :: int

datatype 'path plan_ir =
    PlanCompact "'path file_ir list" compaction_level compact_reason
  | PlanSplit "'path file_ir list" "int list" compaction_level split_reason
  | PlanNone none_reason

fun plan_target_level :: "'path plan_ir \<Rightarrow> compaction_level res" where
  "plan_target_level (PlanCompact _ lv _) = Inr lv"
| "plan_target_level (PlanSplit _ _ lv _) = Inr lv"
| "plan_target_level (PlanNone _) = Inl (Panic ''filter out None plans before calling target_level'')"

fun n_output_files :: "'path plan_ir \<Rightarrow> nat" where
  "n_output_files (PlanCompact _ _ _) = 1"
| "n_output_files (PlanSplit _ ts _ _) = length ts + 1"
| "n_output_files (PlanNone _) = 0"

fun input_files :: "'path plan_ir \<Rightarrow> 'path file_ir list" where
  "input_files (PlanCompact fs _ _) = fs"
| "input_files (PlanSplit fs _ _ _) = fs"
| "input_files (PlanNone _) = []"

fun n_input_files :: "'path plan_ir \<Rightarrow> nat" where
  "n_input_files (PlanCompact fs _ _) = length fs"
| "n_input_files (PlanSplit fs _ _ _) = length fs"
| "n_input_files (PlanNone _) = 0"

definition input_parquet_files :: "'path plan_ir \<Rightarrow> files" where
  "input_parquet_files p = map ir_file (input_files p)"

definition input_paths :: "'path plan_ir \<Rightarrow> 'path list" where
  "input_paths p = map ir_path (input_files p)"

definition input_bytes :: "'path plan_ir \<Rightarrow> int" where
  "input_bytes p = wrap_i64 (sum_list (map (\<lambda>ir. file_size_bytes (ir_file ir)) (input_files p)))"

section \<open>The planner\<close>

record v1_planner =
  max_desired_file_size_bytes :: nat
  percentage_max_file_size :: nat
  split_percentage :: nat

definition cutoff_bytes :: "nat \<Rightarrow> nat \<Rightarrow> nat \<times> nat" where
  "cutoff_bytes max_desired pct = (max_desired * pct mod 2 ^ 64 div 100, max_desired * (100 + pct) mod 2 ^ 64 div 100)"

definition time_range_present :: "timestamp_min_max list \<Rightarrow> int \<Rightarrow> int \<Rightarrow> bool" where
  "time_range_present chunk_times mn mx = list_ex (\<lambda>c. mm_max c \<ge> mn \<and> mm_min c \<le> mx) chunk_times"

partial_function (option) split_time_loop ::
    "timestamp_min_max list \<Rightarrow> int \<Rightarrow> int \<Rightarrow> int \<Rightarrow> int list \<Rightarrow> int list option" where
  [code]: "split_time_loop chunk_times interval mx mn acc =
     (let split_time = wrap_i64 (mn + interval)
      in if split_time \<ge> mx then Some acc
         else split_time_loop chunk_times interval mx split_time
                (if time_range_present chunk_times mn split_time then acc @ [split_time] else acc))"

definition split_interval :: "int \<Rightarrow> int \<Rightarrow> nat \<Rightarrow> nat \<Rightarrow> int" where
  "split_interval mn mx total_size max_desired =
     saturate_i64 (f64_ceil
       (f64_mul (f64_of_int (wrap_i64 (mx - mn)))
         (f64_div (f64_of_int (int max_desired)) (f64_of_int (int total_size)))))"

definition compute_split_time :: "timestamp_min_max list \<Rightarrow> int \<Rightarrow> int \<Rightarrow> nat \<Rightarrow> nat \<Rightarrow> int list res" where
  "compute_split_time chunk_times mn mx total_size max_desired =
     (if total_size \<le> max_desired then Inr [mx]
      else if mn = mx then Inr [mx]
      else case split_time_loop chunk_times (split_interval mn mx total_size max_desired) mx mn [] of
             Some ts \<Rightarrow> Inr ts
           | None \<Rightarrow> Inl Diverges)"

text \<open>The position of a file in the deduplication order.\<close>

fun chunk_order :: "compaction_level \<Rightarrow> compaction_level \<Rightarrow> timestamp \<Rightarrow> int res" where
  "chunk_order Initial Initial t = Inr t"
| "chunk_order Initial FileNonOverlapped t = Inr t"
| "chunk_order FileNonOverlapped Final t = Inr t"
| "chunk_order FileNonOverlapped FileNonOverlapped t = Inr 0"
| "chunk_order Final Final t = Inr 0"
| "chunk_order _ _ _ = Inl (Panic ''Invalid compaction level combination'')"

definition make_file_ir :: "compaction_level \<Rightarrow> (parquet_file \<times> uuid) \<times> 'path \<Rightarrow> 'path file_ir res" where
  "make_file_ir lv = (\<lambda>((f, oid), path).
     bind_res (chunk_order (compaction_level f) lv (max_l0_created_at f)) (\<lambda>ord.
       Inr \<lparr>ir_file = f\<lparr>object_store_id := oid\<rparr>, ir_path = path, ir_order = ord\<rparr>))"

definition compact_plan :: "v1_planner \<Rightarrow> files \<Rightarrow> 'path list \<Rightarrow> uuid list \<Rightarrow> compact_reason \<Rightarrow> compaction_level
    \<Rightarrow> 'path plan_ir res" where
  "compact_plan pl fs paths oids reason lv =
     (let total_size = as_usize (sum_list (map file_size_bytes fs))
      in bind_res (map_res (\<lambda>f. timestamp_min_max_new (min_time f) (max_time f)) fs) (\<lambda>chunk_times.
         case (min_opt (map min_time fs), max_opt (map max_time fs)) of
           (Some mn, Some mx) \<Rightarrow>
             let (small, large) = cutoff_bytes (max_desired_file_size_bytes pl) (percentage_max_file_size pl)
             in bind_res (map_res (make_file_ir lv) (zip (zip fs oids) paths)) (\<lambda>irs.
                if total_size \<le> small \<or> reason = ManySmallFilesReason then Inr (PlanCompact irs lv reason)
                else bind_res
                  (if small < total_size \<and> total_size \<le> large
                   then Inr [wrap_i64 (mn + div_i64 (wrap_i64 (wrap_i64 (mx - mn) * int (split_percentage pl))) 100)]
                   else compute_split_time chunk_times mn mx total_size (max_desired_file_size_bytes pl)) (\<lambda>ts.
                  if ts = [] \<or> ts = [mx] then Inr (PlanCompact irs lv reason)
                  else Inr (PlanSplit irs ts lv (CompactAndSplitOutput reason))))
         | _ \<Rightarrow> Inl (Panic ''at least one file'')))"

definition split_plan :: "file_to_split \<Rightarrow> 'path \<Rightarrow> uuid \<Rightarrow> split_reason \<Rightarrow> compaction_level \<Rightarrow> 'path plan_ir res" where
  "split_plan fts path oid reason lv =
     bind_res (make_file_ir lv ((split_file fts, oid), path)) (\<lambda>ir.
       Inr (PlanSplit [ir] (split_times fts) lv reason))"

definition create_plans :: "v1_planner \<Rightarrow> compaction_level \<Rightarrow> files_to_split_or_compact \<Rightarrow> uuid list \<Rightarrow> 'path list
    \<Rightarrow> 'path plan_ir list res" where
  "create_plans pl lv sc oids paths =
     (case sc of
        Compact fs reason \<Rightarrow> bind_res (compact_plan pl fs paths oids reason lv) (\<lambda>p. Inr [p])
      | Split fs reason \<Rightarrow>
          map_res (\<lambda>((fts, oid), path). split_plan fts path oid reason (compaction_level (split_file fts)))
            (zip (zip fs oids) paths)
      | NoFiles reason \<Rightarrow> Inr [PlanNone reason])"

lemmas f64_eval = f64_of_int_def f64_rnd_def f64_rnd_nonneg_def wrap_i64_def Let_def pow2_le_def compute_floorlog saturate_i64_def saturate_u64_def

section \<open>Split times\<close>

lemma split_interval_eq:
  assumes "mn < mx" "mx - mn < 2 ^ 63" "0 < max_desired" "0 < total_size"
  defines "p \<equiv> f64_div (f64_of_int (int max_desired)) (f64_of_int (int total_size))"
  shows "split_interval mn mx total_size max_desired = saturate_i64 \<lceil>f64_val (f64_mul (f64_of_int (mx - mn)) p)\<rceil>"
    "0 < f64_val p" "0 < f64_val (f64_of_int (mx - mn))"
  using assms by (simp_all add: split_interval_def f64_ceil_val wrap_i64_id f64_div_pos f64_of_int_pos)

lemma split_interval_pos:
  assumes "mn < mx" "mx - mn < 2 ^ 63" "0 < max_desired" "0 < total_size"
  shows "0 < split_interval mn mx total_size max_desired"
  using f64_mul_pos [OF split_interval_eq(3,2) [OF assms]] split_interval_eq(1) [OF assms] by (simp add: saturate_i64_def)

text \<open>The interval is at most the next power of two of the length of the range.\<close>

lemma split_interval_le:
  assumes "mn < mx" "mx - mn \<le> 2 ^ k" "k < 63" "0 < max_desired" "max_desired \<le> total_size"
  shows "split_interval mn mx total_size max_desired \<le> 2 ^ k"
proof -
  define p where "p = f64_div (f64_of_int (int max_desired)) (f64_of_int (int total_size))"
  define a where "a = f64_of_int (mx - mn)"
  have "(2::int) ^ k < 2 ^ 63" using assms(3) by (intro power_strict_increasing) simp_all
  then have l: "mx - mn < 2 ^ 63" using assms(2) by linarith
  have ts: "0 < total_size" using assms by simp
  note e = split_interval_eq [OF assms(1) l assms(4) ts, folded p_def a_def]
  have "f64_round (of_int (int max_desired)) \<le> f64_round (of_int (int total_size))"
    using assms by (intro f64_round_mono) simp_all
  then have "f64_val (f64_of_int (int max_desired)) / f64_val (f64_of_int (int total_size)) \<le> 2 powi 0"
    using assms ts f64_round_pos [of "of_int (int total_size)"] by (simp add: f64_of_int_val)
  then have p: "f64_val p \<le> 1"
    unfolding p_def using assms ts f64_round_le_pow2 [of _ 0] by (simp add: f64_div_val f64_of_int_pos)
  have "(of_int (mx - mn) :: rat) \<le> of_int (2 ^ k)" using assms(2) by (simp only: of_int_le_iff)
  then have "f64_val a \<le> 2 powi int k" unfolding a_def
    using assms(1) f64_round_le_pow2 [of "of_int (mx - mn)" "int k"] by (simp add: f64_of_int_val)
  then have "f64_val a * f64_val p \<le> 2 powi int k" using p e(2,3) mult_mono [of "f64_val a" "2 powi int k" "f64_val p" 1] by simp
  then have "f64_val (f64_mul a p) \<le> 2 powi int k" using e(2,3) by (simp only: f64_mul_val) (intro f64_round_le_pow2, simp_all)
  then have "f64_val (f64_mul a p) \<le> of_int (2 ^ k)" by simp
  then have "\<lceil>f64_val (f64_mul a p)\<rceil> \<le> 2 ^ k" by (simp only: ceiling_le_iff)
  moreover have "- (2 ^ 63) \<le> (2::int) ^ k" by (rule order_trans [of _ 0]) simp_all
  ultimately show ?thesis unfolding e(1) saturate_i64_def by (auto simp: min_le_iff_disj)
qed

lemma split_time_loop_step:
  assumes "- (2 ^ 63) \<le> mn + interval" "mn + interval < 2 ^ 63"
  shows "split_time_loop chunk_times interval mx mn acc =
    (if mn + interval \<ge> mx then Some acc
     else split_time_loop chunk_times interval mx (mn + interval)
            (if time_range_present chunk_times mn (mn + interval) then acc @ [mn + interval] else acc))"
  by (subst split_time_loop.simps) (simp add: wrap_i64_id [OF assms] Let_def)

lemma split_time_loop_returns:
  assumes "0 < interval" "mx + interval < 2 ^ 63" "- (2 ^ 63) \<le> mn" "mn \<le> mx"
  shows "\<exists>ts. split_time_loop chunk_times interval mx mn acc = Some (acc @ ts) \<and> sorted_wrt (<) (mn # ts)
    \<and> (\<forall>t \<in> set ts. t < mx)"
  using assms(3,4)
proof (induction "nat (mx - mn)" arbitrary: mn acc rule: less_induct)
  case less
  have w: "- (2 ^ 63) \<le> mn + interval" "mn + interval < 2 ^ 63" using assms(1,2) less.prems by linarith+
  note e = split_time_loop_step [OF w, of chunk_times mx acc]
  show ?case
  proof (cases "mx \<le> mn + interval")
    case True
    then show ?thesis by (simp add: e)
  next
    case False
    then have "nat (mx - (mn + interval)) < nat (mx - mn)" using assms by simp
    from less(1) [OF this w(1)] False obtain ts where ts: "split_time_loop chunk_times interval mx (mn + interval)
        (if time_range_present chunk_times mn (mn + interval) then acc @ [mn + interval] else acc) =
        Some ((if time_range_present chunk_times mn (mn + interval) then acc @ [mn + interval] else acc) @ ts)"
      "sorted_wrt (<) ((mn + interval) # ts)" "\<forall>t \<in> set ts. t < mx"
      by (meson linear)
    define us where "us = (if time_range_present chunk_times mn (mn + interval) then (mn + interval) # ts else ts)"
    have "split_time_loop chunk_times interval mx mn acc = Some (acc @ us)"
      using False ts(1) by (simp add: e us_def)
    moreover have "sorted_wrt (<) (mn # us)" using ts(2) assms by (auto simp: us_def)
    ultimately show ?thesis using ts(3) False by (auto simp: us_def split: if_splits)
  qed
qed

text \<open>The computation of split times stays inside \<open>i64\<close>.\<close>

definition split_time_fits :: "int \<Rightarrow> int \<Rightarrow> nat \<Rightarrow> nat \<Rightarrow> bool" where
  "split_time_fits mn mx total_size max_desired \<longleftrightarrow>
     - (2 ^ 63) \<le> mn \<and> mx - mn < 2 ^ 63 \<and> mx + split_interval mn mx total_size max_desired < 2 ^ 63"

text \<open>It does for every range of at most \<open>2 ^ 62\<close> ns (146 years) that ends before \<open>2 ^ 62\<close> (the year 2116).\<close>

lemma split_time_fits_small:
  assumes "- (2 ^ 63) \<le> mn" "mn < mx" "mx - mn \<le> 2 ^ 62" "mx < 2 ^ 62" "0 < max_desired" "max_desired < total_size"
  shows "split_time_fits mn mx total_size max_desired"
  using assms split_interval_le [of mn mx 62 max_desired total_size] by (simp add: split_time_fits_def)

lemma compute_split_time_result:
  assumes "0 < max_desired" "mn \<le> mx"
    and "max_desired < total_size \<and> mn < mx \<longrightarrow> split_time_fits mn mx total_size max_desired"
  shows "\<exists>ts. compute_split_time chunk_times mn mx total_size max_desired = Inr ts
    \<and> (if total_size \<le> max_desired \<or> mn = mx then ts = [mx]
        else sorted_wrt (<) (mn # ts) \<and> (\<forall>t \<in> set ts. t < mx))"
proof (cases "total_size \<le> max_desired \<or> mn = mx")
  case False
  then have f: "split_time_fits mn mx total_size max_desired" and "mn < mx" using assms by auto
  then have "0 < split_interval mn mx total_size max_desired"
    using False assms by (intro split_interval_pos) (auto simp: split_time_fits_def)
  from split_time_loop_returns [OF this, of mx mn chunk_times "[]"] f False show ?thesis
    using assms(2) by (auto simp: compute_split_time_def split_time_fits_def)
qed (auto simp: compute_split_time_def)

text \<open>
  C15. Computing split times ends, with double precision rounding taken into account, when no \<open>i64\<close>
  operation of it overflows: the length of the range and its end plus one interval are below
  \<open>2 ^ 63\<close>, which holds for every range of at most 146 years that ends before 2116
  (\<open>split_time_fits_small\<close>). For a range that needs no split the only time is its end; otherwise the
  times strictly ascend strictly inside the range.
\<close>

theorem compute_split_time_returns:
  assumes "0 < max_desired" "mn \<le> mx"
    and "max_desired < total_size \<and> mn < mx \<longrightarrow> split_time_fits mn mx total_size max_desired"
  shows "\<exists>ts. compute_split_time chunk_times mn mx total_size max_desired = Inr ts
    \<and> (if total_size \<le> max_desired \<or> mn = mx then ts = [mx]
        else sorted_wrt (<) (mn # ts) \<and> (\<forall>t \<in> set ts. t < mx))"
  using compute_split_time_result [OF assms] .

theorem compute_split_time_returns_witness:
  "\<exists>ts. compute_split_time [\<lparr>mm_min = 1, mm_max = 11\<rparr>] 1 11 100 40 = Inr ts \<and> ts = [5, 9] \<and> sorted_wrt (<) (1 # ts)"
proof -
  have "split_interval 1 11 100 40 = 4" by (simp add: split_interval_def f64_eval)
  moreover have "split_time_loop [\<lparr>mm_min = 1, mm_max = 11\<rparr>] 4 11 1 [] = Some [5, 9]" by code_simp
  ultimately have "compute_split_time [\<lparr>mm_min = 1, mm_max = 11\<rparr>] 1 11 100 40 = Inr [5, 9]"
    by (simp add: compute_split_time_def)
  moreover have "split_time_fits 1 11 100 40" by (simp add: split_time_fits_small)
  ultimately show ?thesis using compute_split_time_returns [of 40 1 11 100 "[\<lparr>mm_min = 1, mm_max = 11\<rparr>]"] by auto
qed

section \<open>Compaction plans\<close>

lemma chunk_order_ok:
  "l = lv \<or> l = prev_level lv \<Longrightarrow> \<exists>ord. chunk_order l lv t = Inr ord \<and> (lv \<noteq> Initial \<longrightarrow> ord = (if l = lv then 0 else t))"
  by (cases l; cases lv) auto

definition file_ir_of :: "compaction_level \<Rightarrow> (parquet_file \<times> uuid) \<times> 'path \<Rightarrow> 'path file_ir" where
  "file_ir_of lv = (\<lambda>((f, oid), path).
     \<lparr>ir_file = f\<lparr>object_store_id := oid\<rparr>, ir_path = path,
      ir_order = (if compaction_level f = lv \<and> lv \<noteq> Initial then 0 else max_l0_created_at f)\<rparr>)"

lemma make_file_ir_ok:
  assumes "compaction_level f = lv \<or> compaction_level f = prev_level lv"
  shows "make_file_ir lv ((f, oid), path) = Inr (file_ir_of lv ((f, oid), path))"
  using assms by (cases "compaction_level f"; cases lv) (auto simp: make_file_ir_def file_ir_of_def)

lemma map_make_file_ir:
  assumes "list_all (\<lambda>f. compaction_level f = lv \<or> compaction_level f = prev_level lv) fs"
  shows "map_res (make_file_ir lv) (zip (zip fs oids) paths) = Inr (map (file_ir_of lv) (zip (zip fs oids) paths))"
proof (rule map_res_Inr, rule ballI)
  fix x assume "x \<in> set (zip (zip fs oids) paths)"
  then obtain f oid path where x: "x = ((f, oid), path)" "f \<in> set fs"
    by (metis set_zip_leftD surj_pair)
  then show "make_file_ir lv x = Inr (file_ir_of lv x)"
    using assms by (simp add: list_all_iff make_file_ir_ok)
qed

lemma map_file_ir_of:
  assumes "length oids = length fs" "length paths = length fs"
  shows "map (\<lambda>ir. h (ir_file ir)) (map (file_ir_of lv) (zip (zip fs oids) paths)) =
    map2 (\<lambda>f oid. h (f\<lparr>object_store_id := oid\<rparr>)) fs oids"
proof -
  have "length fs = length oids" "length oids = length paths" using assms by simp_all
  then show ?thesis by (induction fs oids paths rule: list_induct3) (auto simp: file_ir_of_def)
qed

lemma map2_fst_eq: "length ys = length xs \<Longrightarrow> map2 (\<lambda>x y. h x) xs ys = map h xs"
  by (induction ys xs rule: list_induct2) auto

lemma file_ir_of_path: "ir_path (file_ir_of lv x) = snd x"
  by (auto simp: file_ir_of_def split: prod.split)

lemma file_ir_of_level: "compaction_level (ir_file (file_ir_of lv x)) = compaction_level (fst (fst x))"
  by (auto simp: file_ir_of_def split: prod.split)

lemma file_ir_of_order:
  "ir_order (file_ir_of lv x) =
     (if compaction_level (fst (fst x)) = lv \<and> lv \<noteq> Initial then 0 else max_l0_created_at (fst (fst x)))"
  by (auto simp: file_ir_of_def split: prod.split)

lemma files_min_max:
  assumes "fs \<noteq> []" "list_all wf_file fs"
  shows "\<exists>mn mx. min_opt (map min_time fs) = Some mn \<and> max_opt (map max_time fs) = Some mx \<and> mn \<le> mx"
proof -
  obtain mn mx where m: "min_opt (map min_time fs) = Some mn" "max_opt (map max_time fs) = Some mx"
    using assms(1) by (metis min_opt_None max_opt_None option.exhaust list.map_disc_iff)
  obtain f where f: "f \<in> set fs" using assms(1) by (cases fs) auto
  have "min_time f \<le> max_time f" using assms(2) f by (auto simp: list_all_iff wf_file_def)
  moreover have "mn \<le> min_time f" "max_time f \<le> mx" using min_opt_Some [OF m(1)] max_opt_Some [OF m(2)] f by auto
  ultimately show ?thesis using m by fastforce
qed

text \<open>What the query planner demands of the split times of a plan, given the range of its data.\<close>

definition splits_within :: "int \<Rightarrow> int \<Rightarrow> 'path plan_ir \<Rightarrow> bool" where
  "splits_within mn mx p = (case p of
      PlanSplit irs ts lv r \<Rightarrow> ts \<noteq> [] \<and> sorted_wrt (<) ts \<and> list_all (\<lambda>t. mn \<le> t \<and> t < mx) ts
    | _ \<Rightarrow> True)"

lemma percent_between:
  assumes "(mn::int) \<le> mx" "pct \<le> 100"
  shows "mn \<le> mn + div_i64 ((mx - mn) * int pct) 100 \<and> mn + div_i64 ((mx - mn) * int pct) 100 \<le> mx"
proof -
  have "(mx - mn) * int pct \<le> (mx - mn) * 100" using assms by (intro mult_left_mono) auto
  then have "(mx - mn) * int pct div 100 \<le> (mx - mn) * 100 div 100" by (rule zdiv_mono1) simp
  moreover have "0 \<le> (mx - mn) * int pct" using assms by simp
  ultimately show ?thesis using div_i64_nonneg [of "(mx - mn) * int pct" 100] by simp
qed

text \<open>The computation of the split times of a plan stays inside \<open>i64\<close>.\<close>

definition plan_fits :: "v1_planner \<Rightarrow> int \<Rightarrow> int \<Rightarrow> nat \<Rightarrow> bool" where
  "plan_fits pl mn mx total_size \<longleftrightarrow>
     (let (small, large) = cutoff_bytes (max_desired_file_size_bytes pl) (percentage_max_file_size pl)
      in - (2 ^ 63) \<le> mn \<and> mx < 2 ^ 63 \<and> mx - mn < 2 ^ 63
         \<and> (small < total_size \<and> total_size \<le> large \<longrightarrow> (mx - mn) * int (split_percentage pl) < 2 ^ 63)
         \<and> (large < total_size \<longrightarrow> mx + split_interval mn mx total_size (max_desired_file_size_bytes pl) < 2 ^ 63))"

text \<open>It does for files of at most \<open>2 ^ 56\<close> ns (2.28 years) that end before \<open>2 ^ 62\<close>, when the cutoff itself fits.\<close>

lemma plan_fits_small:
  assumes "- (2 ^ 63) \<le> mn" "mn < mx" "mx - mn \<le> 2 ^ 56" "mx < 2 ^ 62" "split_percentage pl \<le> 100"
    and "0 < max_desired_file_size_bytes pl"
    and "max_desired_file_size_bytes pl * (100 + percentage_max_file_size pl) < 2 ^ 64"
  shows "plan_fits pl mn mx total_size"
proof -
  have "(mx - mn) * int (split_percentage pl) \<le> 2 ^ 56 * 100" using assms by (intro mult_mono) auto
  moreover have "mx + split_interval mn mx total_size (max_desired_file_size_bytes pl) < 2 ^ 63"
    if "max_desired_file_size_bytes pl * (100 + percentage_max_file_size pl) div 100 < total_size"
  proof -
    have "max_desired_file_size_bytes pl * 100 div 100 \<le> max_desired_file_size_bytes pl * (100 + percentage_max_file_size pl) div 100"
      by (intro div_le_mono mult_le_mono2) simp
    then have "max_desired_file_size_bytes pl \<le> total_size" using that by simp
    then show ?thesis using split_interval_le [of mn mx 56 "max_desired_file_size_bytes pl" total_size] assms by simp
  qed
  ultimately show ?thesis using assms by (simp add: plan_fits_def cutoff_bytes_def)
qed

lemma percent_time:
  assumes "mn \<le> mx" "- (2 ^ 63) \<le> mn" "mx < 2 ^ 63" "mx - mn < 2 ^ 63" "(mx - mn) * int pct < 2 ^ 63" "pct \<le> 100"
  defines "t \<equiv> wrap_i64 (mn + div_i64 (wrap_i64 (wrap_i64 (mx - mn) * int pct)) 100)"
  shows "mn \<le> t" "t \<le> mx"
proof -
  have "0 \<le> (mx - mn) * int pct" using assms(1) by simp
  then have "wrap_i64 ((mx - mn) * int pct) = (mx - mn) * int pct" using assms(5) by (intro wrap_i64_id) linarith+
  moreover have "wrap_i64 (mx - mn) = mx - mn" using assms(1,4) by (intro wrap_i64_id) linarith+
  ultimately have "wrap_i64 (wrap_i64 (mx - mn) * int pct) = (mx - mn) * int pct" by simp
  then have "t = mn + div_i64 ((mx - mn) * int pct) 100"
    unfolding t_def using percent_between [OF assms(1,6)] assms(2,3) by (simp add: wrap_i64_id)
  then show "mn \<le> t" "t \<le> mx" using percent_between [OF assms(1,6)] by simp_all
qed

lemma compact_plan_cases:
  assumes "list_all wf_file fs" "list_all (\<lambda>f. compaction_level f = lv \<or> compaction_level f = prev_level lv) fs"
    and "min_opt (map min_time fs) = Some mn" "max_opt (map max_time fs) = Some mx" "mn \<le> mx"
    and "0 < max_desired_file_size_bytes pl" "split_percentage pl \<le> 100"
    and "plan_fits pl mn mx (as_usize (sum_list (map file_size_bytes fs)))"
  obtains p where "compact_plan pl fs paths oids reason lv = Inr p" "splits_within mn mx p"
    "input_files p = map (file_ir_of lv) (zip (zip fs oids) paths)" "plan_target_level p = Inr lv"
proof -
  define irs where "irs = map (file_ir_of lv) (zip (zip fs oids) paths)"
  define cts where "cts = map (\<lambda>f. \<lparr>mm_min = min_time f, mm_max = max_time f\<rparr>) fs"
  define n where "n = as_usize (sum_list (map file_size_bytes fs))"
  obtain small large where cut: "cutoff_bytes (max_desired_file_size_bytes pl) (percentage_max_file_size pl) = (small, large)"
    by fastforce
  have c: "map_res (\<lambda>f. timestamp_min_max_new (min_time f) (max_time f)) fs = Inr cts" unfolding cts_def
    using assms(1) by (intro map_res_Inr) (auto simp: list_all_iff wf_file_def timestamp_min_max_new_def)
  define ts where "ts = (if small < n \<and> n \<le> large then Inr [wrap_i64 (mn + div_i64 (wrap_i64 (wrap_i64 (mx - mn) * int (split_percentage pl))) 100)]
      else compute_split_time cts mn mx n (max_desired_file_size_bytes pl))"
  have e: "compact_plan pl fs paths oids reason lv =
      (if n \<le> small \<or> reason = ManySmallFilesReason then Inr (PlanCompact irs lv reason)
       else bind_res ts (\<lambda>ts. if ts = [] \<or> ts = [mx] then Inr (PlanCompact irs lv reason)
              else Inr (PlanSplit irs ts lv (CompactAndSplitOutput reason))))"
    unfolding ts_def n_def irs_def
    by (simp add: compact_plan_def Let_def c assms(3,4) cut map_make_file_ir [OF assms(2)])
  have fits: "- (2 ^ 63) \<le> mn" "mx < 2 ^ 63" "mx - mn < 2 ^ 63"
    "small < n \<and> n \<le> large \<Longrightarrow> (mx - mn) * int (split_percentage pl) < 2 ^ 63"
    "large < n \<Longrightarrow> split_time_fits mn mx n (max_desired_file_size_bytes pl)"
    using assms(8) by (simp_all add: plan_fits_def cut n_def split_time_fits_def)
  obtain xs where xs: "n \<le> small \<or> ts = Inr xs" "xs = [] \<or> xs = [mx] \<or> sorted_wrt (<) xs \<and> list_all (\<lambda>t. mn \<le> t \<and> t < mx) xs"
  proof (cases "small < n \<and> n \<le> large")
    case True
    then show thesis
      using that percent_time [OF assms(5) fits(1-3) fits(4) assms(7)] by (simp add: ts_def) linarith
  next
    case False
    show thesis
    proof (cases "n \<le> small")
      case True
      then show thesis using that [of "[]"] by simp
    next
      case small: False
      then have "split_time_fits mn mx n (max_desired_file_size_bytes pl)" using False by (intro fits(5)) simp
      then show thesis
        using that False compute_split_time_result [OF assms(6,5), of n cts]
        by (fastforce simp: ts_def list_all_iff split: if_splits intro: less_imp_le)
    qed
  qed
  show thesis
  proof (cases "n \<le> small \<or> reason = ManySmallFilesReason \<or> xs = [] \<or> xs = [mx]")
    case True
    then have "compact_plan pl fs paths oids reason lv = Inr (PlanCompact irs lv reason)"
      using xs(1) by (auto simp: e)
    then show thesis by (rule that) (simp_all add: splits_within_def irs_def)
  next
    case False
    then have "compact_plan pl fs paths oids reason lv = Inr (PlanSplit irs xs lv (CompactAndSplitOutput reason))"
      using xs(1) by (simp add: e)
    then show thesis using False xs(2) by (intro that) (auto simp: splits_within_def irs_def)
  qed
qed

text \<open>
  C16. For a non-empty list of well-formed files of the target level and the level below it, with one
  path and one new object store id each, \<open>compact_plan\<close> returns a plan for the target level over
  exactly the given files, when the time arithmetic fits in \<open>i64\<close>: the length of the range, this
  length times the split percentage (where the output is split in two), and the end of the range plus
  one interval (where it is split into several files) are below \<open>2 ^ 63\<close>. The split times of the
  plan, if it splits, are what the query planner demands: not empty, strictly ascending and each with
  data range on both sides. Target level files come first in the deduplication order.
\<close>

theorem compact_plan_ok:
  fixes pl :: v1_planner and paths :: "'path list"
  assumes "list_all wf_file fs" "length oids = length fs" "length paths = length fs"
    and "list_all (\<lambda>f. compaction_level f = lv \<or> compaction_level f = prev_level lv) fs"
    and "list_all (\<lambda>f. 0 \<le> max_l0_created_at f) fs"
    and "0 < max_desired_file_size_bytes pl" "split_percentage pl \<le> 100"
    and "min_opt (map min_time fs) = Some mn" "max_opt (map max_time fs) = Some mx"
    and "plan_fits pl mn mx (as_usize (sum_list (map file_size_bytes fs)))"
  shows "\<exists>p. compact_plan pl fs paths oids reason lv = Inr p
    \<and> splits_within mn mx p \<and> plan_target_level p = Inr lv
    \<and> input_parquet_files p = map2 (\<lambda>f oid. f\<lparr>object_store_id := oid\<rparr>) fs oids
    \<and> input_paths p = paths \<and> input_bytes p = wrap_i64 (sum_list (map file_size_bytes fs))
    \<and> (lv \<noteq> Initial \<longrightarrow> (\<forall>a \<in> set (input_files p). \<forall>b \<in> set (input_files p).
         compaction_level (ir_file a) = lv \<and> compaction_level (ir_file b) \<noteq> lv \<longrightarrow> ir_order a \<le> ir_order b))"
proof -
  have "fs \<noteq> []" using assms(8) by auto
  then have le: "mn \<le> mx" using files_min_max [OF _ assms(1)] assms(8,9) by auto
  obtain p where p: "compact_plan pl fs paths oids reason lv = Inr p" "splits_within mn mx p"
    "input_files p = map (file_ir_of lv) (zip (zip fs oids) paths)" "plan_target_level p = Inr lv"
    using compact_plan_cases [OF assms(1,4,8,9) le assms(6,7,10)] by blast
  have pf: "input_parquet_files p = map2 (\<lambda>f oid. f\<lparr>object_store_id := oid\<rparr>) fs oids"
    using map_file_ir_of [OF assms(2,3), of "\<lambda>f. f" lv] by (simp add: input_parquet_files_def p(3))
  have bytes: "input_bytes p = wrap_i64 (sum_list (map file_size_bytes fs))"
    using map_file_ir_of [OF assms(2,3), of file_size_bytes lv] assms(2)
    by (simp add: input_bytes_def p(3) map2_fst_eq)
  have ps: "input_paths p = paths" using assms(2,3) by (simp add: input_paths_def p(3) comp_def file_ir_of_path)
  have ord: "ir_order a \<le> ir_order b"
    if "lv \<noteq> Initial" "a \<in> set (input_files p)" "b \<in> set (input_files p)"
      "compaction_level (ir_file a) = lv" "compaction_level (ir_file b) \<noteq> lv" for a b
  proof -
    obtain x y where xy: "x \<in> set (zip (zip fs oids) paths)" "a = file_ir_of lv x"
      "y \<in> set (zip (zip fs oids) paths)" "b = file_ir_of lv y" using \<open>a \<in> _\<close> \<open>b \<in> _\<close> by (auto simp: p(3))
    have "fst (fst y) \<in> set fs" using xy(3) by (metis prod.collapse set_zip_leftD)
    then have "0 \<le> max_l0_created_at (fst (fst y))" using assms(5) by (simp add: list_all_iff)
    then show ?thesis using that by (simp add: xy file_ir_of_level file_ir_of_order)
  qed
  show ?thesis using p(1,2,4) pf ps bytes ord by blast
qed

definition plan_files :: files where
  "plan_files = [file_of 1 Initial 0 9 30 5, file_of 2 FileNonOverlapped 4 20 70 2]"

definition plan_config :: v1_planner where
  "plan_config = \<lparr>max_desired_file_size_bytes = 80, percentage_max_file_size = 30, split_percentage = 80\<rparr>"

theorem compact_plan_ok_witness:
  "\<exists>p. compact_plan plan_config plan_files [''a'', ''b''] [7, 8] TotalSizeLessThanMaxCompactSize FileNonOverlapped = Inr p
     \<and> splits_within 0 20 p \<and> plan_target_level p = Inr FileNonOverlapped \<and> n_output_files p = 2
     \<and> input_paths p = [''a'', ''b'']"
proof -
  let ?p = "compact_plan plan_config plan_files [''a'', ''b''] [7, 8] TotalSizeLessThanMaxCompactSize FileNonOverlapped"
  have n: "(case ?p of Inr p \<Rightarrow> n_output_files p = 2 | Inl _ \<Rightarrow> False)"
    by (simp add: compact_plan_def plan_files_def plan_config_def file_of_def cutoff_bytes_def timestamp_min_max_new_def
        make_file_ir_def Let_def as_usize_def div_i64_def wrap_i64_def)
  have m: "min_opt (map min_time plan_files) = Some 0 \<and> max_opt (map max_time plan_files) = Some 20"
    by (simp add: plan_files_def file_of_def)
  have h: "plan_files \<noteq> [] \<and> list_all wf_file plan_files \<and> length [7, 8 :: nat] = length plan_files
      \<and> length [''a'', ''b''] = length plan_files
      \<and> list_all (\<lambda>f. compaction_level f = FileNonOverlapped \<or> compaction_level f = prev_level FileNonOverlapped) plan_files
      \<and> list_all (\<lambda>f. 0 \<le> max_l0_created_at f) plan_files
      \<and> 0 < max_desired_file_size_bytes plan_config \<and> split_percentage plan_config \<le> 100"
    by (simp add: plan_files_def plan_config_def file_of_def wf_file_def)
  have f: "plan_fits plan_config 0 20 (as_usize (sum_list (map file_size_bytes plan_files)))"
    by (rule plan_fits_small) (simp_all add: plan_config_def)
  show ?thesis
    using compact_plan_ok [of plan_files "[7, 8]" "[''a'', ''b'']" FileNonOverlapped plan_config 0 20
      TotalSizeLessThanMaxCompactSize] n m h f by auto
qed

section \<open>Arithmetic that does not fit\<close>

lemma split_time_loop_diverges:
  assumes "4 dvd mn" "4 dvd interval" "2 ^ 63 - 2 \<le> mx"
  shows "split_time_loop chunk_times interval mx mn acc = None"
proof (rule ccontr)
  assume "split_time_loop chunk_times interval mx mn acc \<noteq> None"
  then obtain y where y: "split_time_loop chunk_times interval mx mn acc = Some y" by auto
  have "\<not> (4 dvd mn \<and> 4 dvd interval \<and> 2 ^ 63 - 2 \<le> mx)"
  proof (rule split_time_loop.raw_induct
      [where P = "\<lambda>_ interval mx mn _ _. \<not> (4 dvd mn \<and> 4 dvd interval \<and> 2 ^ 63 - 2 \<le> mx)", OF _ y], rule notI, goal_cases)
    case (1 loop chunk_times interval mx mn acc y)
    have w: "4 dvd wrap_i64 (mn + interval)" using 1(3) by (simp add: wrap_i64_def dvd_mod_iff)
    moreover have "wrap_i64 (mn + interval) < 2 ^ 63"
      using pos_mod_bound [of "2 ^ 64" "mn + interval + 2 ^ 63"] by (simp add: wrap_i64_def)
    ultimately have "wrap_i64 (mn + interval) < mx" using 1(3) by (elim dvdE) simp
    then show False using 1(1) [of chunk_times interval mx "wrap_i64 (mn + interval)"] 1(2,3) w by (simp add: Let_def)
  qed
  then show False using assms by simp
qed

text \<open>
  C38. Without the bound on the end of the range the loop of \<open>compute_split_time\<close> need not end: for a
  range that ends within two nanoseconds of the largest \<open>i64\<close>, when its start and the interval are
  multiples of 4, the split time wraps around to the smallest \<open>i64\<close> without ever reaching the end.
\<close>

theorem compute_split_time_diverges:
  assumes "max_desired < total_size" "mn < mx" "2 ^ 63 - 2 \<le> mx"
    and "4 dvd mn" "4 dvd split_interval mn mx total_size max_desired"
  shows "compute_split_time chunk_times mn mx total_size max_desired = Inl Diverges"
  using assms split_time_loop_diverges [OF assms(4,5,3)] by (simp add: compute_split_time_def)

theorem compute_split_time_diverges_witness:
  "compute_split_time [\<lparr>mm_min = 2 ^ 63 - 40, mm_max = 2 ^ 63 - 2\<rparr>] (2 ^ 63 - 40) (2 ^ 63 - 2) 100 20 = Inl Diverges"
proof -
  have "split_interval (2 ^ 63 - 40) (2 ^ 63 - 2) 100 20 = 8" by (simp add: split_interval_def f64_eval)
  then show ?thesis by (intro compute_split_time_diverges) simp_all
qed




end
