(* ===== verification/Split_Compact.thy ===== *)
theory Split_Compact
  imports Start_Level_Split Planner
begin

text \<open>
  Models \<open>components/split_or_compact/large_files_to_split.rs\<close> and \<open>split_compact.rs\<close>: the decision whether
  the files of a branch are compacted, split or left alone. The lemmas compose those of
  \<open>Files_To_Compact\<close>, \<open>Start_Level_Split\<close> and \<open>Planner\<close>.
\<close>

section \<open>Splitting large files\<close>

definition max_file_num :: nat where
  "max_file_num = 2"

text \<open>The constant \<open>0.1\<close> as a double.\<close>

definition percentage_of_soft_exceeded :: f64 where
  "percentage_of_soft_exceeded = f64_div (f64_of_int 1) (f64_of_int 10)"

definition max_file_size :: "nat \<Rightarrow> nat" where
  "max_file_size max_desired =
     saturate_u64 (f64_floor (f64_mul (f64_of_int (int max_desired)) (f64_add (f64_of_int 1) percentage_of_soft_exceeded)))"

fun large_files_loop :: "nat \<Rightarrow> files \<Rightarrow> file_to_split list \<Rightarrow> files \<Rightarrow> (file_to_split list \<times> files) res" where
  "large_files_loop max_desired [] ts ns = Inr (ts, ns)"
| "large_files_loop max_desired (f # fs) ts ns =
     (let sz = as_usize (file_size_bytes f)
      in if sz > max_file_size max_desired \<and> min_time f < max_time f then
           if min_time f < max_time f - 1 then
             bind_res (compute_split_time [\<lparr>mm_min = min_time f, mm_max = max_time f\<rparr>] (min_time f) (max_time f) sz max_desired)
               (\<lambda>times. large_files_loop max_desired fs (ts @ [\<lparr>split_file = f, split_times = times\<rparr>]) ns)
           else large_files_loop max_desired fs (ts @ [\<lparr>split_file = f, split_times = [min_time f]\<rparr>]) ns
         else large_files_loop max_desired fs ts (ns @ [f]))"

definition compute_split_times_for_large_files :: "files \<Rightarrow> nat \<Rightarrow> nat \<Rightarrow> (file_to_split list \<times> files) res" where
  "compute_split_times_for_large_files fs max_desired max_compact_size =
     assert_res (length fs \<le> max_file_num \<and> fs \<noteq> []) ''there must be at least one file and at most 2 files'' (
     assert_res (max_compact_size \<ge> max_file_num * max_desired)
       ''max_compact_size must be at least 2 times larger than max_desired_file_size'' (
     assert_res (as_usize (size_sum fs) > max_compact_size)
       ''total size of files must be larger than max_compact_size'' (
     large_files_loop max_desired fs [] [])))"

section \<open>Split or compact\<close>

record split_compact =
  sc_max_compact_files :: nat
  sc_max_compact_size :: nat
  sc_max_desired_file_size :: nat

definition split_compact_apply :: "split_compact \<Rightarrow> files \<Rightarrow> compaction_level \<Rightarrow> (files_to_split_or_compact \<times> files) res" where
  "split_compact_apply sc fs lv =
     (if fs = [] then Inr (NoFiles NoInputFiles, [])
      else if as_usize (size_sum fs) \<le> sc_max_compact_size sc
              \<and> length (filter (\<lambda>f. compaction_level f = prev_level lv) fs) < sc_max_compact_files sc
      then Inr (Compact fs TotalSizeLessThanMaxCompactSize, [])
      else bind_res (identify_start_level_files_to_split fs lv) (\<lambda>(to_split, not_to_split).
        if to_split \<noteq> [] then Inr (Split to_split ReduceOverlap, not_to_split)
        else bind_res (limit_files_to_compact (sc_max_compact_files sc) (sc_max_compact_size sc) not_to_split lv) (\<lambda>k.
          let files_to_compact = kcs_files_to_compact (kcs_split k);
              files_to_further_split = kcs_files_to_further_split (kcs_split k);
              specific_splits = kcs_specific_splits (kcs_split k);
              keep = kcs_keep k
          in if files_to_compact \<noteq> [] then Inr (Compact files_to_compact FoundSubsetLessThanMaxCompactSize, keep)
             else if specific_splits \<noteq> [] then Inr (Split specific_splits StartLevelOverlapsTooBig, keep)
             else bind_res (compute_split_times_for_large_files files_to_further_split
                     (sc_max_desired_file_size sc) (sc_max_compact_size sc)) (\<lambda>(to_split, not_to_split).
               if to_split = [] then Inr (NoFiles NoFilesToSplitFound, keep @ not_to_split)
               else Inr (Split to_split ReduceLargeFileSize, keep @ not_to_split)))))"

section \<open>Large files are cut inside their range\<close>

text \<open>Ascending split times inside the range of the file; there may be none.\<close>

definition cuts_inside :: "file_to_split \<Rightarrow> bool" where
  "cuts_inside s \<longleftrightarrow> sorted_wrt (<) (split_times s)
     \<and> (\<forall>t \<in> set (split_times s). min_time (split_file s) \<le> t \<and> t < max_time (split_file s))"

lemma cuts_file_inside: "cuts_file s \<Longrightarrow> cuts_inside s"
  by (simp add: cuts_file_def cuts_inside_def)

lemma max_file_size_ge:
  assumes "0 < md" "md < 2 ^ 64"
  shows "md \<le> max_file_size md"
proof -
  let ?c = "f64_add (f64_of_int 1) percentage_of_soft_exceeded"
  have "?c = F64 4953959590107546 (- 52)"
    by (simp add: percentage_of_soft_exceeded_def f64_eval)
  then have c: "f64_val ?c = 4953959590107546 / 2 ^ 52" by (simp add: f64_val_def power_int_def inverse_eq_divide power_divide)
  have n: "of_int (int md) * (1 - 1 / 2 ^ 53) \<le> f64_val (f64_of_int (int md))" "0 < f64_val (f64_of_int (int md))"
    by (rule f64_of_int_lower, use assms in simp) (rule f64_of_int_pos, use assms in simp)
  define v where "v = f64_val (f64_of_int (int md))"
  have "v * (4953959590107546 / 2 ^ 52) * (1 - 1 / 2 ^ 53) \<le> f64_val (f64_mul (f64_of_int (int md)) ?c)"
    using f64_mul_lower [of "f64_of_int (int md)" ?c] n(2) unfolding c v_def by simp
  moreover have "of_nat md * (1 - 1 / 2 ^ 53) * (4953959590107546 / 2 ^ 52) * (1 - 1 / 2 ^ 53)
      \<le> v * (4953959590107546 / 2 ^ 52) * (1 - 1 / 2 ^ 53)"
    using n(1) unfolding v_def [symmetric] by (intro mult_right_mono) simp_all
  ultimately have "(of_nat md :: rat) \<le> f64_val (f64_mul (f64_of_int (int md)) ?c)" by simp
  then have "int md \<le> f64_floor (f64_mul (f64_of_int (int md)) ?c)" by (simp add: f64_floor_val le_floor_iff)
  then show ?thesis using assms(2) by (simp add: max_file_size_def saturate_u64_def)
qed

text \<open>Files whose split times are computed inside \<open>i64\<close>: of at most 146 years, ending before 2116.\<close>

definition times_fit :: "files \<Rightarrow> bool" where
  "times_fit fs \<longleftrightarrow> list_all (\<lambda>f. - (2 ^ 63) \<le> min_time f \<and> max_time f - min_time f \<le> 2 ^ 62 \<and> max_time f < 2 ^ 62) fs"

lemma times_fit_Cons [simp]:
  "times_fit (f # fs) \<longleftrightarrow> - (2 ^ 63) \<le> min_time f \<and> max_time f - min_time f \<le> 2 ^ 62 \<and> max_time f < 2 ^ 62 \<and> times_fit fs"
  by (simp add: times_fit_def)

lemma times_fit_sub: "times_fit fs \<Longrightarrow> set gs \<subseteq> set fs \<Longrightarrow> times_fit gs"
  by (auto simp: times_fit_def list_all_iff)

lemma large_files_loop_ok:
  assumes "0 < md" "md < 2 ^ 64" "list_all cuts_inside ts" "times_fit fs"
  shows "\<exists>ts' ns'. large_files_loop md fs ts ns = Inr (ts @ ts', ns @ ns') \<and> mset (map split_file ts' @ ns') = mset fs
    \<and> list_all cuts_inside ts'"
  using assms(3,4)
proof (induction fs arbitrary: ts ns)
  case (Cons f fs)
  have fit: "times_fit fs" using Cons.prems(2) by simp
  let ?sz = "as_usize (file_size_bytes f)"
  consider "\<not> (?sz > max_file_size md \<and> min_time f < max_time f)"
    | times where "large_files_loop md (f # fs) ts ns = large_files_loop md fs (ts @ [\<lparr>split_file = f, split_times = times\<rparr>]) ns"
      "cuts_inside \<lparr>split_file = f, split_times = times\<rparr>"
  proof (cases "?sz > max_file_size md \<and> min_time f < max_time f")
    case True
    show thesis
    proof (cases "min_time f < max_time f - 1")
      case wide: True
      have "\<not> ?sz \<le> md" using True max_file_size_ge [OF assms(1,2)] by simp
      then obtain times where t: "compute_split_time [\<lparr>mm_min = min_time f, mm_max = max_time f\<rparr>] (min_time f) (max_time f) ?sz md = Inr times"
        "sorted_wrt (<) (min_time f # times)" "\<forall>t \<in> set times. t < max_time f"
        using compute_split_time_result [OF assms(1), of "min_time f" "max_time f" ?sz "[\<lparr>mm_min = min_time f, mm_max = max_time f\<rparr>]"]
          split_time_fits_small [of "min_time f" "max_time f" md ?sz] True assms(1) Cons.prems(2) by auto
      have "cuts_inside \<lparr>split_file = f, split_times = times\<rparr>"
        using t(2,3) by (auto simp: cuts_inside_def intro: less_imp_le)
      then show thesis using that(2) [of times] True wide t(1) by simp
    next
      case False
      then show thesis using that(2) [of "[min_time f]"] True by (simp add: cuts_inside_def)
    qed
  qed (rule that(1))
  then show ?case
  proof cases
    case 1
    then have e: "large_files_loop md (f # fs) ts ns = large_files_loop md fs ts (ns @ [f])" by auto
    from Cons.IH [OF Cons.prems(1) fit, of "ns @ [f]"] obtain ts' ns' where
      "large_files_loop md fs ts (ns @ [f]) = Inr (ts @ ts', (ns @ [f]) @ ns')" "mset (map split_file ts' @ ns') = mset fs"
      "list_all cuts_inside ts'" by blast
    then show ?thesis unfolding e by (intro exI [of _ ts'] exI [of _ "f # ns'"]) simp
  next
    case (2 times)
    let ?s = "\<lparr>split_file = f, split_times = times\<rparr>"
    have "list_all cuts_inside (ts @ [?s])" using Cons.prems(1) 2(2) by simp
    from Cons.IH [OF this fit, of ns] obtain ts' ns' where
      "large_files_loop md fs (ts @ [?s]) ns = Inr ((ts @ [?s]) @ ts', ns @ ns')" "mset (map split_file ts' @ ns') = mset fs"
      "list_all cuts_inside ts'" by blast
    then show ?thesis unfolding 2(1) using 2(2) by (intro exI [of _ "?s # ts'"] exI [of _ ns']) simp
  qed
qed simp

section \<open>The result of split or compact\<close>

lemma further_split_no_extra:
  assumes ctx: "limit_ctx lv (f # rest) T" and nt: "lv = Final \<Longrightarrow> \<forall>t \<in> set T. \<forall>s \<in> set (f # rest). max_time t \<noteq> min_time s"
    and ovl: "ovl = filter (\<lambda>t. overlaps t f) T" "length ovl \<le> 1"
    and extra: "extra_overlapped lv (f # rest) [] f ovl = Inr extra" "extra \<noteq> [] \<longrightarrow> specific_splits_of extra ovl = []"
  shows "extra = []"
proof (rule ccontr)
  assume ne: "extra \<noteq> []"
  then have lv: "lv = Final" and "ovl \<noteq> []" using extra(1) by (auto simp: extra_overlapped_def split: if_splits)
  with ovl(2) obtain t where t: "ovl = [t]" by (cases ovl) auto
  obtain e where e: "e \<in> set extra" using ne by (cases extra) auto
  have ex: "e \<in> set (f # rest)" "pf_id e \<noteq> pf_id f" "overlaps_time_range e (min_time t) (max_time t)"
    using extra(1) e by (auto simp: extra_overlapped_def t lv split: if_splits)
  have "t \<in> set ovl" by (simp add: t)
  then have tf: "t \<in> set T" "overlaps t f" by (simp_all add: ovl(1))
  have "\<not> overlaps f e" "min_time f \<le> min_time e" "wf_file e" "wf_file f"
    using ctx lv ex by (auto simp: limit_ctx_def disjoint_times_Cons)
  then have "max_time f < min_time e" by (auto simp: overlaps_def wf_file_def)
  moreover have "max_time t \<noteq> min_time e" using nt [OF lv] tf(1) ex(1) by blast
  ultimately have "min_time t \<le> min_time e \<and> min_time e < max_time t"
    using tf(2) ex(3) by (auto simp: overlaps_def overlaps_time_range_def)
  then have "filter (\<lambda>x. x \<ge> min_time t \<and> x < max_time t) (map min_time extra) \<noteq> []"
    using e by (auto simp: filter_empty_conv)
  then have "specific_splits_of extra ovl \<noteq> []" by (simp add: specific_splits_of_def t)
  with extra(2) ne show False by simp
qed

text \<open>A start level file begins at the time at which a target level file ends.\<close>

definition touching :: "compaction_level \<Rightarrow> files \<Rightarrow> bool" where
  "touching lv fs \<longleftrightarrow> lv = Final \<and>
     list_ex (\<lambda>t. list_ex (\<lambda>s. max_time t = min_time s) (start_files lv fs)) (target_files lv fs)"

lemma further_split_total:
  assumes ctx: "limit_ctx lv S T" and r: "limit_result lv mf ms S T (FurtherSplit fs)" and mf: "0 < mf"
  shows "length fs \<le> 2 \<and> fs \<noteq> []
    \<and> (as_i64 ms < size_sum fs \<or> lv = Final \<and> (\<exists>t \<in> set T. \<exists>s \<in> set S. max_time t = min_time s))"
proof -
  obtain f ovl extra rest where o: "fs = f # ovl" "S = f # rest" "ovl = filter (\<lambda>t. overlaps t f) T" "length ovl \<le> 1"
    "extra_overlapped lv S [] f ovl = Inr extra" "extra \<noteq> [] \<longrightarrow> specific_splits_of extra ovl = []"
    "\<not> (size_sum fs + size_sum extra \<le> as_i64 ms \<and> 0 < mf)"
    using r unfolding limit_result_def compact_or_further_split.case by blast
  have "extra = []" if "\<not> (lv = Final \<and> (\<exists>t \<in> set T. \<exists>s \<in> set S. max_time t = min_time s))"
    by (rule further_split_no_extra [OF ctx [unfolded o(2)] _ o(3,4) o(5) [unfolded o(2)] o(6)]) (use that o(2) in blast)
  with o mf show ?thesis by (fastforce simp: size_sum_def)
qed

text \<open>What the classifier passes to split or compact, and how the component is configured.\<close>

definition sc_pre :: "compaction_level \<Rightarrow> files \<Rightarrow> bool" where
  "sc_pre lv fs \<longleftrightarrow>
     list_all (\<lambda>f. compaction_level f = lv \<or> compaction_level f = prev_level lv) fs
     \<and> distinct (map pf_id fs) \<and> list_all wf_file fs \<and> disjoint_times (target_files lv fs)
     \<and> (lv = Final \<longrightarrow> disjoint_times (start_files lv fs))
     \<and> list_all (\<lambda>f. 0 \<le> file_size_bytes f) fs \<and> size_sum fs < 2 ^ 63"

definition sc_config :: "split_compact \<Rightarrow> bool" where
  "sc_config sc \<longleftrightarrow> 0 < sc_max_compact_files sc \<and> 0 < sc_max_desired_file_size sc
     \<and> max_file_num * sc_max_desired_file_size sc \<le> sc_max_compact_size sc \<and> sc_max_compact_size sc < 2 ^ 63"

lemma mset_start_target:
  assumes "mset fs = mset gs"
  shows "mset (start_files lv fs) = mset (start_files lv gs)" "mset (target_files lv fs) = mset (target_files lv gs)"
  using assms by (simp_all add: start_files_def target_files_def)

lemma length_filter_mset: "mset xs = mset ys \<Longrightarrow> length (filter P xs) = length (filter P ys)"
  by (metis mset_filter size_mset)

lemma sc_pre_limit_pre:
  assumes "sc_pre lv fs" "mset ns = mset fs"
    and one: "\<forall>f \<in> set (start_files lv ns). length (filter (overlaps f) (target_files lv fs)) \<le> 1"
  shows "limit_pre lv ns"
proof -
  have s: "set ns = set fs" using assms(2) by (rule mset_eq_setD)
  have "mset (map pf_id ns) = mset (map pf_id fs)" using assms(2) by simp
  then have d: "distinct (map pf_id ns)" using assms(1) mset_eq_imp_distinct_iff unfolding sc_pre_def by blast
  have "length (filter (\<lambda>t. overlaps t f) (target_files lv ns)) \<le> 1" if "f \<in> set (start_files lv ns)" for f
  proof -
    have "(\<lambda>t. overlaps t f) = overlaps f" by (auto simp: overlaps_sym)
    then show ?thesis using one that length_filter_mset [OF mset_start_target(2) [OF assms(2)], of "overlaps f" lv] by simp
  qed
  moreover have "disjoint_times (start_files lv ns)" if "lv = Final"
    using that assms(1) disjoint_times_mset [OF mset_start_target(1) [OF assms(2)], of lv] by (simp add: sc_pre_def)
  ultimately show ?thesis using assms(1) d s by (simp add: limit_pre_def sc_pre_def list_all_iff)
qed

text \<open>What the result may be.\<close>

definition sc_result :: "split_compact \<Rightarrow> compaction_level \<Rightarrow> files_to_split_or_compact \<Rightarrow> bool" where
  "sc_result sc lv s = (case s of
       NoFiles r \<Rightarrow> r = NoFilesToSplitFound
     | Split ss r \<Rightarrow> ss \<noteq> [] \<and> list_all cuts_inside ss \<and> (r \<noteq> ReduceLargeFileSize \<longrightarrow> list_all cuts_file ss)
     | Compact cs r \<Rightarrow> cs \<noteq> [] \<and> size_sum cs \<le> int (sc_max_compact_size sc)
         \<and> (lv = FileNonOverlapped \<longrightarrow> length (start_files lv cs) \<le> sc_max_compact_files sc))"

lemma size_sum_bounds:
  assumes "sc_pre lv fs"
  shows "as_usize (size_sum fs) = nat (size_sum fs)" "0 \<le> size_sum fs"
proof -
  show "0 \<le> size_sum fs" using assms by (auto simp: sc_pre_def size_sum_def list_all_iff intro!: sum_list_nonneg)
  then show "as_usize (size_sum fs) = nat (size_sum fs)" using assms by (simp add: sc_pre_def as_usize_nonneg)
qed

lemma size_sum_sub:
  assumes "mset xs + mset ys = mset fs" "list_all (\<lambda>f. 0 \<le> file_size_bytes f) fs"
  shows "0 \<le> size_sum xs" "size_sum xs \<le> size_sum fs"
proof -
  have e: "size_sum xs + size_sum ys = size_sum fs"
    using arg_cong [OF assms(1), of "\<lambda>m. sum_mset (image_mset file_size_bytes m)"]
    by (simp add: size_sum_def sum_mset_sum_list [symmetric])
  have "0 \<le> size_sum zs" if "set zs \<subseteq> set fs" for zs
    using that assms(2) unfolding size_sum_def list_all_iff by (intro sum_list_nonneg) auto
  moreover have "set xs \<subseteq> set fs" "set ys \<subseteq> set fs"
    using assms(1) by (metis Un_upper1 Un_upper2 set_mset_mset set_mset_union)+
  ultimately have "0 \<le> size_sum xs" "0 \<le> size_sum ys" by blast+
  then show "0 \<le> size_sum xs" "size_sum xs \<le> size_sum fs" using e by linarith+
qed

lemma large_files_loop_config:
  assumes "sc_config sc" "times_fit fs"
  shows "\<exists>ts ns. large_files_loop (sc_max_desired_file_size sc) fs [] [] = Inr (ts, ns)
    \<and> mset (map split_file ts @ ns) = mset fs \<and> list_all cuts_inside ts"
proof -
  have "0 < sc_max_desired_file_size sc" "sc_max_desired_file_size sc < 2 ^ 64"
    using assms(1) by (auto simp: sc_config_def max_file_num_def)
  then show ?thesis using large_files_loop_ok [of "sc_max_desired_file_size sc" "[]" fs "[]"] assms(2) by simp
qed

lemma large_files_asserts:
  assumes "sc_config sc" "length fs \<le> 2" "fs \<noteq> []" "0 \<le> size_sum fs" "size_sum fs < 2 ^ 63"
  shows "compute_split_times_for_large_files fs (sc_max_desired_file_size sc) (sc_max_compact_size sc) =
    (if int (sc_max_compact_size sc) < size_sum fs then large_files_loop (sc_max_desired_file_size sc) fs [] []
     else Inl (Panic ''total size of files must be larger than max_compact_size''))"
proof -
  have "as_usize (size_sum fs) = nat (size_sum fs)" using assms(4,5) by (intro as_usize_nonneg) simp_all
  then show ?thesis using assms by (auto simp: compute_split_times_for_large_files_def sc_config_def max_file_num_def)
qed

text \<open>The part of \<open>split_compact_apply\<close> after the limit.\<close>

lemma after_limit_ok:
  assumes pre: "sc_pre lv fs" and cfg: "sc_config sc" and ns: "mset ns = mset fs" and lim: "limit_pre lv ns"
    and st: "start_files lv fs \<noteq> []"
    and k: "limit_files_to_compact (sc_max_compact_files sc) (sc_max_compact_size sc) ns lv = Inr k"
  shows "kcs_files_to_compact (kcs_split k) \<noteq> [] \<and>
      sc_result sc lv (Compact (kcs_files_to_compact (kcs_split k)) FoundSubsetLessThanMaxCompactSize)
    \<or> kcs_files_to_compact (kcs_split k) = [] \<and> kcs_specific_splits (kcs_split k) \<noteq> [] \<and>
      sc_result sc lv (Split (kcs_specific_splits (kcs_split k)) StartLevelOverlapsTooBig)
    \<or> kcs_files_to_compact (kcs_split k) = [] \<and> kcs_specific_splits (kcs_split k) = [] \<and>
      length (kcs_files_to_further_split (kcs_split k)) \<le> 2 \<and> kcs_files_to_further_split (kcs_split k) \<noteq> [] \<and>
      (int (sc_max_compact_size sc) < size_sum (kcs_files_to_further_split (kcs_split k)) \<or> touching lv fs)"
proof -
  let ?mf = "sc_max_compact_files sc" and ?ms = "sc_max_compact_size sc"
  let ?S = "order_files (start_files lv ns) (prev_level lv)" and ?T = "target_files lv ns"
  have ms: "as_i64 ?ms = int ?ms" and mf: "0 < ?mf" using cfg by (auto simp: sc_config_def as_i64_small)
  have r: "limit_result lv ?mf ?ms ?S ?T (kcs_split k)" using limit_files_to_compact_result [OF lim, of ?mf ?ms] k by auto
  note ctx = limit_pre_ctx [OF lim]
  have setS: "set ?S = set (start_files lv fs)" "set ?T = set (target_files lv fs)"
    using mset_start_target [OF ns] by (metis mset_eq_setD set_order_files)+
  then have nt: "touching lv fs \<longleftrightarrow> lv = Final \<and> (\<exists>t \<in> set ?T. \<exists>s \<in> set ?S. max_time t = min_time s)"
    by (simp add: touching_def list_ex_iff)
  show ?thesis
  proof (cases "kcs_split k")
    case (CompactSet cs)
    obtain sc' tc n where c: "cs = sc' @ tc" "sc' \<noteq> []" "set tc \<subseteq> set ?T" "size_sum cs \<le> as_i64 ?ms" "lv \<noteq> Final \<longrightarrow> length sc' \<le> ?mf"
      using r unfolding CompactSet limit_result_def compact_or_further_split.case by blast
    have "start_files lv tc = []" using c(3) by (auto simp: start_files_def target_files_def filter_empty_conv)
    then have "length (start_files lv cs) \<le> length sc'" by (simp add: c(1) start_files_def)
    then show ?thesis using c by (auto simp: CompactSet sc_result_def ms)
  next
    case (FurtherSplit gs)
    then show ?thesis using further_split_total [OF ctx r [unfolded FurtherSplit] mf] by (simp add: ms nt)
  next
    case (SpecificSplit ss)
    have "?S \<noteq> []" using st unfolding set_empty [symmetric] setS(1) .
    then have "ss \<noteq> []" using r by (auto simp: SpecificSplit limit_result_def)
    moreover have "\<forall>s \<in> set ss. cuts_file s" using r by (auto simp: SpecificSplit limit_result_def)
    ultimately show ?thesis by (simp add: SpecificSplit sc_result_def list_all_iff cuts_file_inside)
  qed
qed

definition after_limit :: "split_compact \<Rightarrow> keep_and_compact_split \<Rightarrow> (files_to_split_or_compact \<times> files) res" where
  "after_limit sc k =
     (if kcs_files_to_compact (kcs_split k) \<noteq> [] then Inr (Compact (kcs_files_to_compact (kcs_split k)) FoundSubsetLessThanMaxCompactSize, kcs_keep k)
      else if kcs_specific_splits (kcs_split k) \<noteq> [] then Inr (Split (kcs_specific_splits (kcs_split k)) StartLevelOverlapsTooBig, kcs_keep k)
      else bind_res (compute_split_times_for_large_files (kcs_files_to_further_split (kcs_split k))
              (sc_max_desired_file_size sc) (sc_max_compact_size sc))
        (\<lambda>(ts, ns). if ts = [] then Inr (NoFiles NoFilesToSplitFound, kcs_keep k @ ns)
                    else Inr (Split ts ReduceLargeFileSize, kcs_keep k @ ns)))"

lemma after_limit_cases:
  assumes pre: "sc_pre lv fs" and cfg: "sc_config sc" and m: "mset (kcs_files k) = mset fs"
    and ok: "kcs_files_to_compact (kcs_split k) \<noteq> [] \<and>
      sc_result sc lv (Compact (kcs_files_to_compact (kcs_split k)) FoundSubsetLessThanMaxCompactSize)
    \<or> kcs_files_to_compact (kcs_split k) = [] \<and> kcs_specific_splits (kcs_split k) \<noteq> [] \<and>
      sc_result sc lv (Split (kcs_specific_splits (kcs_split k)) StartLevelOverlapsTooBig)
    \<or> kcs_files_to_compact (kcs_split k) = [] \<and> kcs_specific_splits (kcs_split k) = [] \<and>
      length (kcs_files_to_further_split (kcs_split k)) \<le> 2 \<and> kcs_files_to_further_split (kcs_split k) \<noteq> [] \<and>
      (int (sc_max_compact_size sc) < size_sum (kcs_files_to_further_split (kcs_split k)) \<or> touching lv fs)"
  shows "(\<exists>s keep. after_limit sc k = Inr (s, keep) \<and> mset (into_files s @ keep) = mset fs \<and> sc_result sc lv s)
    \<or> touching lv fs \<and> after_limit sc k = Inl (Panic ''total size of files must be larger than max_compact_size'')
    \<or> (\<exists>gs keep. mset gs + mset keep = mset fs \<and> after_limit sc k =
         bind_res (large_files_loop (sc_max_desired_file_size sc) gs [] [])
           (\<lambda>(ts, ns). if ts = [] then Inr (NoFiles NoFilesToSplitFound, keep @ ns)
                       else Inr (Split ts ReduceLargeFileSize, keep @ ns)))"
proof -
  let ?c = "kcs_files_to_compact (kcs_split k)" and ?p = "kcs_specific_splits (kcs_split k)"
    and ?f = "kcs_files_to_further_split (kcs_split k)"
  have m: "mset ?c + (mset ?f + (mset (map split_file ?p) + mset (kcs_keep k))) = mset fs"
    using m by (simp add: kcs_files_def)
  from ok show ?thesis
  proof (elim disjE [where P = "_ \<noteq> [] \<and> _"] disjE [where P = "_ = [] \<and> _ \<noteq> [] \<and> _"] conjE)
    assume a: "?c \<noteq> []" "sc_result sc lv (Compact ?c FoundSubsetLessThanMaxCompactSize)"
    then have "?f = []" "?p = []" by (cases "kcs_split k"; simp)+
    with a m show ?thesis by (simp add: after_limit_def)
  next
    assume a: "?c = []" "?p \<noteq> []" "sc_result sc lv (Split ?p StartLevelOverlapsTooBig)"
    then have "?f = []" by (cases "kcs_split k") simp_all
    with a m show ?thesis by (simp add: after_limit_def)
  next
    assume a: "?c = []" "?p = []" "length ?f \<le> 2" "?f \<noteq> []"
      and b: "int (sc_max_compact_size sc) < size_sum ?f \<or> touching lv fs"
    have f: "mset ?f + mset (kcs_keep k) = mset fs" using m a by simp
    have "0 \<le> size_sum ?f" "size_sum ?f < 2 ^ 63" using size_sum_sub [OF f] pre by (auto simp: sc_pre_def)
    note l = large_files_asserts [OF cfg a(3,4) this]
    show ?thesis
    proof (cases "int (sc_max_compact_size sc) < size_sum ?f")
      case True
      then have "after_limit sc k = bind_res (large_files_loop (sc_max_desired_file_size sc) ?f [] [])
          (\<lambda>(ts, ns). if ts = [] then Inr (NoFiles NoFilesToSplitFound, kcs_keep k @ ns)
                      else Inr (Split ts ReduceLargeFileSize, kcs_keep k @ ns))"
        using a(1,2) l by (simp add: after_limit_def)
      then show ?thesis using f by blast
    next
      case False
      then show ?thesis using a(1,2) b l by (simp add: after_limit_def)
    qed
  qed
qed

lemma no_start_count:
  "start_files lv fs = [] \<Longrightarrow> length (filter (\<lambda>f. compaction_level f = prev_level lv) fs) = 0"
  by (auto simp: start_files_def filter_empty_conv)

lemma split_compact_no_start:
  assumes "sc_pre lv fs" "sc_config sc" "start_files lv fs = []" "int (sc_max_compact_size sc) < size_sum fs"
  shows "split_compact_apply sc fs lv = Inl (Panic ''there must be at least one file and at most 2 files'')"
proof -
  have ne: "fs \<noteq> []" using assms(4) by (auto simp: size_sum_def)
  have small: "\<not> (as_usize (size_sum fs) \<le> sc_max_compact_size sc
      \<and> length (filter (\<lambda>f. compaction_level f = prev_level lv) fs) < sc_max_compact_files sc)"
    using size_sum_bounds [OF assms(1)] assms(4) by auto
  define ns where "ns = sort_key min_time (target_files lv fs)"
  have lev: "list_all (\<lambda>f. compaction_level f = lv \<or> compaction_level f = prev_level lv) fs" using assms(1) by (simp add: sc_pre_def)
  then have id: "identify_start_level_files_to_split fs lv = Inr ([], ns)"
    using identify_eq(1) [OF lev refl refl] by (simp add: assms(3) ns_def)
  have "set ns \<subseteq> set fs" by (auto simp: ns_def target_files_def)
  then have lev': "list_all (\<lambda>f. compaction_level f = lv \<or> compaction_level f = prev_level lv) ns"
    using lev by (auto simp: list_all_iff)
  have "\<forall>f \<in> set ns. \<not> compaction_level f \<le> prev_level lv" by (auto simp: ns_def target_files_def)
  then have "target_level_split ns (prev_level lv) = Inr ([], ns)" by (simp add: target_level_split_def filter_empty_conv)
  then have "limit_files_to_compact (sc_max_compact_files sc) (sc_max_compact_size sc) ns lv
     = Inr \<lparr>kcs_split = SpecificSplit [], kcs_keep = ns\<rparr>"
    using lev' by (simp add: limit_files_to_compact_def limit_finish_def init_state_def)
  then show ?thesis unfolding split_compact_apply_def if_not_P [OF ne] if_not_P [OF small]
    by (simp add: id Let_def compute_split_times_for_large_files_def assert_res_def)
qed

text \<open>What happens, up to the loop over large files.\<close>

lemma split_compact_cases:
  assumes pre: "sc_pre lv fs" and cfg: "sc_config sc" and ne: "fs \<noteq> []"
  obtains (result) s keep where "split_compact_apply sc fs lv = Inr (s, keep)" "mset (into_files s @ keep) = mset fs" "sc_result sc lv s"
  | (no_start) "start_files lv fs = []" "int (sc_max_compact_size sc) < size_sum fs"
      "split_compact_apply sc fs lv = Inl (Panic ''there must be at least one file and at most 2 files'')"
  | (touching) "touching lv fs"
      "split_compact_apply sc fs lv = Inl (Panic ''total size of files must be larger than max_compact_size'')"
  | (large) gs keep where "mset gs + mset keep = mset fs"
      "split_compact_apply sc fs lv = bind_res (large_files_loop (sc_max_desired_file_size sc) gs [] [])
         (\<lambda>(ts, ns). if ts = [] then Inr (NoFiles NoFilesToSplitFound, keep @ ns)
                     else Inr (Split ts ReduceLargeFileSize, keep @ ns))"
proof (cases "as_usize (size_sum fs) \<le> sc_max_compact_size sc
    \<and> length (filter (\<lambda>f. compaction_level f = prev_level lv) fs) < sc_max_compact_files sc")
  case True
  have "l \<le> Initial \<longleftrightarrow> l = Initial" for l by (cases l) (simp_all add: level_order_defs)
  then have "start_files FileNonOverlapped fs = filter (\<lambda>f. compaction_level f = Initial) fs"
    by (simp add: start_files_def)
  then show thesis using True ne size_sum_bounds [OF pre]
    by (intro result [of "Compact fs TotalSizeLessThanMaxCompactSize" "[]"]) (auto simp: split_compact_apply_def sc_result_def)
next
  case small: False
  obtain ts ns where id: "identify_start_level_files_to_split fs lv = Inr (ts, ns)" "mset (map split_file ts @ ns) = mset fs"
    "\<forall>s \<in> set ts. cuts_file s" "\<forall>f \<in> set (start_files lv ns). length (filter (overlaps f) (target_files lv fs)) \<le> 1"
    using identify_aligned [of lv fs] pre by (auto simp: sc_pre_def)
  consider "ts \<noteq> []" | "start_files lv fs = []" "int (sc_max_compact_size sc) < size_sum fs" | "ts = []" "start_files lv fs \<noteq> []"
    using small size_sum_bounds [OF pre] cfg no_start_count by (fastforce simp: sc_config_def)
  then show thesis
  proof cases
    case 1
    then show thesis using small ne id
      by (intro result [of "Split ts ReduceOverlap" ns])
        (auto simp: split_compact_apply_def sc_result_def list_all_iff cuts_file_inside)
  next
    case 2
    then show thesis using no_start split_compact_no_start [OF pre cfg] by blast
  next
    case 3
    then have ns: "mset ns = mset fs" using id(2) by simp
    have lim: "limit_pre lv ns" using sc_pre_limit_pre [OF pre ns id(4)] .
    obtain k where k: "limit_files_to_compact (sc_max_compact_files sc) (sc_max_compact_size sc) ns lv = Inr k"
      "mset (kcs_files k) = mset fs" using limit_files_to_compact_result [OF lim] ns by metis
    have e: "split_compact_apply sc fs lv = after_limit sc k"
      unfolding split_compact_apply_def if_not_P [OF ne] if_not_P [OF small]
      by (simp add: id(1) 3(1) k(1) Let_def after_limit_def)
    from after_limit_cases [OF pre cfg k(2) after_limit_ok [OF pre cfg ns lim 3(2) k(1)]] show thesis
      unfolding e [symmetric] by (elim disjE exE conjE) (blast intro: result touching large)+
  qed
qed

lemma split_compact_result:
  assumes pre: "sc_pre lv fs" and cfg: "sc_config sc" and ne: "fs \<noteq> []" and fit: "times_fit fs"
  shows "(\<exists>s keep. split_compact_apply sc fs lv = Inr (s, keep) \<and> mset (into_files s @ keep) = mset fs \<and> sc_result sc lv s)
    \<or> start_files lv fs = [] \<and> int (sc_max_compact_size sc) < size_sum fs
        \<and> split_compact_apply sc fs lv = Inl (Panic ''there must be at least one file and at most 2 files'')
    \<or> touching lv fs
        \<and> split_compact_apply sc fs lv = Inl (Panic ''total size of files must be larger than max_compact_size'')"
  using pre cfg ne
proof (cases rule: split_compact_cases)
  case (large gs keep)
  have "set gs \<subseteq> set fs" using large(1) by (metis Un_upper1 set_mset_mset set_mset_union)
  from large_files_loop_config [OF cfg times_fit_sub [OF fit this]] obtain us vs where
    u: "large_files_loop (sc_max_desired_file_size sc) gs [] [] = Inr (us, vs)"
    "mset (map split_file us @ vs) = mset gs" "list_all cuts_inside us" by blast
  have "mset (map split_file us) + (mset keep + mset vs) = mset fs"
    using large(1) u(2) [symmetric] by (simp add: ac_simps)
  then show ?thesis using u(1,3) by (auto simp: large(2) sc_result_def)
qed blast+

text \<open>
  C3. What split or compact does with the files of a branch, in every case. The files are of two adjacent
  levels, with target level files that do not overlap (and, for the final level, start level files
  that do not overlap either), and span at most 146 years each. It returns a set of files to compact
  that is not empty and within the byte limit (when compacting to level 1 also with at most the
  allowed number of level 0 files; for the final level the number of files is not limited), or files
  to split at ascending times inside their ranges, or the finding that no file can be split; together
  with the files to keep that is exactly the input. There are two ways for it to panic instead: when
  there is no start level file and the files exceed one compaction, and, for the final level only, when
  a start level file begins at the very time at which a target level file ends.
\<close>

theorem split_compact_ok:
  assumes "sc_pre lv fs" "sc_config sc" "fs \<noteq> []" "times_fit fs"
  shows "(\<exists>s keep. split_compact_apply sc fs lv = Inr (s, keep) \<and> mset (into_files s @ keep) = mset fs \<and> sc_result sc lv s)
    \<or> start_files lv fs = [] \<and> int (sc_max_compact_size sc) < size_sum fs
        \<and> split_compact_apply sc fs lv = Inl (Panic ''there must be at least one file and at most 2 files'')
    \<or> touching lv fs
        \<and> split_compact_apply sc fs lv = Inl (Panic ''total size of files must be larger than max_compact_size'')"
  using split_compact_result [OF assms] .

text \<open>
  C19. Without start level files, and with more bytes than one compaction may have, split or compact
  panics: the list of large files it wants to split is empty, which \<open>compute_split_times_for_large_files\<close>
  asserts not to happen.
\<close>

theorem split_compact_no_start_panics:
  assumes "sc_pre lv fs" "sc_config sc" "start_files lv fs = []" "int (sc_max_compact_size sc) < size_sum fs"
  shows "split_compact_apply sc fs lv = Inl (Panic ''there must be at least one file and at most 2 files'')"
  using split_compact_no_start [OF assms] .

definition sc_ex :: split_compact where
  "sc_ex = \<lparr>sc_max_compact_files = 10, sc_max_compact_size = 100, sc_max_desired_file_size = 40\<rparr>"

lemmas sc_eval = sc_ex_def file_of_def sc_pre_def sc_config_def target_files_def start_files_def level_order_defs
  size_sum_def wf_file_def disjoint_times_def max_file_num_def overlaps_def

theorem split_compact_ok_witness:
  "\<exists>s keep. split_compact_apply sc_ex [file_of 1 Initial 0 9 60 5, file_of 2 FileNonOverlapped 4 20 70 2] FileNonOverlapped
      = Inr (s, keep) \<and> sc_result sc_ex FileNonOverlapped s \<and> length (into_files s) + length keep = 2"
proof -
  let ?fs = "[file_of 1 Initial 0 9 60 5, file_of 2 FileNonOverlapped 4 20 70 2]"
  have "sc_pre FileNonOverlapped ?fs" "sc_config sc_ex" "?fs \<noteq> []" "times_fit ?fs"
    by (simp_all add: sc_eval times_fit_def)
  moreover have "start_files FileNonOverlapped ?fs \<noteq> []" "\<not> touching FileNonOverlapped ?fs"
    by (simp_all add: sc_eval touching_def)
  ultimately obtain s keep where r: "split_compact_apply sc_ex ?fs FileNonOverlapped = Inr (s, keep)"
    "mset (into_files s @ keep) = mset ?fs" "sc_result sc_ex FileNonOverlapped s" using split_compact_ok [of FileNonOverlapped ?fs sc_ex] by blast
  from mset_eq_length [OF r(2)] r show ?thesis by auto
qed

theorem split_compact_no_start_panics_witness:
  "\<exists>fs. size_sum fs = 130 \<and> split_compact_apply sc_ex fs FileNonOverlapped
     = Inl (Panic ''there must be at least one file and at most 2 files'')"
proof -
  let ?fs = "[file_of 1 FileNonOverlapped 0 3 60 5, file_of 2 FileNonOverlapped 4 20 70 2]"
  have "sc_pre FileNonOverlapped ?fs" "sc_config sc_ex" "start_files FileNonOverlapped ?fs = []"
    "int (sc_max_compact_size sc_ex) < size_sum ?fs"
    by (simp_all add: sc_eval)
  from split_compact_no_start_panics [OF this] show ?thesis
    by (intro exI [of _ ?fs]) (simp add: size_sum_def file_of_def)
qed

text \<open>
  A file of three nanoseconds that is half as large again as desired is to be split, but the rounded
  split interval covers its whole range: it has no split time.
\<close>

lemma large_file_without_split_times:
  "compute_split_times_for_large_files [file_of 1 Initial 0 3 120 5, file_of 2 FileNonOverlapped 0 3 90 5] 100 200
     = Inr ([\<lparr>split_file = file_of 1 Initial 0 3 120 5, split_times = []\<rparr>], [file_of 2 FileNonOverlapped 0 3 90 5])"
proof -
  have "max_file_size 100 = 110"
    by (simp add: max_file_size_def percentage_of_soft_exceeded_def f64_eval)
  moreover have "split_interval 0 3 120 100 = 3" by (simp add: split_interval_def f64_eval)
  moreover have "split_time_loop [\<lparr>mm_min = 0, mm_max = 3\<rparr>] 3 3 0 [] = Some []" by (simp add: split_time_loop_step)
  ultimately show ?thesis
    by (simp add: compute_split_times_for_large_files_def max_file_num_def size_sum_def file_of_def as_usize_def
        compute_split_time_def)
qed

text \<open>
  A start level file that begins where a target level file ends: the two files of the smallest set fit
  into a compaction, a third is too much, and splitting the target level file is not possible at that
  time. The files are passed on as too large, which they are not.
\<close>

lemma touching_files_panic:
  "split_compact_apply sc_ex [file_of 1 FileNonOverlapped 0 10 10 5, file_of 2 FileNonOverlapped 20 30 90 5,
      file_of 3 Final 5 20 10 2] Final
     = Inl (Panic ''total size of files must be larger than max_compact_size'')"
  by (simp add: split_compact_apply_def sc_eval as_usize_def identify_start_level_files_to_split_def target_level_split_def
      limit_files_to_compact_def order_files_def init_state_def time_range_def overlaps_time_range_def extra_overlapped_def
      as_i64_def limit_stop_def specific_splits_of_def limit_finish_def compute_split_times_for_large_files_def
      assert_res_def)

end
