(* ===== verification/Classifier.thy ===== *)
theory Classifier
  imports Split_Compact Round_Info
begin

text \<open>
  Models \<open>components/file_classifier/split_based.rs\<close>: what is done with the files of one branch, for each
  type of compaction.
\<close>

section \<open>Many small files\<close>

record chunk_state =
  cs_compact :: files
  cs_keep :: files
  chunk :: files
  chunk_bytes :: nat

definition many_files_step :: "nat \<Rightarrow> nat \<Rightarrow> nat \<Rightarrow> parquet_file \<Rightarrow> chunk_state \<Rightarrow> chunk_state" where
  "many_files_step max_bytes max_num skip_size f st =
     (if cs_compact st \<noteq> [] then st\<lparr>cs_keep := cs_keep st @ [f]\<rparr>
      else if chunk_bytes st + as_usize (file_size_bytes f) > max_bytes
           \<or> length (chunk st) + 1 > max_num
           \<or> file_size_bytes f \<ge> as_i64 skip_size
      then if length (chunk st) > 1
           then st\<lparr>cs_keep := cs_keep st @ [f], cs_compact := chunk st, chunk := []\<rparr>
           else if chunk st \<noteq> []
           then st\<lparr>cs_keep := cs_keep st @ [f] @ chunk st, chunk := []\<rparr>
           else st\<lparr>cs_keep := cs_keep st @ [f]\<rparr>
      else st\<lparr>chunk_bytes := chunk_bytes st + as_usize (file_size_bytes f), chunk := chunk st @ [f]\<rparr>)"

definition file_classification_for_many_files :: "nat \<Rightarrow> nat \<Rightarrow> files \<Rightarrow> compaction_level \<Rightarrow> file_classification res" where
  "file_classification_for_many_files max_bytes max_num fs lv =
     assert_res (list_all (\<lambda>f. compaction_level f = lv) fs) ''all files to compact must be in the target level'' (
     assert_res (max_num \<noteq> 0) ''attempt to divide by zero'' (
     let st = fold (many_files_step max_bytes max_num (max_bytes * 2 div max_num)) (order_files fs (prev_level lv))
                \<lparr>cs_compact = [], cs_keep = [], chunk = [], chunk_bytes = 0\<rparr>
     in bind_res
          (if chunk st \<noteq> [] then
             assert_res (cs_compact st = []) ''we should not accumulate multiple non-contiguous chunks to compact''
               (Inr (if length (chunk st) > 1 then st\<lparr>cs_compact := chunk st\<rparr> else st\<lparr>cs_keep := cs_keep st @ chunk st\<rparr>))
           else Inr st) (\<lambda>st.
        assert_res (chunk st = [] \<or> length (chunk st) > 1) ''should not have only 1 chunk''
          (Inr \<lparr>target_level = lv,
                files_to_make_progress_on = \<lparr>upgrade = [],
                  split_or_compact = files_to_compact_from (cs_compact st) ManySmallFilesReason\<rparr>,
                files_to_keep = cs_keep st\<rparr>))))"

section \<open>Vertical split\<close>

definition file_classification_for_vertical_split :: "int list \<Rightarrow> files \<Rightarrow> file_classification res" where
  "file_classification_for_vertical_split cuts fs =
     bind_res (map_res (\<lambda>f.
         let this_file_splits = filter (\<lambda>t. t \<ge> min_time f \<and> t < max_time f) cuts
         in assert_res (this_file_splits \<noteq> []) ''files not needing split should be filtered out''
              (Inr \<lparr>split_file = f, split_times = this_file_splits\<rparr>)) fs) (\<lambda>ss.
       Inr \<lparr>target_level = Initial,
            files_to_make_progress_on = \<lparr>upgrade = [], split_or_compact = Split ss VerticalSplitReason\<rparr>,
            files_to_keep = []\<rparr>)"

section \<open>The classifier\<close>

text \<open>
  The type parameters of \<open>SplitBasedFileClassifier\<close> are instantiated as in
  \<open>components/hardcoded.rs\<close>.
\<close>

record classifier =
  cl_undersized_threshold :: nat
  cl_max_desired_file_size :: nat
  cl_split_or_compact :: split_compact

definition classify :: "classifier \<Rightarrow> compact_type \<Rightarrow> files \<Rightarrow> file_classification res" where
  "classify cl ct fs =
     (case ct of
        ManySmallFiles start_level max_num max_bytes \<Rightarrow> file_classification_for_many_files max_bytes max_num fs start_level
      | VerticalSplit cuts \<Rightarrow> file_classification_for_vertical_split cuts fs
      | TargetLevel lv max_bytes \<Rightarrow>
          bind_res (target_level_split fs lv) (\<lambda>(to_compact, keep).
          bind_res (non_overlap_split (cl_undersized_threshold cl) to_compact lv) (\<lambda>(to_compact, non_overlapping).
          bind_res (upgrade_split (cl_max_desired_file_size cl) to_compact lv) (\<lambda>(to_compact, to_upgrade).
          bind_res (split_compact_apply (cl_split_or_compact cl) to_compact lv) (\<lambda>(sc, other).
            Inr \<lparr>target_level = lv,
                 files_to_make_progress_on = \<lparr>upgrade = to_upgrade, split_or_compact = sc\<rparr>,
                 files_to_keep = keep @ non_overlapping @ other\<rparr>))))
      | Deferred \<Rightarrow>
          Inr \<lparr>target_level = Initial,
               files_to_make_progress_on = \<lparr>upgrade = [], split_or_compact = NoFiles DeferredReason\<rparr>,
               files_to_keep = fs\<rparr>)"

section \<open>Many small files: what the loop keeps\<close>

definition chunk_inv :: "nat \<Rightarrow> nat \<Rightarrow> files \<Rightarrow> chunk_state \<Rightarrow> bool" where
  "chunk_inv max_bytes max_num seen st \<longleftrightarrow>
     mset (cs_compact st @ cs_keep st @ chunk st) = mset seen
     \<and> (cs_compact st = [] \<longrightarrow> (\<exists>pre. seen = pre @ chunk st))
     \<and> (cs_compact st \<noteq> [] \<longrightarrow> chunk st = [] \<and> 1 < length (cs_compact st) \<and> length (cs_compact st) \<le> max_num
          \<and> sum_list (map (\<lambda>f. as_usize (file_size_bytes f)) (cs_compact st)) \<le> max_bytes
          \<and> (\<exists>pre post. seen = pre @ cs_compact st @ post))
     \<and> length (chunk st) \<le> max_num
     \<and> sum_list (map (\<lambda>f. as_usize (file_size_bytes f)) (chunk st)) \<le> chunk_bytes st
     \<and> (chunk st \<noteq> [] \<longrightarrow> chunk_bytes st \<le> max_bytes)"

lemma many_files_step_inv:
  assumes "chunk_inv max_bytes max_num seen st"
  shows "chunk_inv max_bytes max_num (seen @ [f]) (many_files_step max_bytes max_num skip f st)"
proof -
  have m: "mset (cs_compact st @ cs_keep st @ chunk st) = mset seen"
    using assms by (simp add: chunk_inv_def)
  consider "cs_compact st \<noteq> []" | "cs_compact st = []" "chunk_bytes st + as_usize (file_size_bytes f) > max_bytes
           \<or> length (chunk st) + 1 > max_num \<or> file_size_bytes f \<ge> as_i64 skip"
    | "cs_compact st = []" "\<not> (chunk_bytes st + as_usize (file_size_bytes f) > max_bytes
           \<or> length (chunk st) + 1 > max_num \<or> file_size_bytes f \<ge> as_i64 skip)" by blast
  then show ?thesis
  proof cases
    case 1
    then obtain pre post where "seen = pre @ cs_compact st @ post" using assms by (auto simp: chunk_inv_def)
    then have seg: "\<exists>pre post. seen @ [f] = pre @ cs_compact st @ post"
      by (intro exI [of _ pre] exI [of _ "post @ [f]"]) simp
    have "many_files_step max_bytes max_num skip f st = st\<lparr>cs_keep := cs_keep st @ [f]\<rparr>"
      using 1 by (simp add: many_files_step_def)
    then show ?thesis using assms 1 m seg by (simp add: chunk_inv_def)
  next
    case 2
    obtain pre where pre: "seen = pre @ chunk st" using assms 2(1) by (auto simp: chunk_inv_def)
    consider "1 < length (chunk st)" | "chunk st = []" | x where "chunk st = [x]"
      by (cases "chunk st" rule: remdups_adj.cases) auto
    then show ?thesis
    proof cases
      case 1
      then have "many_files_step max_bytes max_num skip f st = st\<lparr>cs_keep := cs_keep st @ [f], cs_compact := chunk st, chunk := []\<rparr>"
        using 2 by (simp add: many_files_step_def)
      then show ?thesis using assms 1 2(1) m pre by (auto simp: chunk_inv_def)
    next
      case c: 2
      have "many_files_step max_bytes max_num skip f st = st\<lparr>cs_keep := cs_keep st @ [f]\<rparr>"
        unfolding many_files_step_def if_not_P [OF not_not [THEN iffD2, OF 2(1)]] if_P [OF 2(2)] by (simp add: c)
      then show ?thesis using assms 2(1) m c by (auto simp: chunk_inv_def)
    next
      case (3 x)
      have "many_files_step max_bytes max_num skip f st = st\<lparr>cs_keep := cs_keep st @ [f] @ chunk st, chunk := []\<rparr>"
        unfolding many_files_step_def if_not_P [OF not_not [THEN iffD2, OF 2(1)]] if_P [OF 2(2)] by (simp add: 3)
      then show ?thesis using assms 2(1) m 3 by (auto simp: chunk_inv_def)
    qed
  next
    case 3
    obtain pre where pre: "seen = pre @ chunk st" using assms 3(1) by (auto simp: chunk_inv_def)
    have "many_files_step max_bytes max_num skip f st =
        st\<lparr>chunk_bytes := chunk_bytes st + as_usize (file_size_bytes f), chunk := chunk st @ [f]\<rparr>"
      unfolding many_files_step_def if_not_P [OF not_not [THEN iffD2, OF 3(1)]] if_not_P [OF 3(2)] ..
    then show ?thesis using assms 3 m pre by (auto simp: chunk_inv_def)
  qed
qed

lemma many_files_fold_inv:
  "chunk_inv max_bytes max_num seen st \<Longrightarrow>
     chunk_inv max_bytes max_num (seen @ fs) (fold (many_files_step max_bytes max_num skip) fs st)"
proof (induction fs arbitrary: seen st)
  case (Cons f fs)
  from Cons.IH [OF many_files_step_inv [OF Cons.prems]] show ?case by simp
qed simp

text \<open>
  C20. Classifying many small files. Either the last assertion fails (see the next property) or the
  classification accounts for every file, and what it compacts is a contiguous segment of the files in
  deduplication order, of at least two files, within the limits on file count and bytes.
\<close>

theorem many_files_classification:
  assumes "list_all (\<lambda>f. compaction_level f = lv) fs" "0 < max_num"
  shows "case file_classification_for_many_files max_bytes max_num fs lv of
      Inr c \<Rightarrow> mset (classified_files c) = mset fs \<and> upgrade (files_to_make_progress_on c) = []
        \<and> (let cs = into_files (split_or_compact (files_to_make_progress_on c)) in cs \<noteq> [] \<longrightarrow>
             1 < length cs \<and> length cs \<le> max_num \<and> sum_list (map (\<lambda>f. as_usize (file_size_bytes f)) cs) \<le> max_bytes
             \<and> (\<exists>pre post. order_files fs (prev_level lv) = pre @ cs @ post))
    | Inl p \<Rightarrow> p = Panic ''should not have only 1 chunk''"
proof -
  let ?fs = "order_files fs (prev_level lv)"
  define st where "st = fold (many_files_step max_bytes max_num (max_bytes * 2 div max_num)) ?fs
      \<lparr>cs_compact = [], cs_keep = [], chunk = [], chunk_bytes = 0\<rparr>"
  have "chunk_inv max_bytes max_num [] \<lparr>cs_compact = [], cs_keep = [], chunk = [], chunk_bytes = 0\<rparr>"
    by (simp add: chunk_inv_def)
  from many_files_fold_inv [OF this] have inv: "chunk_inv max_bytes max_num ?fs st" by (simp add: st_def)
  then have m: "mset (cs_compact st) + (mset (cs_keep st) + mset (chunk st)) = mset fs" by (simp add: chunk_inv_def)
  have e: "file_classification_for_many_files max_bytes max_num fs lv =
     bind_res
          (if chunk st \<noteq> [] then
             assert_res (cs_compact st = []) ''we should not accumulate multiple non-contiguous chunks to compact''
               (Inr (if length (chunk st) > 1 then st\<lparr>cs_compact := chunk st\<rparr> else st\<lparr>cs_keep := cs_keep st @ chunk st\<rparr>))
           else Inr st) (\<lambda>st.
        assert_res (chunk st = [] \<or> length (chunk st) > 1) ''should not have only 1 chunk''
          (Inr \<lparr>target_level = lv,
                files_to_make_progress_on = \<lparr>upgrade = [],
                  split_or_compact = files_to_compact_from (cs_compact st) ManySmallFilesReason\<rparr>,
                files_to_keep = cs_keep st\<rparr>))"
    using assms by (simp add: file_classification_for_many_files_def st_def Let_def)
  consider "chunk st = []" | x where "chunk st = [x]" | "1 < length (chunk st)"
    by (cases "chunk st" rule: remdups_adj.cases) auto
  then show ?thesis
  proof cases
    case 1
    then show ?thesis using inv m unfolding e by (auto simp: chunk_inv_def classified_files_def)
  next
    case (2 x)
    then have "cs_compact st = []" using inv by (auto simp: chunk_inv_def)
    with 2 show ?thesis unfolding e by (simp add: assert_res_def)
  next
    case 3
    then have c: "chunk st \<noteq> []" "cs_compact st = []" using inv by (auto simp: chunk_inv_def)
    then obtain pre where "?fs = pre @ chunk st" using inv by (auto simp: chunk_inv_def)
    then have seg: "\<exists>pre post. ?fs = pre @ chunk st @ post" by (metis append_Nil2)
    have "sum_list (map (\<lambda>f. as_usize (file_size_bytes f)) (chunk st)) \<le> max_bytes" "length (chunk st) \<le> max_num"
      using inv c by (auto simp: chunk_inv_def)
    moreover have "file_classification_for_many_files max_bytes max_num fs lv =
        Inr \<lparr>target_level = lv, files_to_make_progress_on = \<lparr>upgrade = [],
                  split_or_compact = files_to_compact_from (chunk st) ManySmallFilesReason\<rparr>, files_to_keep = cs_keep st\<rparr>"
      unfolding e using c 3 by (simp add: assert_res_def)
    ultimately show ?thesis using 3 seg m c(2) by (simp add: classified_files_def Let_def ac_simps)
  qed
qed

text \<open>
  C21. The last assertion for many small files does fail: whenever every file but the last in
  deduplication order is too large to be worth compacting, the last one is left alone in its chunk and
  the classification panics instead of keeping it.
\<close>

theorem many_files_single_chunk_panics:
  assumes "list_all (\<lambda>f. compaction_level f = lv) fs" "0 < max_num"
    and "order_files fs (prev_level lv) = pre @ [f]"
    and "list_all (\<lambda>g. as_i64 (max_bytes * 2 div max_num) \<le> file_size_bytes g) pre"
    and "file_size_bytes f < as_i64 (max_bytes * 2 div max_num)" "as_usize (file_size_bytes f) \<le> max_bytes"
  shows "file_classification_for_many_files max_bytes max_num fs lv = Inl (Panic ''should not have only 1 chunk'')"
proof -
  let ?step = "many_files_step max_bytes max_num (max_bytes * 2 div max_num)"
  have "fold ?step gs \<lparr>cs_compact = [], cs_keep = ks, chunk = [], chunk_bytes = 0\<rparr>
      = \<lparr>cs_compact = [], cs_keep = ks @ gs, chunk = [], chunk_bytes = 0\<rparr>"
    if "list_all (\<lambda>g. as_i64 (max_bytes * 2 div max_num) \<le> file_size_bytes g) gs" for gs ks
    using that by (induction gs arbitrary: ks) (auto simp: many_files_step_def)
  from this [OF assms(4), of "[]"] have "fold ?step (pre @ [f]) \<lparr>cs_compact = [], cs_keep = [], chunk = [], chunk_bytes = 0\<rparr>
      = \<lparr>cs_compact = [], cs_keep = pre, chunk = [f], chunk_bytes = as_usize (file_size_bytes f)\<rparr>"
    using assms(2,5,6) by (simp add: many_files_step_def)
  then show ?thesis using assms(1,2) unfolding file_classification_for_many_files_def assms(3) by (simp add: assert_res_def)
qed

theorem many_files_classification_witness:
  "case file_classification_for_many_files 100 3 [file_of 1 Initial 0 9 5 5, file_of 2 Initial 4 20 6 2] Initial of
     Inr c \<Rightarrow> num_files_to_compact (split_or_compact (files_to_make_progress_on c)) = 2
       \<and> length (classified_files c) = 2 | Inl _ \<Rightarrow> False"
proof -
  let ?fs = "[file_of 1 Initial 0 9 5 5, file_of 2 Initial 4 20 6 2]"
  have "list_all (\<lambda>f. compaction_level f = Initial) ?fs" by (simp add: file_of_def)
  note this many_files_classification [OF this, of 3 100]
  then show ?thesis
    by (simp add: file_classification_for_many_files_def order_files_def file_of_def many_files_step_def as_usize_def
        as_i64_def files_to_compact_from_def classified_files_def assert_res_def)
qed

theorem many_files_single_chunk_panics_witness:
  "file_classification_for_many_files 100 4 [file_of 1 Initial 0 9 60 1, file_of 2 Initial 4 20 10 2] Initial
     = Inl (Panic ''should not have only 1 chunk'')"
  by (rule many_files_single_chunk_panics [of _ _ _ "[file_of 1 Initial 0 9 60 1]" "file_of 2 Initial 4 20 10 2"])
    (simp_all add: file_of_def order_files_def as_i64_def as_usize_def)

section \<open>Compaction to a target level\<close>

text \<open>
  What holds of the files of a branch: only the target level, the level below it and higher levels
  occur; within the target level no two files overlap, and below the final level neither do files of
  level 1.
\<close>

definition classify_pre :: "compaction_level \<Rightarrow> files \<Rightarrow> bool" where
  "classify_pre lv fs \<longleftrightarrow> lv \<noteq> Initial
     \<and> list_all (\<lambda>f. compaction_level f = lv \<or> compaction_level f = prev_level lv \<or> lv < compaction_level f) fs
     \<and> distinct (map pf_id fs) \<and> list_all wf_file fs
     \<and> disjoint_times (filter (\<lambda>f. compaction_level f = lv) fs)
     \<and> (lv = Final \<longrightarrow> disjoint_times (filter (\<lambda>f. compaction_level f = prev_level lv) fs))
     \<and> list_all (\<lambda>f. 0 \<le> file_size_bytes f) fs \<and> size_sum fs < 2 ^ 63"

lemma level_cases:
  assumes "lv \<noteq> Initial" "l = lv \<or> l = prev_level lv"
  shows "l \<le> prev_level lv \<longleftrightarrow> l = prev_level lv" "l \<le> lv" "\<not> l \<le> prev_level lv \<longleftrightarrow> l = lv"
  using assms by (cases lv; auto simp: level_order_defs)+

lemma sub_mset_append:
  assumes "mset gs \<subseteq># mset fs"
  obtains hs where "mset fs = mset (gs @ hs)"
proof -
  obtain m where "mset fs = mset gs + m" using assms by (auto simp: mset_subset_eq_exists_conv)
  moreover obtain hs where "m = mset hs" by (metis ex_mset)
  ultimately show thesis using that by simp
qed

lemma distinct_sub_mset: "distinct fs \<Longrightarrow> mset gs \<subseteq># mset fs \<Longrightarrow> distinct gs"
  by (metis sub_mset_append mset_eq_imp_distinct_iff distinct_append)

lemma disjoint_times_sub:
  assumes "disjoint_times fs" "mset gs \<subseteq># mset fs"
  shows "disjoint_times gs"
proof -
  have "distinct gs" using assms distinct_sub_mset by (auto simp: disjoint_times_def)
  moreover have "set gs \<subseteq> set fs" using assms(2) by (metis set_mset_mono set_mset_mset)
  ultimately show ?thesis using assms(1) by (auto simp: disjoint_times_def list_all_iff)
qed

lemma classify_pre_sub:
  assumes pre: "classify_pre lv fs" and sub: "mset gs \<subseteq># mset fs"
    and lev: "\<forall>f \<in> set gs. compaction_level f = lv \<or> compaction_level f = prev_level lv"
  shows "sc_pre lv gs"
proof -
  have s: "set gs \<subseteq> set fs" using sub by (metis set_mset_mono set_mset_mset)
  have l0: "lv \<noteq> Initial" using pre by (simp add: classify_pre_def)
  have st: "start_files lv gs = filter (\<lambda>f. compaction_level f = prev_level lv) gs"
    "target_files lv gs = filter (\<lambda>f. compaction_level f = lv) gs"
    using lev level_cases [OF l0] by (auto simp: start_files_def target_files_def intro!: filter_cong)
  have "mset (filter P gs) \<subseteq># mset (filter P fs)" for P using sub by (simp add: multiset_filter_mono)
  note d = disjoint_times_sub [OF _ this]
  have "mset (map pf_id gs) \<subseteq># mset (map pf_id fs)" using sub by (simp add: image_mset_subseteq_mono)
  then have "distinct (map pf_id gs)" using pre unfolding classify_pre_def
    by (metis distinct_sub_mset)
  moreover have "size_sum gs \<le> size_sum fs"
  proof -
    obtain hs where "mset fs = mset (gs @ hs)" using sub by (rule sub_mset_append)
    then have "mset gs + mset hs = mset fs" by simp
    then show ?thesis using pre by (intro size_sum_sub) (auto simp: classify_pre_def)
  qed
  ultimately show ?thesis using pre lev s d unfolding sc_pre_def classify_pre_def st
    by (auto simp: list_all_iff subset_iff)
qed

text \<open>The three splits return, and no file is lost.\<close>

lemma target_splits:
  assumes pre: "classify_pre lv fs"
  obtains c0 k0 c1 k1 c2 u where "target_level_split fs lv = Inr (c0, k0)"
    "non_overlap_split thr c0 lv = Inr (c1, k1)" "upgrade_split sz c1 lv = Inr (c2, u)"
    "mset c2 + mset u = mset c1" "mset c1 + mset k1 = mset c0" "mset c0 + mset k0 = mset fs"
    "c0 = filter (\<lambda>f. compaction_level f \<le> lv) fs" "k0 = filter (\<lambda>f. \<not> compaction_level f \<le> lv) fs"
    "\<forall>f \<in> set c0. compaction_level f = lv \<or> compaction_level f = prev_level lv"
    "\<forall>f \<in> set k1. compaction_level f = lv"
proof -
  have l0: "lv \<noteq> Initial" using pre by (simp add: classify_pre_def)
  define c0 where "c0 = filter (\<lambda>f. compaction_level f \<le> lv) fs"
  define k0 where "k0 = filter (\<lambda>f. \<not> compaction_level f \<le> lv) fs"
  have t: "target_level_split fs lv = Inr (c0, k0)" by (simp add: target_level_split_def c0_def k0_def o_def)
  have lev: "\<forall>f \<in> set c0. compaction_level f = lv \<or> compaction_level f = prev_level lv"
    using pre by (auto simp: classify_pre_def c0_def list_all_iff)
  obtain c1 k1 where n: "non_overlap_split thr c0 lv = Inr (c1, k1)"
    using l0 split_by_level_ok [OF lev]
    by (cases "non_overlap_split thr c0 lv") (auto simp: non_overlap_split_def Let_def split: option.splits prod.splits)
  have m1: "mset c1 + mset k1 = mset c0" by (rule nos.split_conserves [OF n])
  have "set c1 \<subseteq> set c0" using nos.split_subset [OF n] by simp
  then have "\<forall>f \<in> set c1. compaction_level f = lv \<or> compaction_level f = prev_level lv" using lev by blast
  then obtain c2 u where v: "upgrade_split sz c1 lv = Inr (c2, u)"
    using l0 split_by_level_ok [of c1 lv "prev_level lv"]
    by (cases "upgrade_split sz c1 lv") (auto simp: upgrade_split_def Let_def split: option.splits prod.splits)
  have k1: "\<forall>f \<in> set k1. compaction_level f = lv"
    using n
  proof (cases rule: non_overlap_split_cases)
    case (2 r bpre bsuf apre asuf)
    have "set k1 = set bsuf \<union> set asuf" using 2(5) by (metis set_mset_mset set_mset_union)
    moreover have "set bsuf \<subseteq> {f. compaction_level f = lv}" "set asuf \<subseteq> {f. compaction_level f = lv}"
      using arg_cong [OF 2(2), of set] arg_cong [OF 2(3), of set] by auto
    ultimately show ?thesis by blast
  qed auto
  show thesis
    by (rule that [OF t n v us.split_conserves [OF v] m1 tls.split_conserves [OF t] c0_def k0_def lev k1])
qed

lemma outside_range:
  assumes "try_new c = Some r" "\<not> contains r f" "g \<in> set c" "wf_file g"
  shows "\<not> overlaps f g"
  using assms try_new_bounds [OF assms(1,3)] by (auto simp: contains_def overlaps_def wf_file_def)

lemma try_new_Some: "g \<in> set c \<Longrightarrow> \<exists>r. try_new c = Some r"
  by (metis list.set_cases not_None_eq try_new_None list.distinct(1))

lemma contains_sub:
  assumes "try_new c = Some r" "try_new d = Some r'" "set c \<subseteq> set d" "contains r f"
  shows "contains r' f"
proof -
  obtain p q where "p \<in> set c" "min_time p = ftr_min r" "q \<in> set c" "max_time q = ftr_max r"
    using try_new_attained [OF assms(1)] by metis
  then have "ftr_min r' \<le> ftr_min r" "ftr_max r \<le> ftr_max r'" using try_new_bounds [OF assms(2)] assms(3) by (metis subsetD)+
  then show ?thesis using assms(4) by (auto simp: contains_def)
qed

lemma disjoint_times_append:
  assumes "disjoint_times xs" "disjoint_times ys" "\<forall>x \<in> set xs. wf_file x" "\<forall>x \<in> set xs. \<forall>y \<in> set ys. \<not> overlaps x y"
  shows "disjoint_times (xs @ ys)"
proof -
  have "set xs \<inter> set ys = {}" using assms(3,4) overlaps_refl by blast
  moreover have "\<forall>x \<in> set ys. \<forall>y \<in> set xs. \<not> overlaps x y" using assms(4) overlaps_sym by blast
  ultimately show ?thesis using assms by (auto simp: disjoint_times_def list_all_iff)
qed

text \<open>Upgraded files stay clear of everything that is compacted, split or kept.\<close>

lemma upgraded_apart:
  assumes pre: "classify_pre lv fs" and n: "non_overlap_split thr c0 lv = Inr (c1, k1)" and v: "upgrade_split sz c1 lv = Inr (c2, u)"
    and sub: "mset c0 \<subseteq># mset fs" and f: "f \<in> set u" and g: "g \<in> set c2 \<union> set k1"
  shows "\<not> overlaps f g"
proof -
  have "set c0 \<subseteq> set fs" using set_mset_mono [OF sub] by simp
  then have wf: "\<forall>f \<in> set c0. wf_file f" using pre by (auto simp: classify_pre_def list_all_iff)
  have d: "disjoint_times (filter (\<lambda>f. compaction_level f = lv) c0)"
    using pre sub disjoint_times_sub [of "filter (\<lambda>f. compaction_level f = lv) fs"]
    by (auto simp: classify_pre_def multiset_filter_mono)
  have s: "set c1 \<subseteq> set c0" "set k1 \<subseteq> set c0" "set c2 \<subseteq> set c1" "set u \<subseteq> set c1"
    using nos.split_subset [OF n] us.split_subset [OF v] by auto
  have wf1: "\<forall>f \<in> set c1. wf_file f" using wf s by blast
  from g show ?thesis
  proof
    assume "g \<in> set c2"
    moreover from this obtain r where r: "try_new c2 = Some r" using try_new_Some by blast
    moreover have "\<not> contains r f" using upgrade_split_props [OF v wf1] f r by blast
    ultimately show ?thesis using wf1 s by (intro outside_range [OF r]) auto
  next
    assume "g \<in> set k1"
    moreover obtain r where r: "try_new c1 = Some r" using try_new_Some f s by blast
    ultimately have "\<not> contains r g" using non_overlap_split_apart [OF n wf d] by blast
    then show ?thesis using outside_range [OF r] f s wf1 overlaps_sym by blast
  qed
qed

text \<open>A level 1 file of the branch begins at the time at which a final level file of it ends.\<close>

definition branch_touching :: "compaction_level \<Rightarrow> files \<Rightarrow> bool" where
  "branch_touching lv fs \<longleftrightarrow> lv = Final \<and>
     list_ex (\<lambda>t. list_ex (\<lambda>s. compaction_level t = lv \<and> compaction_level s = prev_level lv \<and> max_time t = min_time s) fs) fs"

lemma touching_branch:
  assumes "touching lv gs" "set gs \<subseteq> set fs" "\<forall>f \<in> set gs. compaction_level f = lv \<or> compaction_level f = prev_level lv"
  shows "branch_touching lv fs"
proof -
  obtain t s where "lv = Final" "t \<in> set gs" "s \<in> set gs" "\<not> compaction_level t \<le> prev_level lv"
    "compaction_level s \<le> prev_level lv" "max_time t = min_time s"
    using assms(1) by (auto simp: touching_def list_ex_iff start_files_def target_files_def)
  moreover from this have "compaction_level t = lv" "compaction_level s = prev_level lv"
    using assms(3) level_cases [of lv "compaction_level s"] level_cases [of lv "compaction_level t"] by auto
  ultimately show ?thesis using assms(2) unfolding branch_touching_def list_ex_iff by blast
qed

text \<open>
  C2. Classifying a branch for compaction to a target level, for files of at most 146 years that end
  before 2116. If it returns, the classification holds every file of the branch exactly once; the files
  to upgrade are of the level below, do not overlap each other and overlap no other file of the branch
  up to the target level (files of higher levels may overlap them); and what is to be compacted or split
  satisfies the contract of split or compact. There are two ways for it to panic instead. Either split
  or compact finds no start level file left, which takes that every start level file of the branch was
  large enough to be upgraded. Or the target is the final level, and a level 1 file begins at the
  very time at which a final level file ends.
\<close>

theorem classify_target_level:
  assumes pre: "classify_pre lv fs" and cfg: "sc_config (cl_split_or_compact cl)" and fit: "times_fit fs"
  shows "case classify cl (TargetLevel lv mb) fs of
      Inr c \<Rightarrow> mset (classified_files c) = mset fs \<and> target_level c = lv
        \<and> disjoint_times (upgrade (files_to_make_progress_on c))
        \<and> (\<forall>f \<in> set (upgrade (files_to_make_progress_on c)). compaction_level f = prev_level lv
             \<and> (\<forall>g \<in> set (into_files (split_or_compact (files_to_make_progress_on c)) @ files_to_keep c).
                  compaction_level g \<le> lv \<longrightarrow> \<not> overlaps f g))
        \<and> (into_files (split_or_compact (files_to_make_progress_on c)) = []
           \<or> sc_result (cl_split_or_compact cl) lv (split_or_compact (files_to_make_progress_on c)))
    | Inl p \<Rightarrow>
        p = Panic ''there must be at least one file and at most 2 files''
          \<and> (\<forall>f \<in> set fs. compaction_level f = prev_level lv \<longrightarrow>
               div_i64 (as_i64 (cl_max_desired_file_size cl)) 2 \<le> file_size_bytes f)
        \<or> p = Panic ''total size of files must be larger than max_compact_size'' \<and> branch_touching lv fs"
proof -
  obtain c0 k0 c1 k1 c2 u where t: "target_level_split fs lv = Inr (c0, k0)"
    and n: "non_overlap_split (cl_undersized_threshold cl) c0 lv = Inr (c1, k1)"
    and v: "upgrade_split (cl_max_desired_file_size cl) c1 lv = Inr (c2, u)"
    and m: "mset c2 + mset u = mset c1" "mset c1 + mset k1 = mset c0" "mset c0 + mset k0 = mset fs"
    and c0: "c0 = filter (\<lambda>f. compaction_level f \<le> lv) fs" and k0: "k0 = filter (\<lambda>f. \<not> compaction_level f \<le> lv) fs"
    and lev: "\<forall>f \<in> set c0. compaction_level f = lv \<or> compaction_level f = prev_level lv"
    and k1: "\<forall>f \<in> set k1. compaction_level f = lv"
    by (rule target_splits [OF pre])
  let ?sc = "cl_split_or_compact cl"
  have e: "classify cl (TargetLevel lv mb) fs = bind_res (split_compact_apply ?sc c2 lv) (\<lambda>(sc, other).
      Inr \<lparr>target_level = lv, files_to_make_progress_on = \<lparr>upgrade = u, split_or_compact = sc\<rparr>,
           files_to_keep = k0 @ k1 @ other\<rparr>)"
    by (simp add: classify_def t n v)
  have sub: "mset c0 \<subseteq># mset fs" "mset c1 \<subseteq># mset fs" "mset c2 \<subseteq># mset fs"
    unfolding m(1,2,3) [symmetric] by (simp_all add: add.assoc)
  have s: "set c2 \<subseteq> set c0" "set u \<subseteq> set c0" "set c0 \<subseteq> set fs" "set c1 \<subseteq> set fs"
    using tls.split_subset [OF t] nos.split_subset [OF n] us.split_subset [OF v] by auto
  have wf1: "\<forall>f \<in> set c1. wf_file f" using pre s by (auto simp: classify_pre_def list_all_iff)
  note up = upgrade_split_props [OF v wf1]
  have scp: "sc_pre lv c2" using classify_pre_sub [OF pre sub(3)] lev s by blast
  have ok: "?thesis" if r: "split_compact_apply ?sc c2 lv = Inr (sc, other)" "mset (into_files sc @ other) = mset c2"
    and res: "into_files sc = [] \<or> sc_result ?sc lv sc" for sc other
  proof -
    have c2: "mset (into_files sc) + mset other = mset c2" using r(2) by simp
    have "mset u + (mset (into_files sc) + (mset k0 + (mset k1 + mset other))) = mset fs"
      unfolding m(1,2,3) [symmetric] c2 [symmetric] by (simp add: ac_simps)
    moreover have "set (into_files sc) \<union> set other = set c2" using mset_eq_setD [OF r(2)] by simp
    then have "\<not> overlaps f g" if "f \<in> set u" "g \<in> set (into_files sc) \<union> set k1 \<union> set other" for f g
      using upgraded_apart [OF pre n v sub(1) that(1)] that(2) by blast
    moreover have "compaction_level g \<le> lv \<longrightarrow> g \<notin> set k0" for g by (auto simp: k0)
    ultimately show ?thesis using up res unfolding e r(1) by (auto simp: classified_files_def)
  qed
  have all_up: "f \<in> set u" if f: "f \<in> set fs" "compaction_level f = prev_level lv" and no: "start_files lv c2 = []" for f
  proof -
    have l0: "lv \<noteq> Initial" using pre by (simp add: classify_pre_def)
    then have "compaction_level f \<le> lv" "compaction_level f \<noteq> lv" using level_cases(2) f(2) by (cases lv; simp)+
    then have "f \<notin> set k0" "f \<notin> set k1" using k1 by (auto simp: k0)
    moreover have "f \<notin> set c2" using no f(2) by (auto simp: start_files_def filter_empty_conv)
    moreover have "set fs = set c2 \<union> set u \<union> set k1 \<union> set k0"
      using tls.split_set [OF t] nos.split_set [OF n] us.split_set [OF v] by auto
    ultimately show ?thesis using f(1) by blast
  qed
  show ?thesis
  proof (cases "c2 = []")
    case True
    then show ?thesis by (intro ok [of "NoFiles NoInputFiles" "[]"]) (simp_all add: split_compact_apply_def)
  next
    case False
    have c2: "set c2 \<subseteq> set fs" using s by blast
    have "times_fit c2" by (rule times_fit_sub [OF fit c2])
    from split_compact_result [OF scp cfg False this] show ?thesis
    proof (elim disjE exE conjE)
      assume no: "start_files lv c2 = []"
        and p: "split_compact_apply ?sc c2 lv = Inl (Panic ''there must be at least one file and at most 2 files'')"
      show ?thesis using up all_up [OF _ _ no] unfolding e p by auto
    next
      assume to: "touching lv c2"
        and p: "split_compact_apply ?sc c2 lv = Inl (Panic ''total size of files must be larger than max_compact_size'')"
      have "branch_touching lv fs" using touching_branch [OF to c2] lev s(1) by blast
      then show ?thesis unfolding e p by simp
    qed (rule ok, auto)
  qed
qed

section \<open>The level invariant\<close>

text \<open>Split or compact keeps only target level files outside the range of what it compacts.\<close>

lemma split_compact_hull:
  assumes pre: "sc_pre lv fs" and r: "split_compact_apply sc fs lv = Inr (Compact cs rs, keep)"
    and t: "t \<in> set (target_files lv keep)" and rng: "try_new cs = Some r"
  shows "\<not> contains r t"
proof -
  let ?small = "as_usize (size_sum fs) \<le> sc_max_compact_size sc
    \<and> length (filter (\<lambda>f. compaction_level f = prev_level lv) fs) < sc_max_compact_files sc"
  have "keep \<noteq> []" using t by (auto simp: target_files_def)
  then have ne: "fs \<noteq> []" "\<not> ?small" using r by (auto simp: split_compact_apply_def split: if_splits)
  obtain ts ns where id: "identify_start_level_files_to_split fs lv = Inr (ts, ns)" "mset (map split_file ts @ ns) = mset fs"
    "\<forall>f \<in> set (start_files lv ns). length (filter (overlaps f) (target_files lv fs)) \<le> 1"
    using identify_aligned [of lv fs] pre by (auto simp: sc_pre_def)
  have e: "split_compact_apply sc fs lv = (if ts \<noteq> [] then Inr (Split ts ReduceOverlap, ns)
      else bind_res (limit_files_to_compact (sc_max_compact_files sc) (sc_max_compact_size sc) ns lv) (\<lambda>k.
        if kcs_files_to_compact (kcs_split k) \<noteq> []
        then Inr (Compact (kcs_files_to_compact (kcs_split k)) FoundSubsetLessThanMaxCompactSize, kcs_keep k)
        else if kcs_specific_splits (kcs_split k) \<noteq> []
        then Inr (Split (kcs_specific_splits (kcs_split k)) StartLevelOverlapsTooBig, kcs_keep k)
        else bind_res (compute_split_times_for_large_files (kcs_files_to_further_split (kcs_split k))
                 (sc_max_desired_file_size sc) (sc_max_compact_size sc)) (\<lambda>(to_split, not_to_split).
           if to_split = [] then Inr (NoFiles NoFilesToSplitFound, kcs_keep k @ not_to_split)
           else Inr (Split to_split ReduceLargeFileSize, kcs_keep k @ not_to_split))))"
    unfolding split_compact_apply_def if_not_P [OF ne(1)] if_not_P [OF ne(2)] by (simp add: id(1) Let_def)
  have ts: "ts = []" using r unfolding e by (auto split: if_splits)
  then have ns: "mset ns = mset fs" using id(2) by simp
  have lim: "limit_pre lv ns" using sc_pre_limit_pre [OF pre ns id(3)] .
  obtain k where k: "limit_files_to_compact (sc_max_compact_files sc) (sc_max_compact_size sc) ns lv = Inr k"
    using limit_files_to_compact_result [OF lim] by metis
  have "kcs_files_to_compact (kcs_split k) = cs \<and> cs \<noteq> [] \<and> kcs_keep k = keep"
    using r unfolding e by (auto simp: ts k bind_res_def split: if_splits sum.splits)
  then have c: "kcs_split k = CompactSet cs" "kcs_keep k = keep" by (cases "kcs_split k"; auto)+
  have "disjoint_times (target_files lv ns)"
    using pre disjoint_times_mset [OF mset_start_target(2) [OF ns], of lv] by (simp add: sc_pre_def)
  then show ?thesis using limit_closed [OF lim k c(1)] t rng c(2) by blast
qed

lemma split_compact_compact:
  assumes pre: "sc_pre lv fs" and cfg: "sc_config sc" and r: "split_compact_apply sc fs lv = Inr (Compact cs rs, keep)"
  shows "mset (cs @ keep) = mset fs \<and> cs \<noteq> []"
proof -
  have ne: "fs \<noteq> []" using r by (auto simp: split_compact_apply_def)
  show ?thesis using pre cfg ne
  proof (cases rule: split_compact_cases)
    case (result s k)
    then show ?thesis using r by (auto simp: sc_result_def)
  next
    case (large gs k)
    then show ?thesis using r by (cases "large_files_loop (sc_max_desired_file_size sc) gs [] []") (auto split: if_splits)
  qed (use r in simp_all)
qed

text \<open>What an executed compaction writes: disjoint files of the target level inside the range of its input.\<close>

definition compaction_output :: "compaction_level \<Rightarrow> files \<Rightarrow> files \<Rightarrow> bool" where
  "compaction_output lv cs outs \<longleftrightarrow> disjoint_times outs
     \<and> list_all (\<lambda>f. compaction_level f = lv \<and> wf_file f) outs
     \<and> (case try_new cs of Some r \<Rightarrow> list_all (\<lambda>f. ftr_min r \<le> min_time f \<and> max_time f \<le> ftr_max r) outs | None \<Rightarrow> True)"

lemma output_apart:
  assumes "compaction_output lv cs outs" "try_new cs = Some r" "\<not> contains r f" "wf_file f" "g \<in> set outs"
  shows "\<not> overlaps g f"
  using assms by (auto simp: compaction_output_def list_all_iff contains_def overlaps_def wf_file_def)

lemma upgraded_disjoint:
  assumes "disjoint_times u" "\<forall>f \<in> set u. wf_file f"
  shows "disjoint_times (map (\<lambda>f. f\<lparr>compaction_level := lv\<rparr>) u)"
  using assms
proof (induction u)
  case (Cons f u)
  have "\<not> overlaps (f\<lparr>compaction_level := lv\<rparr>) (g\<lparr>compaction_level := lv\<rparr>)" if "g \<in> set u" for g
    using that Cons.prems(1) by (simp add: disjoint_times_Cons overlaps_def)
  moreover have "wf_file (f\<lparr>compaction_level := lv\<rparr>)" using Cons.prems(2) by (simp add: wf_file_def)
  ultimately have "f\<lparr>compaction_level := lv\<rparr> \<notin> set (map (\<lambda>f. f\<lparr>compaction_level := lv\<rparr>) u)"
    using overlaps_refl by fastforce
  then show ?case using Cons \<open>\<And>g. g \<in> set u \<Longrightarrow> _\<close> by (auto simp: disjoint_times_Cons)
qed simp

text \<open>
  C1. Compaction keeps the level invariant. After the compaction of a classified branch the files of the
  target level (the output of the compaction, the upgraded files and the files that were kept) are again
  pairwise disjoint in time, whatever plan is run, as long as its output consists of disjoint files
  inside the time range of the files it compacts.
\<close>

theorem compaction_keeps_level_disjoint:
  assumes pre: "classify_pre lv fs" and cfg: "sc_config (cl_split_or_compact cl)"
    and c: "classify cl (TargetLevel lv mb) fs = Inr c"
    and comp: "split_or_compact (files_to_make_progress_on c) = Compact cs rs"
    and outs: "compaction_output lv cs outs"
  shows "disjoint_times (filter (\<lambda>f. compaction_level f = lv)
    (outs @ map (\<lambda>f. f\<lparr>compaction_level := lv\<rparr>) (upgrade (files_to_make_progress_on c)) @ files_to_keep c))"
proof -
  obtain c0 k0 c1 k1 c2 u where t: "target_level_split fs lv = Inr (c0, k0)"
    and n: "non_overlap_split (cl_undersized_threshold cl) c0 lv = Inr (c1, k1)"
    and v: "upgrade_split (cl_max_desired_file_size cl) c1 lv = Inr (c2, u)"
    and m: "mset c2 + mset u = mset c1" "mset c1 + mset k1 = mset c0" "mset c0 + mset k0 = mset fs"
    and c0: "c0 = filter (\<lambda>f. compaction_level f \<le> lv) fs" and k0: "k0 = filter (\<lambda>f. \<not> compaction_level f \<le> lv) fs"
    and lev: "\<forall>f \<in> set c0. compaction_level f = lv \<or> compaction_level f = prev_level lv"
    and k1: "\<forall>f \<in> set k1. compaction_level f = lv"
    by (rule target_splits [OF pre])
  obtain keep where sc: "split_compact_apply (cl_split_or_compact cl) c2 lv = Inr (Compact cs rs, keep)"
    and ceq: "files_to_keep c = k0 @ k1 @ keep" "upgrade (files_to_make_progress_on c) = u"
    using c comp by (auto simp: classify_def t n v bind_res_def split: sum.splits prod.splits)
  have sub: "mset c0 \<subseteq># mset fs" "mset c2 \<subseteq># mset fs" unfolding m(1,2,3) [symmetric] by (simp_all add: add.assoc)
  have s: "set c2 \<subseteq> set c1" "set u \<subseteq> set c1" "set c1 \<subseteq> set c0" "set k1 \<subseteq> set c0" "set c0 \<subseteq> set fs"
    using tls.split_subset [OF t] nos.split_subset [OF n] us.split_subset [OF v] by auto
  have wf: "\<forall>f \<in> set fs. wf_file f" using pre by (auto simp: classify_pre_def list_all_iff)
  have wf0: "\<forall>f \<in> set c0. wf_file f" and wf1: "\<forall>f \<in> set c1. wf_file f" using wf s by blast+
  have d0: "disjoint_times (filter (\<lambda>f. compaction_level f = lv) c0)"
    using pre sub(1) disjoint_times_sub [of "filter (\<lambda>f. compaction_level f = lv) fs"]
    by (auto simp: classify_pre_def multiset_filter_mono)
  have scp: "sc_pre lv c2" using classify_pre_sub [OF pre sub(2)] lev s by blast
  let ?L = "filter (\<lambda>f. compaction_level f = lv)"
  have cm: "mset (cs @ keep) = mset c2" "cs \<noteq> []" using split_compact_compact [OF scp cfg sc] by auto
  obtain r r1 r2 where r: "try_new cs = Some r" "try_new c1 = Some r1" "try_new c2 = Some r2"
  proof -
    obtain x where "x \<in> set cs" using cm(2) by (cases cs) auto
    moreover from this have "x \<in> set c2" using mset_eq_setD [OF cm(1)] by auto
    moreover from this have "x \<in> set c1" using s(1) by blast
    ultimately show thesis using that by (metis try_new_Some)
  qed
  have csub: "set cs \<subseteq> set c2" "set cs \<subseteq> set c1" using mset_eq_setD [OF cm(1)] s(1) by auto
  have kd: "disjoint_times (?L k1 @ ?L keep)"
  proof (rule disjoint_times_sub [OF d0])
    have "mset (k1 @ keep) \<subseteq># mset c0" unfolding m(1,2) [symmetric] cm(1) [symmetric] by (simp add: ac_simps)
    then have "mset (?L (k1 @ keep)) \<subseteq># mset (?L c0)" unfolding mset_filter by (rule multiset_filter_mono)
    then show "mset (?L k1 @ ?L keep) \<subseteq># mset (?L c0)" by simp
  qed
  have out: "\<not> contains r f" if "f \<in> set (?L k1 @ ?L keep)" for f
  proof (cases "f \<in> set k1")
    case True
    then have "\<not> contains r1 f" using non_overlap_split_apart [OF n wf0 d0] r(2) by blast
    then show ?thesis using contains_sub [OF r(1,2) csub(2)] by blast
  next
    case False
    then have "f \<in> set (target_files lv keep)"
      using that pre level_cases(3) [of lv "compaction_level f"] by (auto simp: target_files_def classify_pre_def)
    then show ?thesis using split_compact_hull [OF scp sc _ r(1)] by blast
  qed
  have wfk: "wf_file f" if "f \<in> set (?L k1 @ ?L keep)" for f
  proof -
    have "set keep \<subseteq> set c2" using mset_eq_setD [OF cm(1)] by auto
    then have "f \<in> set c0" using that s by auto
    then show ?thesis using wf0 by blast
  qed
  have ok: "\<not> overlaps g f" if "g \<in> set outs" "f \<in> set (?L k1 @ ?L keep)" for g f
    using output_apart [OF outs r(1) out [OF that(2)] wfk [OF that(2)] that(1)] .
  have ou: "\<not> overlaps g f" if "g \<in> set outs" "f \<in> set u" for g f
  proof -
    have "\<not> contains r2 f" using upgrade_split_props [OF v wf1] that(2) r(3) by blast
    then have "\<not> contains r f" using contains_sub [OF r(1,3) csub(1)] by blast
    then show ?thesis using output_apart [OF outs r(1) _ _ that(1)] wf1 s(2) that(2) by blast
  qed
  have uk: "\<not> overlaps g f" if "g \<in> set u" "f \<in> set (?L k1 @ ?L keep)" for g f
    using upgraded_apart [OF pre n v sub(1) that(1), of f] that(2) mset_eq_setD [OF cm(1)] by auto
  let ?u = "map (\<lambda>f. f\<lparr>compaction_level := lv\<rparr>) u"
  have "?L k0 = []" by (auto simp: k0 filter_empty_conv)
  moreover have "?L outs = outs" using outs by (auto simp: compaction_output_def list_all_iff)
  ultimately have "?L (outs @ ?u @ files_to_keep c) = outs @ ?u @ ?L k1 @ ?L keep" by (simp add: ceq)
  moreover have "disjoint_times (outs @ ?u @ ?L k1 @ ?L keep)"
  proof (rule disjoint_times_append)
    have wfu: "\<forall>f \<in> set u. wf_file f" using wf1 s(2) by blast
    have "disjoint_times ?u" using upgrade_split_props [OF v wf1] wfu by (intro upgraded_disjoint) simp_all
    then show "disjoint_times (?u @ ?L k1 @ ?L keep)"
      by (rule disjoint_times_append [OF _ kd]) (use wfu uk in \<open>auto simp: overlaps_def wf_file_def\<close>)
  qed (use outs ok ou in \<open>auto simp: compaction_output_def list_all_iff overlaps_def\<close>)
  ultimately show ?thesis unfolding ceq(2) by simp
qed

definition cl_ex :: classifier where
  "cl_ex = \<lparr>cl_undersized_threshold = 2, cl_max_desired_file_size = 40, cl_split_or_compact = sc_ex\<rparr>"

definition branch_ex :: files where
  "branch_ex = [file_of 1 Initial 0 9 10 5, file_of 2 FileNonOverlapped 4 20 30 2, file_of 3 FileNonOverlapped 70 80 35 2,
     file_of 4 Initial 50 60 40 7]"

lemmas classify_eval = cl_ex_def branch_ex_def sc_eval classify_def target_level_split_def non_overlap_split_def
  three_range_split_def contains_def before_def upgrade_split_def as_i64_def div_i64_def split_compact_apply_def as_usize_def
  classify_pre_def Let_def

lemma classify_branch_ex:
  "classify cl_ex (TargetLevel FileNonOverlapped 100) branch_ex = Inr \<lparr>target_level = FileNonOverlapped,
     files_to_make_progress_on = \<lparr>upgrade = [file_of 4 Initial 50 60 40 7],
       split_or_compact = Compact [file_of 1 Initial 0 9 10 5, file_of 2 FileNonOverlapped 4 20 30 2] TotalSizeLessThanMaxCompactSize\<rparr>,
     files_to_keep = [file_of 3 FileNonOverlapped 70 80 35 2]\<rparr>"
  by (simp add: classify_eval)

lemma branch_ex_pre:
  "classify_pre FileNonOverlapped branch_ex" "sc_config (cl_split_or_compact cl_ex)" "times_fit branch_ex"
  by (simp_all add: classify_eval times_fit_def)

theorem compaction_keeps_level_disjoint_witness:
  "disjoint_times (filter (\<lambda>f. compaction_level f = FileNonOverlapped)
     ([file_of 5 FileNonOverlapped 0 12 20 5, file_of 6 FileNonOverlapped 13 20 20 5]
      @ [(file_of 4 Initial 50 60 40 7)\<lparr>compaction_level := FileNonOverlapped\<rparr>] @ [file_of 3 FileNonOverlapped 70 80 35 2]))"
proof -
  have "compaction_output FileNonOverlapped [file_of 1 Initial 0 9 10 5, file_of 2 FileNonOverlapped 4 20 30 2]
      [file_of 5 FileNonOverlapped 0 12 20 5, file_of 6 FileNonOverlapped 13 20 20 5]"
    by (simp add: compaction_output_def sc_eval)
  from compaction_keeps_level_disjoint [OF branch_ex_pre(1,2) classify_branch_ex _ this] show ?thesis by simp
qed

theorem classify_target_level_witness:
  "case classify cl_ex (TargetLevel FileNonOverlapped 100) branch_ex of
     Inr c \<Rightarrow> mset (classified_files c) = mset branch_ex \<and> num_files_to_upgrade c = 1 | Inl _ \<Rightarrow> False"
  using classify_target_level [OF branch_ex_pre, of 100] unfolding classify_branch_ex by (simp add: num_files_to_upgrade_def)

end
