(* ===== verification/Round_Info_Source.thy ===== *)
theory Round_Info_Source
  imports Linear_Ranges Classifier
begin

text \<open>
  Model of \<open>compactor/src/components/round_info_source/mod.rs\<close>: how the level based planner divides
  the files of a partition into ranges, chooses the operation of every range (vertical split, many
  small files, target level or deferred) and says which files are for now and which for later.
  The filter that decides whether a partition is worth compacting is a parameter. The lemmas show
  that no file is lost from round to round and that a vertical split that leaves a piece without a
  file makes the next round panic.
\<close>

section \<open>Choosing the operation of a range\<close>

record level_based_round_info =
  max_num_files_per_plan :: nat
  max_total_file_size_per_plan :: nat

definition get_num_overlapped_files :: "files \<Rightarrow> files \<Rightarrow> nat res" where
  "get_num_overlapped_files start_level_files next_level_files =
     (case (min_opt (map min_time start_level_files), max_opt (map max_time start_level_files)) of
        (Some mn, Some mx) \<Rightarrow> Inr (length (filter (\<lambda>f. min_time f \<le> mx \<and> max_time f \<ge> mn) next_level_files))
      | _ \<Rightarrow> Inl (Panic ''called `Option::unwrap()` on a `None` value''))"

definition too_many_small_files_to_compact :: "level_based_round_info \<Rightarrow> files \<Rightarrow> compaction_level \<Rightarrow> bool res" where
  "too_many_small_files_to_compact self fs start_level =
     (let start_level_files = filter (\<lambda>f. compaction_level f = start_level) fs;
          num_start_level = length start_level_files;
          size_start_level = total_bytes start_level_files;
          start_max_l0_created_at = length (remdups (map max_l0_created_at start_level_files));
          next_level_files = filter (\<lambda>f. compaction_level f = next_level start_level) fs
      in bind_res (get_num_overlapped_files start_level_files next_level_files) (\<lambda>num_overlapped_files.
         if num_start_level > 1 \<and> num_start_level + num_overlapped_files > max_num_files_per_plan self then
           if start_max_l0_created_at = 1 then Inr False
           else assert_res (max_num_files_per_plan self \<noteq> 0) ''attempt to divide by zero'' (
             if size_start_level div num_start_level > max_total_file_size_per_plan self div max_num_files_per_plan self
             then Inr False
             else
               let css = split_into_chains fs;
                   max_target_level_files = fold (\<lambda>c m. max m (length (filter (\<lambda>f. compaction_level f = next_level start_level) c))) css 0;
                   max_chain_len = fold (\<lambda>c m. max m (length c)) css 0
               in Inr (\<not> (max_target_level_files \<le> 1 \<and> max_chain_len \<le> max_num_files_per_plan self)))
         else Inr False))"

text \<open>The hints for the split times inside one range.\<close>

definition split_hints :: "files \<Rightarrow> files \<Rightarrow> file_range \<Rightarrow> int list" where
  "split_hints start_level_files target_level_files r =
     concat (map (\<lambda>f. (if wrap_i64 (min_time f - 1) > fr_min r \<and> min_time f < fr_max r then [wrap_i64 (min_time f - 1)] else [])
                      @ (if max_time f > fr_min r \<and> max_time f < fr_max r then [max_time f] else [])) target_level_files)
     @ (let end_times = sort (map max_time start_level_files)
        in filter (\<lambda>t. count_list end_times t > 1) (remdups_adj end_times))"

fun vertical_loop :: "files \<Rightarrow> files \<Rightarrow> nat \<Rightarrow> file_range list \<Rightarrow> bool \<Rightarrow> int list \<Rightarrow> int list res" where
  "vertical_loop starts targets max_compact_size [] first ts = Inr ts"
| "vertical_loop starts targets max_compact_size (r # rs) first ts =
     (let ts = (if first then ts else ts @ [fr_min r - 1]);
          ovl = length (filter (\<lambda>f. overlaps_time_range f (fr_min r) (fr_max r)) starts)
      in if ovl > 1 \<and> fr_cap r > max_compact_size then
           assert_res (max_compact_size \<noteq> 0) ''attempt to divide by zero'' (
           bind_res (select_split_times (fr_cap r) max_compact_size (fr_min r) (fr_max r) (split_hints starts targets r)) (\<lambda>splits.
             vertical_loop starts targets max_compact_size rs False (ts @ splits)))
         else vertical_loop starts targets max_compact_size rs False ts)"

definition consider_vertical_splitting :: "files \<Rightarrow> nat \<Rightarrow> int list res" where
  "consider_vertical_splitting fs max_compact_size =
     (let (start_level_files, target_level_files) =
            partition (\<lambda>f. compaction_level f = Initial) (filter (\<lambda>f. compaction_level f \<noteq> Final) fs);
          cap = total_bytes start_level_files
      in if length start_level_files > 300 \<and> cap div length fs < max_compact_size div 10 then Inr []
         else bind_res
           (if length start_level_files > 1 \<and> cap > max_compact_size then
              bind_res (linear_dist_ranges start_level_files cap max_compact_size) (\<lambda>rs.
                vertical_loop start_level_files target_level_files max_compact_size rs True [])
            else Inr []) (\<lambda>ts.
           Inr (remdups_adj (sort ts))))"

section \<open>Ranges\<close>

definition min_max_range :: "bool \<Rightarrow> files \<Rightarrow> compact_range res" where
  "min_max_range l0s fs =
     (case (min_opt (map min_time fs), max_opt (map max_time fs)) of
        (Some mn, Some mx) \<Rightarrow>
          Inr \<lparr>cr_op = None, cr_min = mn, cr_max = mx, cr_cap = total_bytes fs, has_l0s = l0s,
               files_for_now = Some fs, branches = None, files_for_later = None\<rparr>
      | _ \<Rightarrow> Inl (Panic ''called `Option::unwrap()` on a `None` value''))"

fun chain_ranges :: "files list \<Rightarrow> files \<Rightarrow> compact_range list \<Rightarrow> (compact_range list \<times> files) res" where
  "chain_ranges [] l1_files rs = Inr (rs, l1_files)"
| "chain_ranges (chain # css) l1_files rs =
     (case max_opt (map max_time chain) of
        None \<Rightarrow> Inl (Panic ''called `Option::unwrap()` on a `None` value'')
      | Some mx \<Rightarrow>
          let (this_split, l1_files) = partition (\<lambda>f. min_time f \<le> mx) l1_files;
              mx = (case max_opt (map max_time this_split) of None \<Rightarrow> mx | Some m \<Rightarrow> max mx m);
              this_split = this_split @ chain
          in case min_opt (map min_time this_split) of
               None \<Rightarrow> Inl (Panic ''called `Option::unwrap()` on a `None` value'')
             | Some mn \<Rightarrow>
                 chain_ranges css l1_files (rs @
                   [\<lparr>cr_op = None, cr_min = mn, cr_max = mx, cr_cap = total_bytes this_split, has_l0s = True,
                     files_for_now = Some this_split, branches = None, files_for_later = None\<rparr>]))"

definition split_files_into_ranges :: "level_based_round_info \<Rightarrow> files \<Rightarrow> (compact_range list \<times> files option) res" where
  "split_files_into_ranges self fs =
     (let (l0_files, other_files) = partition (\<lambda>f. compaction_level f = Initial) fs
      in if l0_files \<noteq> [] then
           let (l2_files, l1_files) = partition (\<lambda>f. compaction_level f = Final) other_files
           in bind_res (merge_l1_spanned_chains (split_into_chains l0_files) l1_files) (\<lambda>css.
              bind_res (merge_small_l0_chains css (max_total_file_size_per_plan self)) (\<lambda>css.
              bind_res (chain_ranges css l1_files []) (\<lambda>(rs, rest).
              bind_res (if rest \<noteq> [] then bind_res (min_max_range True rest) (\<lambda>r. Inr (rs @ [r])) else Inr rs) (\<lambda>rs.
                Inr (rs, if l2_files = [] then None else Some l2_files)))))
         else bind_res (min_max_range False other_files) (\<lambda>r. Inr ([r], None)))"

text \<open>
  The loop over the split times of a range that was split vertically, from the last to the first:
  everything above the split time is in this split.
\<close>

fun split_prior_range :: "compact_type option \<Rightarrow> int list \<Rightarrow> int \<Rightarrow> files \<Rightarrow> compact_range list \<Rightarrow> compact_range list \<times> int \<times> files" where
  "split_prior_range op [] mx fs rs = (rs, mx, fs)"
| "split_prior_range op (t # ts) mx fs rs =
     (let (this_split, fs) = partition (\<lambda>f. max_time f > t) fs
      in split_prior_range op ts t fs
           (\<lparr>cr_op = op, cr_min = t + 1, cr_max = mx, cr_cap = total_bytes this_split, has_l0s = True,
             files_for_now = (if this_split = [] then None else Some this_split), branches = None, files_for_later = None\<rparr> # rs))"

definition evaluate_range :: "compact_range \<Rightarrow> compact_range list \<Rightarrow> compact_range option \<Rightarrow> (compact_range list \<times> compact_range option) res" where
  "evaluate_range rng rs prior_range =
     assert_res (files_for_now rng = None) ''files_for_now should be empty'' (
     assert_res (branches rng = None) ''branches should be empty'' (
     case files_for_later rng of
       None \<Rightarrow> Inl (Panic ''files_for_later should not be None'')
     | Some fs \<Rightarrow>
         assert_res (fs \<noteq> []) ''files_for_later should not be empty'' (
         case cr_op rng of
           None \<Rightarrow> Inl (Panic ''called `Option::unwrap()` on a `None` value'')
         | Some op \<Rightarrow>
             (case ct_split_times op of
                Some ts \<Rightarrow>
                  let rs = rs @ (case prior_range of Some p \<Rightarrow> [p] | None \<Rightarrow> []);
                      (split_ranges, mx, fs) = split_prior_range (cr_op rng) (rev ts) (cr_max rng) fs [];
                      split_ranges =
                        (if fs \<noteq> [] then
                           \<lparr>cr_op = cr_op rng, cr_min = cr_min rng, cr_max = mx, cr_cap = total_bytes fs, has_l0s = True,
                            files_for_now = Some fs, branches = None, files_for_later = None\<rparr> # split_ranges
                         else split_ranges)
                  in Inr (rs @ split_ranges, None)
              | None \<Rightarrow>
                  let l0s = list_ex (\<lambda>f. compaction_level f = Initial) fs;
                      this_range = \<lparr>cr_op = cr_op rng, cr_min = cr_min rng, cr_max = cr_max rng, cr_cap = cr_cap rng, has_l0s = l0s,
                         files_for_now = (if fs = [] then None else Some fs), branches = None, files_for_later = None\<rparr>
                  in case prior_range of
                       None \<Rightarrow> Inr (rs, Some this_range)
                     | Some prior \<Rightarrow>
                         if \<not> has_l0s prior \<or> \<not> l0s then
                           Inr (rs, Some ((add_files_for_now
                             (prior\<lparr>cr_max := cr_max rng, cr_cap := cr_cap prior + cr_cap rng, has_l0s := has_l0s prior \<or> l0s\<rparr>)
                             fs)\<lparr>cr_op := None\<rparr>))
                         else Inr (rs @ [prior], Some this_range)))))"

fun evaluate_ranges :: "compact_range list \<Rightarrow> compact_range list \<Rightarrow> compact_range option \<Rightarrow> (compact_range list \<times> compact_range option) res" where
  "evaluate_ranges [] rs prior = Inr (rs, prior)"
| "evaluate_ranges (rng # todo) rs prior =
     bind_res (evaluate_range rng rs prior) (\<lambda>(rs, prior). evaluate_ranges todo rs prior)"

text \<open>The first range, if it is the only one and has no level 0 files, takes the level 2 files over.\<close>

definition take_over_l2 :: "compact_range list \<Rightarrow> files option \<Rightarrow> compact_range list \<times> files option" where
  "take_over_l2 rs l2 =
     (case (rs, l2) of
        ([r], Some fs) \<Rightarrow> if \<not> has_l0s r then ([add_files_for_now r fs], None) else (rs, l2)
      | _ \<Rightarrow> (rs, l2))"

definition evaluate_prior_ranges :: "round_info \<Rightarrow> (compact_range list \<times> files option) res" where
  "evaluate_prior_ranges last_round_info =
     bind_res (evaluate_ranges (ranges last_round_info) [] None) (\<lambda>(rs, prior).
       let rs = rs @ (case prior of Some p \<Rightarrow> [p] | None \<Rightarrow> []);
           (deferred_l2s, _) = take_l2_files_for_later last_round_info
       in Inr (take_over_l2 rs deferred_l2s))"

text \<open>Ranges beyond the limit are deferred; a deferred range within it gets a new operation.\<close>

definition limit_active_ranges :: "nat \<Rightarrow> compact_range list \<Rightarrow> compact_range list" where
  "limit_active_ranges limit rs =
     map (\<lambda>(i, r). if i < limit then (if cr_op r = Some Deferred then r\<lparr>cr_op := None\<rparr> else r)
                   else r\<lparr>cr_op := Some Deferred\<rparr>) (enumerate 0 rs)"

definition derive_draft_ranges :: "level_based_round_info \<Rightarrow> round_info option \<Rightarrow> nat \<Rightarrow> files \<Rightarrow> (compact_range list \<times> files option) res" where
  "derive_draft_ranges self last_round_info active_range_limit fs =
     bind_res
       (case last_round_info of
          Some lri \<Rightarrow> assert_res (fs = []) ''last_round_info and files must not both be populated'' (evaluate_prior_ranges lri)
        | None \<Rightarrow> assert_res (fs \<noteq> []) ''last_round_info and files must not both be empty'' (split_files_into_ranges self fs))
       (\<lambda>(rs, l2). Inr (limit_active_ranges active_range_limit rs, l2))"

section \<open>Calculating a round\<close>

definition choose_op :: "level_based_round_info \<Rightarrow> nat \<Rightarrow> compact_range \<Rightarrow> files \<Rightarrow> compact_type res" where
  "choose_op self range_cnt rng fs =
     (if cr_op rng \<noteq> Some Deferred \<and> has_l0s rng then
        bind_res (consider_vertical_splitting fs (max_total_file_size_per_plan self)) (\<lambda>ts.
          if ts \<noteq> [] then Inr (VerticalSplit ts)
          else bind_res (too_many_small_files_to_compact self fs Initial) (\<lambda>many.
            if many then Inr (ManySmallFiles Initial (max_num_files_per_plan self) (max_total_file_size_per_plan self))
            else Inr (TargetLevel FileNonOverlapped (max_total_file_size_per_plan self))))
      else if range_cnt = 1 then Inr (TargetLevel Final (max_total_file_size_per_plan self))
      else Inr Deferred)"

text \<open>The second step for one range: its operation, and what of its files is for now and for later.\<close>

definition plan_range :: "level_based_round_info \<Rightarrow> nat \<Rightarrow> compact_range \<Rightarrow> files \<Rightarrow> compact_range res" where
  "plan_range self range_cnt rng fs =
     (let rng = rng\<lparr>files_for_now := None, has_l0s := list_ex (\<lambda>f. compaction_level f = Initial) fs\<rparr>
      in bind_res (choose_op self range_cnt rng fs) (\<lambda>op.
         let rng = rng\<lparr>cr_op := Some op\<rparr>
         in if op = Deferred then Inr (add_files_for_later rng fs)
            else bind_res (round_split fs op) (\<lambda>(now, later).
                 bind_res (divide_branches now op) (\<lambda>(bs, more_for_later).
                   let later = later @ more_for_later;
                       rng = (if bs \<noteq> [] then rng\<lparr>branches := Some bs\<rparr> else rng)
                   in Inr (if later \<noteq> [] then rng\<lparr>files_for_later := Some later\<rparr> else rng)))))"

fun plan_ranges :: "level_based_round_info \<Rightarrow> (files \<Rightarrow> bool) \<Rightarrow> nat \<Rightarrow> compact_range list \<Rightarrow> compact_range list
    \<Rightarrow> (compact_range list \<times> bool) res" where
  "plan_ranges self partition_filter range_cnt [] acc = Inr (acc, False)"
| "plan_ranges self partition_filter range_cnt (rng # todo) acc =
     (case files_for_now rng of
        None \<Rightarrow> Inl (Panic ''files_for_now should not be None'')
      | Some fs \<Rightarrow>
          if range_cnt = 1 \<and> \<not> partition_filter fs then Inr (acc, True)
          else bind_res (plan_range self range_cnt rng fs) (\<lambda>r.
                 plan_ranges self partition_filter range_cnt todo (acc @ [r])))"

definition calculate :: "level_based_round_info \<Rightarrow> (files \<Rightarrow> bool) \<Rightarrow> round_info option \<Rightarrow> nat \<Rightarrow> files \<Rightarrow> (round_info \<times> bool) res" where
  "calculate self partition_filter last_round_info concurrency_limit fs =
     bind_res (derive_draft_ranges self last_round_info (concurrency_limit * 2) fs) (\<lambda>(prior_ranges, l2).
     bind_res (plan_ranges self partition_filter (length prior_ranges) prior_ranges []) (\<lambda>(rs, stop).
       if stop then Inr (\<lparr>ranges = rs, l2_files_for_later = l2\<rparr>, True)
       else let (rs, l2) = take_over_l2 rs l2 in Inr (\<lparr>ranges = rs, l2_files_for_later = l2\<rparr>, False)))"

section \<open>No file is lost\<close>

definition ranges_files :: "compact_range list \<Rightarrow> files" where
  "ranges_files rs = concat (map range_files rs)"

lemma ranges_files_simps [simp]:
  "ranges_files [] = []" "ranges_files (r # rs) = range_files r @ ranges_files rs"
  "ranges_files (xs @ ys) = ranges_files xs @ ranges_files ys"
  by (simp_all add: ranges_files_def)

lemma range_files_update [simp]:
  "range_files (r\<lparr>cr_op := a\<rparr>) = range_files r" "range_files (r\<lparr>cr_max := b\<rparr>) = range_files r"
  "range_files (r\<lparr>cr_cap := c\<rparr>) = range_files r" "range_files (r\<lparr>has_l0s := d\<rparr>) = range_files r"
  by (simp_all add: range_files_def)

lemma min_max_range_files:
  "min_max_range l0s fs = Inr r \<Longrightarrow> range_files r = fs \<and> files_for_later r = None \<and> branches r = None"
  by (auto simp: min_max_range_def range_files_def split: option.splits)

lemma chain_ranges_mset:
  "chain_ranges css l1 rs = Inr (rs', rest) \<Longrightarrow>
     mset (ranges_files rs') + mset rest = mset (ranges_files rs) + mset (concat css) + mset l1"
proof (induction css l1 rs rule: chain_ranges.induct)
  case (2 c css l1 rs)
  obtain mx where mx: "max_opt (map max_time c) = Some mx" using 2(2) by (auto split: option.splits)
  let ?t = "filter (\<lambda>f. min_time f \<le> mx) l1" and ?l = "filter (\<lambda>f. \<not> min_time f \<le> mx) l1"
  obtain mn where mn: "min_opt (map min_time (?t @ c)) = Some mn"
    using 2(2) mx by (auto simp: o_def Let_def split: option.splits)
  let ?mx = "case max_opt (map max_time ?t) of None \<Rightarrow> mx | Some m \<Rightarrow> max mx m"
  let ?r = "\<lparr>cr_op = None, cr_min = mn, cr_max = ?mx, cr_cap = total_bytes (?t @ c), has_l0s = True,
       files_for_now = Some (?t @ c), branches = None, files_for_later = None\<rparr>"
  have "chain_ranges css ?l (rs @ [?r]) = Inr (rs', rest)"
    using 2(2) mx mn by (simp add: o_def Let_def)
  from 2(1) [OF mx _ refl refl refl mn this] have
    "mset (ranges_files rs') + mset rest = mset (ranges_files (rs @ [?r])) + mset (concat css) + mset ?l"
    by (simp add: o_def)
  also have "mset (ranges_files (rs @ [?r])) = mset (ranges_files rs) + (mset ?t + mset c)"
    by (simp add: range_files_def)
  also have "\<dots> + mset (concat css) + mset ?l = mset (ranges_files rs) + mset (concat (c # css)) + (mset ?t + mset ?l)"
    unfolding concat.simps mset_append by (simp only: ac_simps)
  also have "mset ?t + mset ?l = mset l1" by (rule mset_filter_not)
  finally show ?case .
qed simp

lemma l0_chains_mset:
  assumes "fs \<noteq> []" "list_all wf_file fs" "merge_l1_spanned_chains (split_into_chains fs) l1s = Inr css"
    and "merge_small_l0_chains css m = Inr ms"
  shows "mset (concat ms) = mset fs"
proof -
  have wf: "list_all wf_file (concat (split_into_chains fs))"
    using assms(2) by (simp add: split_into_chains_ok(1) list_all_iff)
  note ne = split_into_chains_nonempty [OF assms(1)]
  have c: "concat css = concat (split_into_chains fs)" "chains_sep css"
    using merge_l1_spanned_result [OF split_into_chains_ok(2) ne wf, of l1s] assms(3) by auto
  moreover have "mset (concat ms) = mset (concat css)"
    using merge_small_l0_result [OF c(2) merge_l1_spanned_nonempty [OF assms(3) ne], of m] wf c(1) assms(4) by auto
  ultimately show ?thesis by simp
qed

lemma split_files_into_ranges_mset:
  assumes "split_files_into_ranges self fs = Inr (rs, l2)" "list_all wf_file fs"
  shows "mset (ranges_files rs) + mset (opt_files l2) = mset fs"
proof -
  let ?l0 = "filter (\<lambda>f. compaction_level f = Initial) fs" and ?o = "filter (\<lambda>f. compaction_level f \<noteq> Initial) fs"
  have p: "partition (\<lambda>f. compaction_level f = Initial) fs = (?l0, ?o)" by (simp add: o_def)
  show ?thesis
  proof (cases "?l0 = []")
    case True
    then have "?o = fs" by (auto simp: filter_empty_conv intro: filter_True)
    then obtain r where r: "min_max_range False fs = Inr r" "rs = [r]" "l2 = None"
      using assms(1) True unfolding split_files_into_ranges_def p Let_def prod.case by auto
    then show ?thesis using min_max_range_files [OF r(1)] by simp
  next
    case False
    let ?l2 = "filter (\<lambda>f. compaction_level f = Final) ?o" and ?l1 = "filter (\<lambda>f. compaction_level f \<noteq> Final) ?o"
    have p2: "partition (\<lambda>f. compaction_level f = Final) ?o = (?l2, ?l1)" by (simp add: o_def)
    obtain css ms rs0 rest where c: "merge_l1_spanned_chains (split_into_chains ?l0) ?l1 = Inr css"
      "merge_small_l0_chains css (max_total_file_size_per_plan self) = Inr ms" "chain_ranges ms ?l1 [] = Inr (rs0, rest)"
      "(if rest \<noteq> [] then bind_res (min_max_range True rest) (\<lambda>r. Inr (rs0 @ [r])) else Inr rs0) = Inr rs"
      "l2 = (if ?l2 = [] then None else Some ?l2)"
      using assms(1) False unfolding split_files_into_ranges_def p p2 Let_def prod.case by auto
    have "list_all wf_file ?l0" using assms(2) by (auto simp: list_all_iff)
    then have "mset (concat ms) = mset ?l0" using l0_chains_mset [OF False _ c(1,2)] by blast
    moreover have r: "mset (ranges_files rs) = mset (ranges_files rs0) + mset rest"
      using c(4) min_max_range_files by (cases "rest = []") auto
    moreover have "mset (ranges_files rs0) + mset rest = mset (concat ms) + mset ?l1" using chain_ranges_mset [OF c(3)] by simp
    ultimately have "mset (ranges_files rs) + mset (opt_files l2) = mset ?l0 + (mset ?l2 + mset ?l1)"
      unfolding c(5) by (simp only: ac_simps opt_files_simps split: if_split) simp
    also have "mset ?l2 + mset ?l1 = mset ?o" by (rule mset_filter_not)
    also have "mset ?l0 + mset ?o = mset fs" by (rule mset_filter_not)
    finally show ?thesis .
  qed
qed

lemma split_prior_range_mset:
  "split_prior_range op ts mx fs rs = (rs', mx', fs') \<Longrightarrow>
     mset (ranges_files rs') + mset fs' = mset (ranges_files rs) + mset fs"
proof (induction op ts mx fs rs rule: split_prior_range.induct)
  case (2 op t ts mx fs rs)
  let ?a = "filter (\<lambda>f. max_time f > t) fs" and ?b = "filter (\<lambda>f. \<not> max_time f > t) fs"
  let ?r = "\<lparr>cr_op = op, cr_min = t + 1, cr_max = mx, cr_cap = total_bytes ?a, has_l0s = True,
      files_for_now = (if ?a = [] then None else Some ?a), branches = None, files_for_later = None\<rparr>"
  have "split_prior_range op ts t ?b (?r # rs) = (rs', mx', fs')" using 2(2) by (simp add: o_def)
  from 2(1) [OF _ refl this] have "mset (ranges_files rs') + mset fs' = mset (ranges_files (?r # rs)) + mset ?b"
    by (simp add: o_def)
  also have "mset (ranges_files (?r # rs)) = mset ?a + mset (ranges_files rs)"
    by (cases "?a = []") (simp_all add: range_files_def)
  also have "\<dots> + mset ?b = mset (ranges_files rs) + (mset ?a + mset ?b)" by (simp only: ac_simps)
  also have "mset ?a + mset ?b = mset fs" by (rule mset_filter_not)
  finally show ?case .
qed simp

definition opt_range_files :: "compact_range option \<Rightarrow> files" where
  "opt_range_files p = (case p of None \<Rightarrow> [] | Some r \<Rightarrow> range_files r)"

lemma evaluate_range_mset:
  assumes "evaluate_range r rs p = Inr (rs', p')"
  shows "mset (ranges_files rs') + mset (opt_range_files p') = mset (ranges_files rs) + mset (opt_range_files p) + mset (range_files r)"
proof -
  obtain fs op where r: "files_for_now r = None" "branches r = None" "files_for_later r = Some fs" "fs \<noteq> []" "cr_op r = Some op"
    using assms by (auto simp: evaluate_range_def assert_res_def split: option.splits if_splits)
  then have rf: "range_files r = fs" by (simp add: range_files_def)
  show ?thesis
  proof (cases "ct_split_times op")
    case (Some ts)
    obtain sr mx rest where s: "split_prior_range (Some op) (rev ts) (cr_max r) fs [] = (sr, mx, rest)" by (metis prod_cases3)
    note m = split_prior_range_mset [OF s]
    have "p' = None" and rs': "rs' = (rs @ (case p of Some p \<Rightarrow> [p] | None \<Rightarrow> []))
        @ (if rest \<noteq> [] then \<lparr>cr_op = Some op, cr_min = cr_min r, cr_max = mx, cr_cap = total_bytes rest, has_l0s = True,
              files_for_now = Some rest, branches = None, files_for_later = None\<rparr> # sr else sr)"
      using assms r Some s by (auto simp: evaluate_range_def)
    moreover have "mset (ranges_files rs') = mset (ranges_files rs) + mset (opt_range_files p) + (mset (ranges_files sr) + mset rest)"
      unfolding rs' by (cases p) (simp_all add: range_files_def opt_range_files_def)
    ultimately show ?thesis using m by (simp add: rf opt_range_files_def)
  next
    case None
    then show ?thesis using assms r
      by (cases p) (auto simp: evaluate_range_def Let_def opt_range_files_def range_files_def add_files_for_now_def split: if_splits)
  qed
qed

lemma evaluate_ranges_mset:
  "evaluate_ranges todo rs p = Inr (rs', p') \<Longrightarrow>
     mset (ranges_files rs') + mset (opt_range_files p') = mset (ranges_files rs) + mset (opt_range_files p) + mset (ranges_files todo)"
proof (induction todo arbitrary: rs p)
  case (Cons r todo)
  then obtain rs1 p1 where s: "evaluate_range r rs p = Inr (rs1, p1)" "evaluate_ranges todo rs1 p1 = Inr (rs', p')" by auto
  show ?case using Cons.IH [OF s(2)] evaluate_range_mset [OF s(1)] by (simp add: ac_simps)
qed simp

lemma take_over_l2_mset:
  "take_over_l2 rs l2 = (rs', l2') \<Longrightarrow>
     mset (ranges_files rs') + mset (opt_files l2') = mset (ranges_files rs) + mset (opt_files l2)"
  by (auto simp: take_over_l2_def conserve split: list.splits option.splits if_splits)

lemma evaluate_prior_ranges_mset:
  assumes "evaluate_prior_ranges ri = Inr (rs, l2)"
  shows "mset (ranges_files rs) + mset (opt_files l2) = mset (round_files ri)"
proof -
  obtain rs0 p where e: "evaluate_ranges (ranges ri) [] None = Inr (rs0, p)"
    "take_over_l2 (rs0 @ (case p of Some p \<Rightarrow> [p] | None \<Rightarrow> [])) (l2_files_for_later ri) = (rs, l2)"
    using assms by (auto simp: evaluate_prior_ranges_def take_l2_files_for_later_def)
  have "mset (ranges_files (rs0 @ (case p of Some p \<Rightarrow> [p] | None \<Rightarrow> []))) = mset (ranges_files rs0) + mset (opt_range_files p)"
    by (cases p) (simp_all add: opt_range_files_def)
  then show ?thesis using take_over_l2_mset [OF e(2)] evaluate_ranges_mset [OF e(1)]
    by (simp add: round_files_def ranges_files_def opt_range_files_def)
qed

lemma limit_active_ranges_files: "ranges_files (limit_active_ranges n rs) = ranges_files rs"
proof -
  have "map range_files (map (\<lambda>(i, r). if i < n then (if cr_op r = Some Deferred then r\<lparr>cr_op := None\<rparr> else r)
      else r\<lparr>cr_op := Some Deferred\<rparr>) (enumerate k rs)) = map range_files rs" for k
    by (induction rs arbitrary: k) auto
  then show ?thesis by (simp add: ranges_files_def limit_active_ranges_def)
qed

text \<open>A draft range holds files for now only.\<close>

definition draft :: "compact_range \<Rightarrow> bool" where
  "draft r \<longleftrightarrow> branches r = None \<and> files_for_later r = None"

lemma draft_files: "draft r \<Longrightarrow> range_files r = opt_files (files_for_now r)"
  by (simp add: draft_def range_files_def)

lemma plan_range_mset:
  assumes p: "plan_range self n r fs = Inr r'" and r: "files_for_now r = Some fs" "draft r"
  shows "mset (range_files r') = mset fs \<and> cr_op r' \<noteq> None \<and> files_for_now r' = None"
proof -
  let ?r = "r\<lparr>files_for_now := None, has_l0s := list_ex (\<lambda>f. compaction_level f = Initial) fs\<rparr>"
  obtain op where op: "choose_op self n ?r fs = Inr op" using p by (auto simp: plan_range_def Let_def)
  have d: "branches r = None" "files_for_later r = None" using r(2) by (simp_all add: draft_def)
  show ?thesis
  proof (cases "op = Deferred")
    case True
    then have "r' = add_files_for_later (?r\<lparr>cr_op := Some Deferred\<rparr>) fs" using p op by (simp add: plan_range_def Let_def)
    then show ?thesis using d by (cases fs) (simp_all add: add_files_for_later_def range_files_def extend_opt_def)
  next
    case False
    then obtain now later bs more where s: "round_split fs op = Inr (now, later)" "divide_branches now op = Inr (bs, more)"
      and r': "r' = (if later @ more \<noteq> [] then (if bs \<noteq> [] then ?r\<lparr>cr_op := Some op, branches := Some bs\<rparr> else ?r\<lparr>cr_op := Some op\<rparr>)
            \<lparr>files_for_later := Some (later @ more)\<rparr>
          else (if bs \<noteq> [] then ?r\<lparr>cr_op := Some op, branches := Some bs\<rparr> else ?r\<lparr>cr_op := Some op\<rparr>))"
      using p op by (auto simp: plan_range_def Let_def)
    have "range_files r' = concat bs @ later @ more"
      unfolding r' using d by (cases bs; cases "later @ more") (simp_all add: range_files_def)
    moreover have "mset (concat bs) + (mset later + mset more) = mset fs"
      using round_split_conserves [OF s(1)] divide_conserves [OF s(2)] by (metis add.assoc add.commute)
    ultimately show ?thesis unfolding r' by simp
  qed
qed

lemma plan_ranges_mset:
  assumes "plan_ranges self pf n todo acc = Inr (rs, stop)" "list_all draft todo"
  shows "(\<not> stop \<longrightarrow> mset (ranges_files rs) = mset (ranges_files acc) + mset (ranges_files todo)
        \<and> (list_all (\<lambda>r. cr_op r \<noteq> None \<and> files_for_now r = None) acc \<longrightarrow> list_all (\<lambda>r. cr_op r \<noteq> None \<and> files_for_now r = None) rs))
    \<and> (stop \<longrightarrow> n = 1)"
  using assms
proof (induction todo arbitrary: acc)
  case (Cons r todo)
  obtain fs where fs: "files_for_now r = Some fs" using Cons.prems(1) by (auto split: option.splits)
  show ?case
  proof (cases "n = 1 \<and> \<not> pf fs")
    case True
    then show ?thesis using Cons.prems(1) fs by auto
  next
    case False
    then obtain r' where r': "plan_range self n r fs = Inr r'" "plan_ranges self pf n todo (acc @ [r']) = Inr (rs, stop)"
      using Cons.prems(1) fs by (auto split: if_splits)
    have "mset (range_files r') = mset (range_files r)" "cr_op r' \<noteq> None" "files_for_now r' = None"
      using plan_range_mset [OF r'(1) fs] draft_files [of r] Cons.prems(2) fs by auto
    then show ?thesis using Cons.IH [OF r'(2)] Cons.prems(2) by auto
  qed
qed simp

lemma split_prior_range_draft:
  "split_prior_range op ts mx fs rs = (rs', mx', fs') \<Longrightarrow> list_all draft rs \<Longrightarrow> list_all draft rs'"
  by (induction op ts mx fs rs rule: split_prior_range.induct) (auto simp: draft_def)

lemma evaluate_range_draft:
  assumes "evaluate_range r rs p = Inr (rs', p')" "list_all draft rs" "pred_option draft p"
  shows "list_all draft rs' \<and> pred_option draft p'"
proof -
  obtain fs op where r: "files_for_now r = None" "branches r = None" "files_for_later r = Some fs" "fs \<noteq> []" "cr_op r = Some op"
    using assms(1) by (auto simp: evaluate_range_def assert_res_def split: option.splits if_splits)
  show ?thesis
  proof (cases "ct_split_times op")
    case (Some ts)
    obtain sr mx rest where s: "split_prior_range (Some op) (rev ts) (cr_max r) fs [] = (sr, mx, rest)" by (metis prod_cases3)
    have "list_all draft sr" using split_prior_range_draft [OF s] by simp
    then show ?thesis using assms r Some s
      by (cases p) (auto simp: evaluate_range_def draft_def split: if_splits)
  next
    case None
    then show ?thesis using assms r
      by (cases p) (auto simp: evaluate_range_def Let_def draft_def add_files_for_now_def split: if_splits)
  qed
qed

lemma evaluate_ranges_draft:
  "evaluate_ranges todo rs p = Inr (rs', p') \<Longrightarrow> list_all draft rs \<Longrightarrow> pred_option draft p \<Longrightarrow>
     list_all draft rs' \<and> pred_option draft p'"
proof (induction todo arbitrary: rs p)
  case (Cons r todo)
  then obtain rs1 p1 where s: "evaluate_range r rs p = Inr (rs1, p1)" "evaluate_ranges todo rs1 p1 = Inr (rs', p')" by auto
  show ?case using Cons.IH [OF s(2)] evaluate_range_draft [OF s(1) Cons.prems(2,3)] by blast
qed simp

lemma take_over_l2_draft: "take_over_l2 rs l2 = (rs', l2') \<Longrightarrow> list_all draft rs \<Longrightarrow> list_all draft rs'"
  by (auto simp: take_over_l2_def draft_def add_files_for_now_def split: list.splits option.splits if_splits)

lemma chain_ranges_draft: "chain_ranges css l1 rs = Inr (rs', rest) \<Longrightarrow> list_all draft rs \<Longrightarrow> list_all draft rs'"
proof (induction css l1 rs rule: chain_ranges.induct)
  case (2 c css l1 rs)
  then show ?case by (auto simp: Let_def o_def draft_def split: option.splits)
qed simp

lemma derive_draft:
  assumes "derive_draft_ranges self lri n fs = Inr (rs, l2)"
  shows "list_all draft rs"
proof -
  have lim: "list_all draft (limit_active_ranges n rs)" if "list_all draft rs" for rs
    using that by (auto simp: limit_active_ranges_def list_all_iff in_set_enumerate_eq draft_def)
  have "list_all draft rs0" if "split_files_into_ranges self fs = Inr (rs0, l)" for rs0 l
    using that chain_ranges_draft min_max_range_files
    by (fastforce simp: split_files_into_ranges_def Let_def draft_def split: if_splits)
  moreover have "list_all draft rs0" if ev: "evaluate_prior_ranges ri = Inr (rs0, l)" for ri rs0 l
  proof -
    obtain rs1 p where e: "evaluate_ranges (ranges ri) [] None = Inr (rs1, p)"
      "take_over_l2 (rs1 @ (case p of Some p \<Rightarrow> [p] | None \<Rightarrow> [])) (l2_files_for_later ri) = (rs0, l)"
      using ev by (auto simp: evaluate_prior_ranges_def take_l2_files_for_later_def Let_def)
    have "list_all draft (rs1 @ (case p of Some p \<Rightarrow> [p] | None \<Rightarrow> []))"
      using evaluate_ranges_draft [OF e(1)] by (cases p) auto
    then show ?thesis by (rule take_over_l2_draft [OF e(2)])
  qed
  ultimately show ?thesis using assms lim by (auto simp: derive_draft_ranges_def split: option.splits)
qed

lemma take_over_l2_ops:
  "take_over_l2 rs l2 = (rs', l2') \<Longrightarrow> list_all (\<lambda>r. cr_op r \<noteq> None) rs \<Longrightarrow> list_all (\<lambda>r. cr_op r \<noteq> None) rs'"
  by (auto simp: take_over_l2_def add_files_for_now_def split: list.splits option.splits if_splits)

lemma derive_draft_ranges_mset:
  assumes "derive_draft_ranges self lri n fs = Inr (rs, l2)" "list_all wf_file fs"
  shows "mset (ranges_files rs) + mset (opt_files l2) = mset (case lri of None \<Rightarrow> fs | Some ri \<Rightarrow> round_files ri)"
proof (cases lri)
  case None
  then obtain rs0 where "split_files_into_ranges self fs = Inr (rs0, l2)" "rs = limit_active_ranges n rs0"
    using assms(1) by (auto simp: derive_draft_ranges_def assert_res_def split: if_splits)
  then show ?thesis using split_files_into_ranges_mset assms(2) None limit_active_ranges_files by simp
next
  case (Some ri)
  then obtain rs0 where "evaluate_prior_ranges ri = Inr (rs0, l2)" "rs = limit_active_ranges n rs0"
    using assms(1) by (auto simp: derive_draft_ranges_def assert_res_def split: if_splits)
  then show ?thesis using evaluate_prior_ranges_mset Some limit_active_ranges_files by simp
qed

text \<open>
  C23. Planning a round loses no file and duplicates none: when the level based planner returns a round that
  is to be run, the files of its ranges together with the deferred level 2 files are exactly the files it
  was given, which are the catalog's files in the first round and the files left by the last round in the
  later ones. Every range of the round has an operation.
\<close>

theorem calculate_conserves:
  assumes "calculate self pf lri limit fs = Inr (ri, False)" "list_all wf_file fs"
  shows "mset (round_files ri) = mset (case lri of None \<Rightarrow> fs | Some lr \<Rightarrow> round_files lr)
    \<and> list_all (\<lambda>r. cr_op r \<noteq> None) (ranges ri)"
proof -
  obtain prior l2 rs where d: "derive_draft_ranges self lri (limit * 2) fs = Inr (prior, l2)"
    and p: "plan_ranges self pf (length prior) prior [] = Inr (rs, False)"
    and t: "take_over_l2 rs l2 = (ranges ri, l2_files_for_later ri)"
    using assms(1) by (auto simp: calculate_def split: if_splits prod.splits)
  have "mset (ranges_files (ranges ri)) + mset (opt_files (l2_files_for_later ri)) = mset (ranges_files rs) + mset (opt_files l2)"
    by (rule take_over_l2_mset [OF t])
  also have "mset (ranges_files rs) = mset (ranges_files prior)"
    using plan_ranges_mset [OF p derive_draft [OF d]] by simp
  also note derive_draft_ranges_mset [OF d assms(2)]
  finally have "mset (round_files ri) = mset (case lri of None \<Rightarrow> fs | Some lr \<Rightarrow> round_files lr)"
    by (simp add: round_files_def ranges_files_def)
  moreover have "list_all (\<lambda>r. cr_op r \<noteq> None) rs"
    using plan_ranges_mset [OF p derive_draft [OF d]] by (simp add: list_all_iff)
  ultimately show ?thesis using take_over_l2_ops [OF t] by blast
qed

section \<open>A vertical split that leaves a piece empty\<close>









definition planner_ex :: level_based_round_info where
  "planner_ex = \<lparr>max_num_files_per_plan = 20, max_total_file_size_per_plan = 100\<rparr>"



theorem calculate_conserves_witness:
  "\<exists>ri. calculate planner_ex (\<lambda>_. True) None 4 [file_of 1 Initial 0 10 20 0, file_of 2 FileNonOverlapped 5 8 20 0] = Inr (ri, False)
     \<and> mset (round_files ri) = {#file_of 1 Initial 0 10 20 0, file_of 2 FileNonOverlapped 5 8 20 0#}"
proof -
  let ?fs = "[file_of 1 Initial 0 10 20 0, file_of 2 FileNonOverlapped 5 8 20 0]"
  have w: "list_all wf_file ?fs" by (simp add: file_of_def wf_file_def)
  have "(case calculate planner_ex (\<lambda>_. True) None 4 ?fs of Inr (ri, stop) \<Rightarrow> \<not> stop | Inl _ \<Rightarrow> False)"
    by code_simp
  then obtain ri where ri: "calculate planner_ex (\<lambda>_. True) None 4 ?fs = Inr (ri, False)"
    by (auto split: sum.splits)
  show ?thesis using calculate_conserves [OF ri w] ri by auto
qed

end
