(* ===== verification/Mem_Catalog.thy ===== *)
theory Mem_Catalog
  imports Data_Types
begin

text \<open>
  Model of the in-memory catalog, \<open>iox_catalog/src/mem.rs\<close>: the rows of its six collections (from
  \<open>data_types\<close>) and every method of the five repositories, with the state a failed call leaves behind.
  SHA-256, the clock and the order in which a hash map is iterated are parameters.
\<close>

section \<open>The rows of the catalog\<close>

datatype template_part = TagValue string | TimeFormat string

text \<open>A partition template override; the parts of the protobuf message may be empty.\<close>

type_synonym partition_template = "template_part option list option"

definition partition_by_day :: "template_part option list" where
  "partition_by_day = [Some (TimeFormat ''%Y-%m-%d'')]"

definition template_parts :: "partition_template \<Rightarrow> template_part list" where
  "template_parts t = List.map_filter id (case t of Some ps \<Rightarrow> ps | None \<Rightarrow> partition_by_day)"

definition max_tables_default :: nat where
  "max_tables_default = 500"

definition max_columns_per_table_default :: nat where
  "max_columns_per_table_default = 200"

record limits_override =
  lo_max_tables :: "nat option"
  lo_max_columns_per_table :: "nat option"

record namespace =
  ns_id :: int
  ns_name :: string
  retention_period_ns :: "int option"
  max_tables :: nat
  max_columns_per_table :: nat
  deleted_at :: "timestamp option"
  ns_partition_template :: partition_template

record table =
  tbl_id :: int
  tbl_namespace_id :: int
  tbl_name :: string
  tbl_partition_template :: partition_template

datatype column_type = I64 | U64 | F64Type | BoolType | StringType | TimeType | Tag

record column =
  col_id :: int
  col_table_id :: int
  col_name :: string
  col_type :: column_type

record partition_row =
  part_id :: int
  part_hash_id :: "int list option"
  part_table_id :: int
  partition_key :: string
  part_sort_key :: "string list option"
  part_sort_key_ids :: "int list"
  new_file_at :: "timestamp option"

record skipped_compaction =
  sk_partition_id :: int
  reason :: string
  skipped_at :: timestamp
  estimated_bytes :: int
  limit_bytes :: int
  sk_num_files :: int
  limit_num_files :: int
  limit_num_files_first_in_partition :: int

text \<open>
  The hash id of a partition is the SHA-256 sum of the eight big endian bytes of the table id and the
  bytes of the key. The hash function is a parameter.
\<close>

definition table_id_to_be_bytes :: "int \<Rightarrow> int list" where
  "table_id_to_be_bytes t = map (\<lambda>i. t mod 2 ^ 64 div 256 ^ (7 - i) mod 256) [0..<8]"

definition partition_hash_id_new :: "(int list \<Rightarrow> int list) \<Rightarrow> int \<Rightarrow> string \<Rightarrow> int list" where
  "partition_hash_id_new sha256 t key = sha256 (table_id_to_be_bytes t @ map of_char key)"

definition new_in_memory_only :: "(int list \<Rightarrow> int list) \<Rightarrow> int \<Rightarrow> int \<Rightarrow> string \<Rightarrow> string list option \<Rightarrow> int list
    \<Rightarrow> timestamp option \<Rightarrow> partition_row" where
  "new_in_memory_only sha256 i t key sk ids nf =
     \<lparr>part_id = i, part_hash_id = Some (partition_hash_id_new sha256 t key), part_table_id = t, partition_key = key,
      part_sort_key = sk, part_sort_key_ids = ids, new_file_at = nf\<rparr>"

definition part_transition_id :: "partition_row \<Rightarrow> transition_partition_id" where
  "part_transition_id p = (case part_hash_id p of Some h \<Rightarrow> Deterministic h | None \<Rightarrow> Deprecated (part_id p))"

section \<open>The state of the catalog\<close>

record mem_collections =
  namespaces :: "namespace list"
  tables :: "table list"
  columns :: "column list"
  partitions :: "partition_row list"
  skipped_compactions :: "skipped_compaction list"
  parquet_files :: "parquet_file list"

definition mem_default :: mem_collections where
  "mem_default = \<lparr>namespaces = [], tables = [], columns = [], partitions = [], skipped_compactions = [], parquet_files = []\<rparr>"

datatype catalog_error =
    NameExists string
  | TableNameExists string int
  | ColumnTypeMismatch string column_type column_type
  | NamespaceNotFoundByName string
  | NamespaceNotFoundById int
  | TableNotFound int
  | TableNotFoundByName string
  | PartitionNotFound transition_partition_id
  | ColumnCreateLimitError string int
  | TableCreateLimitError string int
  | FileExists uuid
  | ParquetRecordNotFound int
  | CatalogPanics string

text \<open>
  A call takes the collections and returns its result and the collections it leaves behind, also when
  it fails: the methods change them in place.
\<close>

type_synonym 'a txn = "mem_collections \<Rightarrow> (catalog_error + 'a) \<times> mem_collections"

datatype soft_deleted_rows = AllRows | ExcludeDeleted | OnlyDeleted

text \<open>Changing the first element found, as with \<open>iter_mut().find\<close>: the changed element and the list.\<close>

fun modify_first :: "('a \<Rightarrow> bool) \<Rightarrow> ('a \<Rightarrow> 'a) \<Rightarrow> 'a list \<Rightarrow> ('a \<times> 'a list) option" where
  "modify_first P f [] = None"
| "modify_first P f (x # xs) =
     (if P x then Some (f x, f x # xs) else map_option (\<lambda>(y, ys). (y, x # ys)) (modify_first P f xs))"

section \<open>Namespaces\<close>

definition ns_create :: "string \<Rightarrow> partition_template option \<Rightarrow> int option \<Rightarrow> limits_override option \<Rightarrow> namespace txn" where
  "ns_create name tmpl retention limits st =
     (if list_ex (\<lambda>n. ns_name n = name) (namespaces st) then (Inl (NameExists name), st)
      else let ns = \<lparr>ns_id = int (length (namespaces st)) + 1, ns_name = name, retention_period_ns = retention,
                  max_tables = (case Option.bind limits lo_max_tables of Some m \<Rightarrow> m | None \<Rightarrow> max_tables_default),
                  max_columns_per_table = (case Option.bind limits lo_max_columns_per_table of Some m \<Rightarrow> m | None \<Rightarrow> max_columns_per_table_default),
                  deleted_at = None, ns_partition_template = (case tmpl of Some t \<Rightarrow> t | None \<Rightarrow> None)\<rparr>
           in (Inr ns, st\<lparr>namespaces := namespaces st @ [ns]\<rparr>))"

definition filter_namespace_soft_delete :: "namespace list \<Rightarrow> soft_deleted_rows \<Rightarrow> namespace list" where
  "filter_namespace_soft_delete nss deleted = filter (\<lambda>n. case deleted of
       AllRows \<Rightarrow> True | ExcludeDeleted \<Rightarrow> deleted_at n = None | OnlyDeleted \<Rightarrow> deleted_at n \<noteq> None) nss"

definition ns_list :: "soft_deleted_rows \<Rightarrow> namespace list txn" where
  "ns_list deleted st = (Inr (filter_namespace_soft_delete (namespaces st) deleted), st)"

definition ns_get_by_id :: "int \<Rightarrow> soft_deleted_rows \<Rightarrow> namespace option txn" where
  "ns_get_by_id i deleted st = (Inr (find (\<lambda>n. ns_id n = i) (filter_namespace_soft_delete (namespaces st) deleted)), st)"

definition ns_get_by_name :: "string \<Rightarrow> soft_deleted_rows \<Rightarrow> namespace option txn" where
  "ns_get_by_name name deleted st =
     (Inr (find (\<lambda>n. ns_name n = name) (filter_namespace_soft_delete (namespaces st) deleted)), st)"

definition ns_soft_delete :: "timestamp \<Rightarrow> string \<Rightarrow> unit txn" where
  "ns_soft_delete now name st =
     (case modify_first (\<lambda>n. ns_name n = name) (\<lambda>n. n\<lparr>deleted_at := Some now\<rparr>) (namespaces st) of
        Some (_, nss) \<Rightarrow> (Inr (), st\<lparr>namespaces := nss\<rparr>)
      | None \<Rightarrow> (Inl (NamespaceNotFoundByName name), st))"

definition ns_update_table_limit :: "string \<Rightarrow> nat \<Rightarrow> namespace txn" where
  "ns_update_table_limit name new_max st =
     (case modify_first (\<lambda>n. ns_name n = name) (\<lambda>n. n\<lparr>max_tables := new_max\<rparr>) (namespaces st) of
        Some (n, nss) \<Rightarrow> (Inr n, st\<lparr>namespaces := nss\<rparr>)
      | None \<Rightarrow> (Inl (NamespaceNotFoundByName name), st))"

definition ns_update_column_limit :: "string \<Rightarrow> nat \<Rightarrow> namespace txn" where
  "ns_update_column_limit name new_max st =
     (case modify_first (\<lambda>n. ns_name n = name) (\<lambda>n. n\<lparr>max_columns_per_table := new_max\<rparr>) (namespaces st) of
        Some (n, nss) \<Rightarrow> (Inr n, st\<lparr>namespaces := nss\<rparr>)
      | None \<Rightarrow> (Inl (NamespaceNotFoundByName name), st))"

definition ns_update_retention_period :: "string \<Rightarrow> int option \<Rightarrow> namespace txn" where
  "ns_update_retention_period name retention st =
     (case modify_first (\<lambda>n. ns_name n = name) (\<lambda>n. n\<lparr>retention_period_ns := retention\<rparr>) (namespaces st) of
        Some (n, nss) \<Rightarrow> (Inr n, st\<lparr>namespaces := nss\<rparr>)
      | None \<Rightarrow> (Inl (NamespaceNotFoundByName name), st))"

section \<open>Tables and columns\<close>

definition check_column_limit :: "string \<Rightarrow> int \<Rightarrow> mem_collections \<Rightarrow> catalog_error + unit" where
  "check_column_limit name t st =
     (case find (\<lambda>x. tbl_id x = t) (tables st) of
        None \<Rightarrow> Inl (TableNotFound t)
      | Some tbl \<Rightarrow>
          (case find (\<lambda>n. ns_id n = tbl_namespace_id tbl) (namespaces st) of
             None \<Rightarrow> Inl (NamespaceNotFoundByName '''')
           | Some n \<Rightarrow>
               if length (filter (\<lambda>c. col_table_id c = t) (columns st)) \<ge> max_columns_per_table n
               then Inl (ColumnCreateLimitError name t) else Inr ()))"

text \<open>The body shared by the two ways to create columns.\<close>

definition upsert_column :: "string \<Rightarrow> int \<Rightarrow> column_type \<Rightarrow> column txn" where
  "upsert_column name t ct st =
     (case find (\<lambda>c. col_name c = name \<and> col_table_id c = t) (columns st) of
        Some c \<Rightarrow> if ct = col_type c then (Inr c, st) else (Inl (ColumnTypeMismatch name (col_type c) ct), st)
      | None \<Rightarrow>
          let c = \<lparr>col_id = int (length (columns st)) + 1, col_table_id = t, col_name = name, col_type = ct\<rparr>
          in (Inr c, st\<lparr>columns := columns st @ [c]\<rparr>))"

definition col_create_or_get :: "string \<Rightarrow> int \<Rightarrow> column_type \<Rightarrow> column txn" where
  "col_create_or_get name t ct st =
     (case check_column_limit name t st of Inl e \<Rightarrow> (Inl e, st) | Inr _ \<Rightarrow> upsert_column name t ct st)"

text \<open>The columns come from a hash map; the list gives the order of its iteration.\<close>

fun col_create_or_get_many_unchecked :: "int \<Rightarrow> (string \<times> column_type) list \<Rightarrow> column list txn" where
  "col_create_or_get_many_unchecked t [] st = (Inr [], st)"
| "col_create_or_get_many_unchecked t ((name, ct) # cs) st =
     (case upsert_column name t ct st of
        (Inl e, st) \<Rightarrow> (Inl e, st)
      | (Inr c, st) \<Rightarrow>
          (case col_create_or_get_many_unchecked t cs st of
             (Inl e, st) \<Rightarrow> (Inl e, st)
           | (Inr out, st) \<Rightarrow> (Inr (c # out), st)))"

definition col_list_by_namespace_id :: "int \<Rightarrow> column list txn" where
  "col_list_by_namespace_id n st =
     (let table_ids = map tbl_id (filter (\<lambda>t. tbl_namespace_id t = n) (tables st))
      in (Inr (filter (\<lambda>c. col_table_id c \<in> set table_ids) (columns st)), st))"

definition col_list_by_table_id :: "int \<Rightarrow> column list txn" where
  "col_list_by_table_id t st = (Inr (filter (\<lambda>c. col_table_id c = t) (columns st)), st)"

definition col_list :: "column list txn" where
  "col_list st = (Inr (columns st), st)"

text \<open>The tag columns of the partition template are created with the table.\<close>

fun create_template_columns :: "template_part list \<Rightarrow> int \<Rightarrow> unit txn" where
  "create_template_columns [] t st = (Inr (), st)"
| "create_template_columns (TagValue tag # ps) t st =
     (case col_create_or_get tag t Tag st of
        (Inl e, st) \<Rightarrow> (Inl e, st)
      | (Inr _, st) \<Rightarrow> create_template_columns ps t st)"
| "create_template_columns (TimeFormat _ # ps) t st = create_template_columns ps t st"

definition tbl_create :: "string \<Rightarrow> partition_template \<Rightarrow> int \<Rightarrow> table txn" where
  "tbl_create name tmpl n st =
     (case find (\<lambda>x. ns_id x = n) (namespaces st) of
        None \<Rightarrow> (Inl (NamespaceNotFoundByName ''''), st)
      | Some ns \<Rightarrow>
          if length (filter (\<lambda>t. tbl_namespace_id t = n) (tables st)) \<ge> max_tables ns
          then (Inl (TableCreateLimitError name n), st)
          else if find (\<lambda>t. tbl_name t = name \<and> tbl_namespace_id t = n) (tables st) \<noteq> None
          then (Inl (TableNameExists name n), st)
          else let t = \<lparr>tbl_id = int (length (tables st)) + 1, tbl_namespace_id = n, tbl_name = name, tbl_partition_template = tmpl\<rparr>;
                   st = st\<lparr>tables := tables st @ [t]\<rparr>
               in case create_template_columns (template_parts tmpl) (tbl_id t) st of
                    (Inl e, st) \<Rightarrow> (Inl e, st)
                  | (Inr _, st) \<Rightarrow> (Inr t, st))"

definition tbl_get_by_id :: "int \<Rightarrow> table option txn" where
  "tbl_get_by_id i st = (Inr (find (\<lambda>t. tbl_id t = i) (tables st)), st)"

definition tbl_get_by_namespace_and_name :: "int \<Rightarrow> string \<Rightarrow> table option txn" where
  "tbl_get_by_namespace_and_name n name st =
     (Inr (find (\<lambda>t. tbl_namespace_id t = n \<and> tbl_name t = name) (tables st)), st)"

definition tbl_list_by_namespace_id :: "int \<Rightarrow> table list txn" where
  "tbl_list_by_namespace_id n st = (Inr (filter (\<lambda>t. tbl_namespace_id t = n) (tables st)), st)"

definition tbl_list :: "table list txn" where
  "tbl_list st = (Inr (tables st), st)"

section \<open>Partitions\<close>

definition part_create_or_get :: "(int list \<Rightarrow> int list) \<Rightarrow> string \<Rightarrow> int \<Rightarrow> partition_row txn" where
  "part_create_or_get sha256 key t st =
     (case find (\<lambda>p. partition_key p = key \<and> part_table_id p = t) (partitions st) of
        Some p \<Rightarrow> (Inr p, st)
      | None \<Rightarrow>
          let p = new_in_memory_only sha256 (int (length (partitions st)) + 1) t key (Some []) [] None
          in (Inr p, st\<lparr>partitions := partitions st @ [p]\<rparr>))"

definition part_get_by_id :: "int \<Rightarrow> partition_row option txn" where
  "part_get_by_id i st = (Inr (find (\<lambda>p. part_id p = i) (partitions st)), st)"

definition part_get_by_id_batch :: "int list \<Rightarrow> partition_row list txn" where
  "part_get_by_id_batch ids st = (Inr (filter (\<lambda>p. part_id p \<in> set ids) (partitions st)), st)"

definition part_get_by_hash_id :: "int list \<Rightarrow> partition_row option txn" where
  "part_get_by_hash_id h st = (Inr (find (\<lambda>p. part_hash_id p = Some h) (partitions st)), st)"

definition part_get_by_hash_id_batch :: "int list list \<Rightarrow> partition_row list txn" where
  "part_get_by_hash_id_batch hs st =
     (Inr (filter (\<lambda>p. case part_hash_id p of Some h \<Rightarrow> h \<in> set hs | None \<Rightarrow> False) (partitions st)), st)"

definition part_list_by_table_id :: "int \<Rightarrow> partition_row list txn" where
  "part_list_by_table_id t st = (Inr (filter (\<lambda>p. part_table_id p = t) (partitions st)), st)"

definition part_list_ids :: "int list txn" where
  "part_list_ids st = (Inr (map part_id (partitions st)), st)"

definition is_partition :: "transition_partition_id \<Rightarrow> partition_row \<Rightarrow> bool" where
  "is_partition i p = (case i of Deterministic h \<Rightarrow> part_hash_id p = Some h | Deprecated d \<Rightarrow> part_id p = d)"

datatype cas_failure = ValueMismatch "string list option" "int list" | QueryError catalog_error | CasPanics string

definition part_cas_sort_key :: "transition_partition_id \<Rightarrow> string list option \<Rightarrow> int list option \<Rightarrow> string list \<Rightarrow> int list
    \<Rightarrow> mem_collections \<Rightarrow> (cas_failure + partition_row) \<times> mem_collections" where
  "part_cas_sort_key i old_sort_key old_sort_key_ids new_sort_key new_sort_key_ids st =
     (if map_option length old_sort_key \<noteq> map_option length old_sort_key_ids
         \<or> length new_sort_key \<noteq> length new_sort_key_ids
      then (Inl (CasPanics ''assertion failed: (left == right)''), st)
      else let old_key = (case old_sort_key of Some k \<Rightarrow> k | None \<Rightarrow> []);
               old_ids = (case old_sort_key_ids of Some k \<Rightarrow> k | None \<Rightarrow> [])
      in case find (is_partition i) (partitions st) of
           None \<Rightarrow> (Inl (QueryError (PartitionNotFound i)), st)
         | Some p \<Rightarrow>
             if part_sort_key_ids p = old_ids then
               if part_sort_key p \<noteq> Some old_key then (Inl (CasPanics ''assertion failed: (left == right)''), st)
               else (case modify_first (is_partition i)
                            (\<lambda>p. p\<lparr>part_sort_key := Some new_sort_key, part_sort_key_ids := new_sort_key_ids\<rparr>) (partitions st) of
                       Some (p, ps) \<Rightarrow> (Inr p, st\<lparr>partitions := ps\<rparr>)
                     | None \<Rightarrow> (Inl (QueryError (PartitionNotFound i)), st))
             else (Inl (ValueMismatch (part_sort_key p) (part_sort_key_ids p)), st))"

definition part_record_skipped_compaction :: "timestamp \<Rightarrow> int \<Rightarrow> string \<Rightarrow> nat \<Rightarrow> nat \<Rightarrow> nat \<Rightarrow> nat \<Rightarrow> nat \<Rightarrow> unit txn" where
  "part_record_skipped_compaction now i why num_files limit_files limit_first bytes limit st =
     (let fill = (\<lambda>s. s\<lparr>reason := why, skipped_at := now, sk_num_files := as_i64 num_files, limit_num_files := as_i64 limit_files,
                    limit_num_files_first_in_partition := as_i64 limit_first, estimated_bytes := as_i64 bytes,
                    limit_bytes := as_i64 limit\<rparr>)
      in case modify_first (\<lambda>s. sk_partition_id s = i) fill (skipped_compactions st) of
           Some (_, ss) \<Rightarrow> (Inr (), st\<lparr>skipped_compactions := ss\<rparr>)
         | None \<Rightarrow>
             (Inr (), st\<lparr>skipped_compactions := skipped_compactions st @
                [\<lparr>sk_partition_id = i, reason = why, skipped_at = now, estimated_bytes = as_i64 bytes, limit_bytes = as_i64 limit,
                  sk_num_files = as_i64 num_files, limit_num_files = as_i64 limit_files,
                  limit_num_files_first_in_partition = as_i64 limit_first\<rparr>]\<rparr>))"

definition part_get_in_skipped_compactions :: "int list \<Rightarrow> skipped_compaction list txn" where
  "part_get_in_skipped_compactions ids st = (Inr (filter (\<lambda>s. sk_partition_id s \<in> set ids) (skipped_compactions st)), st)"

definition part_list_skipped_compactions :: "skipped_compaction list txn" where
  "part_list_skipped_compactions st = (Inr (skipped_compactions st), st)"

definition part_delete_skipped_compactions :: "int \<Rightarrow> skipped_compaction option txn" where
  "part_delete_skipped_compactions i st =
     (let (removed, remaining) = partition (\<lambda>s. sk_partition_id s = i) (skipped_compactions st);
          st = st\<lparr>skipped_compactions := remaining\<rparr>
      in if removed = [] then (Inr None, st)
         else if butlast removed = [] then (Inr (Some (last removed)), st)
         else (Inl (CatalogPanics ''There must be exactly one skipped compaction per partition''), st))"

definition part_most_recent_n :: "nat \<Rightarrow> partition_row list txn" where
  "part_most_recent_n n st = (Inr (take n (rev (partitions st))), st)"

text \<open>The derived order on options: \<open>None\<close> is smaller than every \<open>Some\<close>.\<close>

definition opt_less :: "int option \<Rightarrow> int option \<Rightarrow> bool" where
  "opt_less a b = (case (a, b) of (None, Some _) \<Rightarrow> True | (Some x, Some y) \<Rightarrow> x < y | _ \<Rightarrow> False)"

definition part_partitions_new_file_between :: "timestamp \<Rightarrow> timestamp option \<Rightarrow> int list txn" where
  "part_partitions_new_file_between mn mx st =
     (Inr (map part_id (filter (\<lambda>p. opt_less (Some mn) (new_file_at p)
        \<and> (case mx of Some m \<Rightarrow> opt_less (new_file_at p) (Some m) | None \<Rightarrow> True)) (partitions st))), st)"

definition part_list_old_style :: "partition_row list txn" where
  "part_list_old_style st = (Inr (filter (\<lambda>p. part_hash_id p = None) (partitions st)), st)"

section \<open>Parquet files\<close>

definition max_files_for_retention :: nat where "max_files_for_retention = 1000"
definition max_files_for_delete :: nat where "max_files_for_delete = 10000"

definition create_parquet_file :: "parquet_file_params \<Rightarrow> parquet_file txn" where
  "create_parquet_file params st =
     (if list_ex (\<lambda>f. object_store_id f = object_store_id params) (parquet_files st)
      then (Inl (FileExists (object_store_id params)), st)
      else let f = from_params params (int (length (parquet_files st)) + 1);
               st = st\<lparr>parquet_files := parquet_files st @ [f]\<rparr>
           in case modify_first (\<lambda>p. part_transition_id p = partition_id f) (\<lambda>p. p\<lparr>new_file_at := Some (created_at f)\<rparr>) (partitions st) of
                None \<Rightarrow> (Inl (PartitionNotFound (partition_id f)), st)
              | Some (_, ps) \<Rightarrow> (Inr f, st\<lparr>partitions := ps\<rparr>))"

definition flag_for_delete :: "int \<Rightarrow> timestamp \<Rightarrow> unit txn" where
  "flag_for_delete i marked_at st =
     (case modify_first (\<lambda>f. pf_id f = i) (\<lambda>f. f\<lparr>to_delete := Some marked_at\<rparr>) (parquet_files st) of
        Some (_, fs) \<Rightarrow> (Inr (), st\<lparr>parquet_files := fs\<rparr>)
      | None \<Rightarrow> (Inl (ParquetRecordNotFound i), st))"

definition update_compaction_level :: "int list \<Rightarrow> compaction_level \<Rightarrow> int list txn" where
  "update_compaction_level ids lv st =
     (Inr (map pf_id (filter (\<lambda>f. pf_id f \<in> set ids) (parquet_files st))),
      st\<lparr>parquet_files := map (\<lambda>f. if pf_id f \<in> set ids then f\<lparr>compaction_level := lv\<rparr> else f) (parquet_files st)\<rparr>)"

definition pf_create :: "parquet_file_params \<Rightarrow> parquet_file txn" where
  "pf_create params st = create_parquet_file params st"

definition pf_list_all :: "parquet_file list txn" where
  "pf_list_all st = (Inr (parquet_files st), st)"

text \<open>Flagging stops after \<open>n\<close> files; the time of a file is only compared when its namespace has a retention period.\<close>

fun flag_loop :: "timestamp \<Rightarrow> namespace list \<Rightarrow> nat \<Rightarrow> parquet_file list \<Rightarrow> (catalog_error + int list) \<times> parquet_file list" where
  "flag_loop now nss n [] = (Inr [], [])"
| "flag_loop now nss n (f # fs) =
     (if n = 0 then (Inr [], f # fs)
      else if to_delete f \<noteq> None then (case flag_loop now nss n fs of (r, gs) \<Rightarrow> (r, f # gs))
      else (case Option.bind (find (\<lambda>x. ns_id x = namespace_id f) nss) retention_period_ns of
              None \<Rightarrow> (case flag_loop now nss n fs of (r, gs) \<Rightarrow> (r, f # gs))
            | Some rp \<Rightarrow>
                (case timestamp_sub now rp of
                   Inl _ \<Rightarrow> (Inl (CatalogPanics ''timestamp wraparound''), f # fs)
                 | Inr cutoff \<Rightarrow>
                     if max_time f < cutoff then
                       (case flag_loop now nss (n - 1) fs of
                          (Inr ids, gs) \<Rightarrow> (Inr (pf_id f # ids), f\<lparr>to_delete := Some now\<rparr> # gs)
                        | (Inl e, gs) \<Rightarrow> (Inl e, f\<lparr>to_delete := Some now\<rparr> # gs))
                     else (case flag_loop now nss n fs of (r, gs) \<Rightarrow> (r, f # gs)))))"

definition pf_flag_for_delete_by_retention :: "timestamp \<Rightarrow> int list txn" where
  "pf_flag_for_delete_by_retention now st =
     (case flag_loop now (namespaces st) max_files_for_retention (parquet_files st) of
        (r, fs) \<Rightarrow> (r, st\<lparr>parquet_files := fs\<rparr>))"

definition pf_list_by_namespace_not_to_delete :: "int \<Rightarrow> parquet_file list txn" where
  "pf_list_by_namespace_not_to_delete n st =
     (let table_ids = map tbl_id (filter (\<lambda>t. tbl_namespace_id t = n) (tables st))
      in (Inr (filter (\<lambda>f. table_id f \<in> set table_ids \<and> to_delete f = None) (parquet_files st)), st))"

definition pf_list_by_table_not_to_delete :: "int \<Rightarrow> parquet_file list txn" where
  "pf_list_by_table_not_to_delete t st = (Inr (filter (\<lambda>f. t = table_id f \<and> to_delete f = None) (parquet_files st)), st)"

definition pf_delete_old_ids_only :: "timestamp \<Rightarrow> int list txn" where
  "pf_delete_old_ids_only older_than st =
     (let (del, keep) = partition (\<lambda>f. case to_delete f of Some t \<Rightarrow> t < older_than | None \<Rightarrow> False) (parquet_files st)
      in (Inr (map pf_id (take max_files_for_delete del)), st\<lparr>parquet_files := keep\<rparr>))"

definition pf_list_by_partition_not_to_delete :: "transition_partition_id \<Rightarrow> parquet_file list txn" where
  "pf_list_by_partition_not_to_delete i st =
     (case find (is_partition i) (partitions st) of
        None \<Rightarrow> (Inl (CatalogPanics ''called `Option::unwrap()` on a `None` value''), st)
      | Some p \<Rightarrow>
          (Inr (filter (\<lambda>f. to_delete f = None) (filter (\<lambda>f. is_partition (partition_id f) p) (parquet_files st))), st))"

definition pf_get_by_object_store_id :: "uuid \<Rightarrow> parquet_file option txn" where
  "pf_get_by_object_store_id u st = (Inr (find (\<lambda>f. object_store_id f = u) (parquet_files st)), st)"

definition pf_exists_by_object_store_id_batch :: "uuid list \<Rightarrow> uuid list txn" where
  "pf_exists_by_object_store_id_batch us st =
     (Inr (map object_store_id (filter (\<lambda>f. object_store_id f \<in> set us) (parquet_files st))), st)"

text \<open>The three loops of the transaction; the clock is read once for every file to delete.\<close>

fun flag_all :: "int list \<Rightarrow> timestamp list \<Rightarrow> unit txn" where
  "flag_all (i # is) (now # nows) st =
     (case flag_for_delete i now st of (Inl e, st) \<Rightarrow> (Inl e, st) | (Inr _, st) \<Rightarrow> flag_all is nows st)"
| "flag_all _ _ st = (Inr (), st)"

fun create_all :: "parquet_file_params list \<Rightarrow> int list txn" where
  "create_all [] st = (Inr [], st)"
| "create_all (p # ps) st =
     (case create_parquet_file p st of
        (Inl e, st) \<Rightarrow> (Inl e, st)
      | (Inr f, st) \<Rightarrow>
          (case create_all ps st of (Inl e, st) \<Rightarrow> (Inl e, st) | (Inr ids, st) \<Rightarrow> (Inr (pf_id f # ids), st)))"

text \<open>The transaction works on a copy, which replaces the collections when everything succeeded.\<close>

definition pf_create_upgrade_delete :: "(nat \<Rightarrow> timestamp) \<Rightarrow> int list \<Rightarrow> int list \<Rightarrow> parquet_file_params list \<Rightarrow> compaction_level \<Rightarrow> int list txn" where
  "pf_create_upgrade_delete clock del upgr create lv st =
     (if set del \<inter> set upgr \<noteq> {} then (Inl (CatalogPanics ''attempted to upgrade a file scheduled for delete''), st)
      else case flag_all del (map clock [0..<length del]) st of
        (Inl e, _) \<Rightarrow> (Inl e, st)
      | (Inr _, stage) \<Rightarrow>
          (case update_compaction_level upgr lv stage of
             (Inl e, _) \<Rightarrow> (Inl e, st)
           | (Inr _, stage) \<Rightarrow>
               (case create_all create stage of
                  (Inl e, _) \<Rightarrow> (Inl e, st)
                | (Inr ids, stage) \<Rightarrow> (Inr ids, stage))))"

end
