(* ===== verification/Catalog_Inv.thy ===== *)
theory Catalog_Inv
  imports Mem_Catalog
begin

text \<open>
  Histories of the in-memory catalog: the calls that change it, the states they reach, and the
  invariant that the rows are identified by their keys.
\<close>

section \<open>Histories of the catalog\<close>

text \<open>The calls that change the catalog, with what the environment gives them.\<close>

datatype catalog_call =
    NsCreate string "partition_template option" "int option" "limits_override option"
  | NsSoftDelete timestamp string
  | NsUpdateTableLimit string nat
  | NsUpdateColumnLimit string nat
  | NsUpdateRetentionPeriod string "int option"
  | TblCreate string partition_template int
  | ColCreateOrGet string int column_type
  | ColCreateOrGetMany int "(string \<times> column_type) list"
  | PartCreateOrGet string int
  | PartCasSortKey transition_partition_id "string list option" "int list option" "string list" "int list"
  | PartRecordSkipped timestamp int string nat nat nat nat nat
  | PartDeleteSkipped int
  | PfCreate parquet_file_params
  | PfFlagByRetention timestamp
  | PfDeleteOld timestamp
  | PfCommit "nat \<Rightarrow> timestamp" "int list" "int list" "parquet_file_params list" compaction_level

fun run_call :: "(int list \<Rightarrow> int list) \<Rightarrow> catalog_call \<Rightarrow> mem_collections \<Rightarrow> mem_collections" where
  "run_call sha256 (NsCreate name tmpl ret lo) st = snd (ns_create name tmpl ret lo st)"
| "run_call sha256 (NsSoftDelete now name) st = snd (ns_soft_delete now name st)"
| "run_call sha256 (NsUpdateTableLimit name m) st = snd (ns_update_table_limit name m st)"
| "run_call sha256 (NsUpdateColumnLimit name m) st = snd (ns_update_column_limit name m st)"
| "run_call sha256 (NsUpdateRetentionPeriod name r) st = snd (ns_update_retention_period name r st)"
| "run_call sha256 (TblCreate name tmpl n) st = snd (tbl_create name tmpl n st)"
| "run_call sha256 (ColCreateOrGet name t ct) st = snd (col_create_or_get name t ct st)"
| "run_call sha256 (ColCreateOrGetMany t cs) st = snd (col_create_or_get_many_unchecked t cs st)"
| "run_call sha256 (PartCreateOrGet key t) st = snd (part_create_or_get sha256 key t st)"
| "run_call sha256 (PartCasSortKey i a b c d) st = snd (part_cas_sort_key i a b c d st)"
| "run_call sha256 (PartRecordSkipped now i why a b c d e) st = snd (part_record_skipped_compaction now i why a b c d e st)"
| "run_call sha256 (PartDeleteSkipped i) st = snd (part_delete_skipped_compactions i st)"
| "run_call sha256 (PfCreate p) st = snd (pf_create p st)"
| "run_call sha256 (PfFlagByRetention now) st = snd (pf_flag_for_delete_by_retention now st)"
| "run_call sha256 (PfDeleteOld t) st = snd (pf_delete_old_ids_only t st)"
| "run_call sha256 (PfCommit clock del upgr create lv) st = snd (pf_create_upgrade_delete clock del upgr create lv st)"

text \<open>The states reached from the empty catalog by calls that satisfy \<open>allowed\<close>.\<close>

inductive reachable :: "(int list \<Rightarrow> int list) \<Rightarrow> (catalog_call \<Rightarrow> bool) \<Rightarrow> mem_collections \<Rightarrow> bool" for sha256 allowed where
  init: "reachable sha256 allowed mem_default"
| step: "reachable sha256 allowed st \<Longrightarrow> allowed c \<Longrightarrow> reachable sha256 allowed (run_call sha256 c st)"

section \<open>What every call keeps\<close>

definition seq_ids :: "nat \<Rightarrow> int list" where
  "seq_ids n = map (\<lambda>i. int i + 1) [0..<n]"

lemma seq_ids_simps [simp]: "seq_ids 0 = []" "seq_ids (Suc n) = seq_ids n @ [int n + 1]"
  by (simp_all add: seq_ids_def)

lemma length_seq_ids [simp]: "length (seq_ids n) = n"
  by (simp add: seq_ids_def)

lemma in_seq_ids: "i \<in> set (seq_ids n) \<longleftrightarrow> 1 \<le> i \<and> i \<le> int n"
proof -
  have "i \<in> set (seq_ids n) \<longleftrightarrow> (\<exists>k < n. i = int k + 1)" by (auto simp: seq_ids_def)
  also have "\<dots> \<longleftrightarrow> 1 \<le> i \<and> i \<le> int n"
    by (auto intro: exI [of _ "nat (i - 1)"])
  finally show ?thesis .
qed

lemma distinct_seq_ids: "distinct (seq_ids n)"
  by (simp add: seq_ids_def distinct_map inj_on_def)

definition wf_catalog :: "(int list \<Rightarrow> int list) \<Rightarrow> mem_collections \<Rightarrow> bool" where
  "wf_catalog sha256 st \<longleftrightarrow>
     map ns_id (namespaces st) = seq_ids (length (namespaces st)) \<and> distinct (map ns_name (namespaces st))
   \<and> map tbl_id (tables st) = seq_ids (length (tables st)) \<and> distinct (map (\<lambda>t. (tbl_namespace_id t, tbl_name t)) (tables st))
   \<and> (\<forall>t \<in> set (tables st). \<exists>n \<in> set (namespaces st). ns_id n = tbl_namespace_id t)
   \<and> map col_id (columns st) = seq_ids (length (columns st)) \<and> distinct (map (\<lambda>c. (col_table_id c, col_name c)) (columns st))
   \<and> map part_id (partitions st) = seq_ids (length (partitions st))
   \<and> distinct (map (\<lambda>p. (part_table_id p, partition_key p)) (partitions st))
   \<and> (\<forall>p \<in> set (partitions st). part_hash_id p = Some (partition_hash_id_new sha256 (part_table_id p) (partition_key p)))
   \<and> distinct (map sk_partition_id (skipped_compactions st))
   \<and> distinct (map object_store_id (parquet_files st))"

lemma modify_first_map:
  "modify_first P f xs = Some (y, ys) \<Longrightarrow> (\<And>x. g (f x) = g x) \<Longrightarrow> map g ys = map g xs"
  by (induction xs arbitrary: ys) (auto split: if_splits)

lemma modify_first_length: "modify_first P f xs = Some (y, ys) \<Longrightarrow> length ys = length xs"
  by (induction xs arbitrary: ys) (auto split: if_splits)

lemma modify_first_None: "modify_first P f xs = None \<longleftrightarrow> (\<forall>x \<in> set xs. \<not> P x)"
  by (induction xs) (auto split: if_splits)

lemma modify_first_find: "modify_first P f xs = Some (y, ys) \<Longrightarrow> \<exists>x. find P xs = Some x \<and> y = f x"
  by (induction xs arbitrary: ys) (auto split: if_splits)

lemma modify_first_ball:
  "modify_first P f xs = Some (y, ys) \<Longrightarrow> (\<And>x. Q x \<Longrightarrow> Q (f x)) \<Longrightarrow> \<forall>x \<in> set xs. Q x \<Longrightarrow> \<forall>x \<in> set ys. Q x"
  by (induction xs arbitrary: ys) (auto split: if_splits)

lemmas modify_first_maps = modify_first_map [where g = ns_id] modify_first_map [where g = ns_name]

text \<open>The parts of the invariant, for the collections a call may change.\<close>

lemma wf_namespaces:
  assumes "wf_catalog h st" "modify_first P f (namespaces st) = Some (n, nss)" "\<And>n. ns_id (f n) = ns_id n" "\<And>n. ns_name (f n) = ns_name n"
  shows "wf_catalog h (st\<lparr>namespaces := nss\<rparr>)"
proof -
  have e: "map ns_id nss = map ns_id (namespaces st)" "map ns_name nss = map ns_name (namespaces st)" "length nss = length (namespaces st)"
    using modify_first_map [OF assms(2)] modify_first_length [OF assms(2)] assms(3,4) by auto
  have i: "(\<exists>n \<in> set nss. ns_id n = i) \<longleftrightarrow> (\<exists>n \<in> set (namespaces st). ns_id n = i)" for i
    using arg_cong [OF e(1), of set] by (metis (no_types, lifting) image_iff set_map)
  have "wf_catalog h (st\<lparr>namespaces := nss\<rparr>) \<longleftrightarrow> wf_catalog h st" by (simp add: wf_catalog_def e i)
  then show ?thesis using assms(1) by blast
qed

lemma wf_partitions:
  assumes "wf_catalog h st" "modify_first P f (partitions st) = Some (p, ps)"
    and f: "\<And>p. part_id (f p) = part_id p" "\<And>p. part_table_id (f p) = part_table_id p" "\<And>p. partition_key (f p) = partition_key p"
      "\<And>p. part_hash_id (f p) = part_hash_id p"
  shows "wf_catalog h (st\<lparr>partitions := ps\<rparr>)"
  using assms(1) modify_first_map [OF assms(2), of part_id] modify_first_length [OF assms(2)] f
    modify_first_map [OF assms(2), of "\<lambda>p. (part_table_id p, partition_key p)"]
    modify_first_ball [OF assms(2), of "\<lambda>p. part_hash_id p = Some (partition_hash_id_new h (part_table_id p) (partition_key p))"]
  unfolding wf_catalog_def by simp

lemma wf_add_column:
  assumes "wf_catalog h st" "find (\<lambda>c. col_name c = name \<and> col_table_id c = t) (columns st) = None"
  shows "wf_catalog h (st\<lparr>columns := columns st @ [\<lparr>col_id = int (length (columns st)) + 1, col_table_id = t, col_name = name, col_type = ct\<rparr>]\<rparr>)"
  using assms unfolding wf_catalog_def by (auto simp: find_None_iff)

lemma wf_upsert_column: "wf_catalog h st \<Longrightarrow> wf_catalog h (snd (upsert_column name t ct st))"
  using wf_add_column by (auto simp: upsert_column_def Let_def split: option.splits)

lemma wf_col_create_or_get: "wf_catalog h st \<Longrightarrow> wf_catalog h (snd (col_create_or_get name t ct st))"
  by (auto simp: col_create_or_get_def wf_upsert_column split: sum.splits)

lemma wf_col_create_many: "wf_catalog h st \<Longrightarrow> wf_catalog h (snd (col_create_or_get_many_unchecked t cs st))"
proof (induction t cs st rule: col_create_or_get_many_unchecked.induct)
  case (2 t name ct cs st)
  obtain r st1 where r: "upsert_column name t ct st = (r, st1)" by (cases "upsert_column name t ct st")
  have w: "wf_catalog h st1" using wf_upsert_column [OF 2(2), of name t ct] r by simp
  show ?case
  proof (cases r)
    case (Inr c)
    then show ?thesis using 2(1) [OF r [symmetric] Inr w] r
      by (auto split: sum.splits prod.splits)
  qed (simp add: r w)
qed simp

lemma wf_create_template_columns: "wf_catalog h st \<Longrightarrow> wf_catalog h (snd (create_template_columns ps t st))"
proof (induction ps t st rule: create_template_columns.induct)
  case (2 tag ps t st)
  obtain r st1 where r: "col_create_or_get tag t Tag st = (r, st1)" by (cases "col_create_or_get tag t Tag st")
  have w: "wf_catalog h st1" using wf_col_create_or_get [OF 2(2), of tag t Tag] r by simp
  show ?case using 2(1) [OF r [symmetric] _ w] r w by (cases r) auto
qed simp_all

lemma wf_tbl_create:
  assumes "wf_catalog h st"
  shows "wf_catalog h (snd (tbl_create name tmpl n st))"
proof -
  let ?t = "\<lparr>tbl_id = int (length (tables st)) + 1, tbl_namespace_id = n, tbl_name = name, tbl_partition_template = tmpl\<rparr>"
  have "wf_catalog h (st\<lparr>tables := tables st @ [?t]\<rparr>)"
    if "find (\<lambda>x. ns_id x = n) (namespaces st) = Some ns" "find (\<lambda>t. tbl_name t = name \<and> tbl_namespace_id t = n) (tables st) = None" for ns
    using assms that unfolding wf_catalog_def by (auto simp: find_None_iff find_Some_iff image_iff)
  then have "wf_catalog h (snd (create_template_columns ps i (st\<lparr>tables := tables st @ [?t]\<rparr>)))"
    if "find (\<lambda>x. ns_id x = n) (namespaces st) = Some ns" "find (\<lambda>t. tbl_name t = name \<and> tbl_namespace_id t = n) (tables st) = None" for ns ps i
    using that by (intro wf_create_template_columns) blast
  then show ?thesis using assms
    by (auto simp: tbl_create_def Let_def split: option.split sum.split prod.split) (metis snd_conv)+
qed

lemma wf_part_create_or_get:
  assumes "wf_catalog h st"
  shows "wf_catalog h (snd (part_create_or_get h key t st))"
  using assms unfolding wf_catalog_def
  by (auto simp: part_create_or_get_def Let_def new_in_memory_only_def find_None_iff split: option.splits)

lemma wf_create_parquet_file:
  assumes "wf_catalog h st"
  shows "wf_catalog h (snd (create_parquet_file p st))"
proof -
  let ?f = "from_params p (int (length (parquet_files st)) + 1)"
  have "wf_catalog h (st\<lparr>parquet_files := parquet_files st @ [?f]\<rparr>)" if "\<not> list_ex (\<lambda>f. object_store_id f = object_store_id p) (parquet_files st)"
    using assms that unfolding wf_catalog_def by (auto simp: list_ex_iff from_params_def parquet_file_params.defs)
  moreover have "wf_catalog h (st'\<lparr>partitions := ps\<rparr>)"
    if "wf_catalog h st'" "modify_first P (\<lambda>p. p\<lparr>new_file_at := x\<rparr>) (partitions st') = Some (y, ps)" for st' P x y ps
    by (rule wf_partitions [OF that]) simp_all
  ultimately show ?thesis using assms
    by (auto simp: create_parquet_file_def Let_def split: option.split)
qed

lemma wf_files:
  assumes "wf_catalog h st" "distinct (map object_store_id fs)"
  shows "wf_catalog h (st\<lparr>parquet_files := fs\<rparr>)"
  using assms unfolding wf_catalog_def by simp

lemma wf_flag_for_delete: "wf_catalog h st \<Longrightarrow> wf_catalog h (snd (flag_for_delete i now st))"
proof -
  assume w: "wf_catalog h st"
  have "wf_catalog h (st\<lparr>parquet_files := fs\<rparr>)"
    if "modify_first P (\<lambda>f. f\<lparr>to_delete := x\<rparr>) (parquet_files st) = Some (y, fs)" for P x y fs
    using wf_files [OF w] modify_first_map [OF that, of object_store_id] w by (simp add: wf_catalog_def)
  then show ?thesis using w by (auto simp: flag_for_delete_def split: option.splits)
qed

lemma wf_flag_all: "wf_catalog h st \<Longrightarrow> wf_catalog h (snd (flag_all ids nows st))"
proof (induction ids nows st rule: flag_all.induct)
  case (1 i ids now nows st)
  obtain r st1 where r: "flag_for_delete i now st = (r, st1)" by (cases "flag_for_delete i now st")
  have w: "wf_catalog h st1" using wf_flag_for_delete [OF 1(2), of i now] r by simp
  show ?case using 1(1) [OF r [symmetric] _ w] r w by (cases r) auto
qed simp_all

lemma wf_create_all: "wf_catalog h st \<Longrightarrow> wf_catalog h (snd (create_all ps st))"
proof (induction ps st rule: create_all.induct)
  case (2 p ps st)
  obtain r st1 where r: "create_parquet_file p st = (r, st1)" by (cases "create_parquet_file p st")
  have w: "wf_catalog h st1" using wf_create_parquet_file [OF 2(2), of p] r by simp
  show ?case using 2(1) [OF r [symmetric] _ w] r w by (cases r) (auto split: sum.splits prod.splits)
qed simp

lemma wf_commit: "wf_catalog h st \<Longrightarrow> wf_catalog h (snd (pf_create_upgrade_delete clock del upgr create lv st))"
proof -
  assume w: "wf_catalog h st"
  obtain r1 st1 where f: "flag_all del (map clock [0..<length del]) st = (r1, st1)" by force
  have w1: "wf_catalog h st1" using wf_flag_all [OF w, of del] f by (metis snd_conv)
  have w2: "wf_catalog h (snd (update_compaction_level upgr lv st1))"
    using wf_files [OF w1] w1 by (simp add: update_compaction_level_def wf_catalog_def comp_def if_distrib cong: if_cong)
  show ?thesis using w f w2 wf_create_all [OF w2, of create]
    by (auto simp: pf_create_upgrade_delete_def update_compaction_level_def split: sum.splits prod.splits)
qed

lemma flag_loop_keys:
  assumes "\<And>f x. g (f\<lparr>to_delete := x\<rparr>) = g f"
  shows "map g (snd (flag_loop now nss n fs)) = map g fs"
proof (induction now nss n fs rule: flag_loop.induct)
  case (2 now nss n f fs)
  then show ?case by (auto simp: Let_def assms split: option.splits sum.splits prod.splits)
qed simp

lemma wf_skipped:
  assumes "wf_catalog h st" "distinct (map sk_partition_id ss)"
  shows "wf_catalog h (st\<lparr>skipped_compactions := ss\<rparr>)"
  using assms unfolding wf_catalog_def by simp

lemma wf_record_skipped: "wf_catalog h st \<Longrightarrow> wf_catalog h (snd (part_record_skipped_compaction now i why a b c d e st))"
proof -
  assume w: "wf_catalog h st"
  then have d: "distinct (map sk_partition_id (skipped_compactions st))" by (simp add: wf_catalog_def)
  let ?f = "\<lambda>s. s\<lparr>reason := why, skipped_at := now, sk_num_files := as_i64 a, limit_num_files := as_i64 b,
      limit_num_files_first_in_partition := as_i64 c, estimated_bytes := as_i64 d, limit_bytes := as_i64 e\<rparr>"
  show ?thesis
  proof (cases "modify_first (\<lambda>s. sk_partition_id s = i) ?f (skipped_compactions st)")
    case None
    then have "\<forall>s \<in> set (skipped_compactions st). sk_partition_id s \<noteq> i" by (simp add: modify_first_None)
    then show ?thesis using d None by (auto simp: part_record_skipped_compaction_def intro!: wf_skipped [OF w])
  next
    case (Some yss)
    then obtain y ss where s: "modify_first (\<lambda>s. sk_partition_id s = i) ?f (skipped_compactions st) = Some (y, ss)" by (cases yss) auto
    then have "map sk_partition_id ss = map sk_partition_id (skipped_compactions st)" by (rule modify_first_map) simp
    then show ?thesis using d s by (simp add: part_record_skipped_compaction_def wf_skipped [OF w])
  qed
qed

lemma wf_delete_skipped: "wf_catalog h st \<Longrightarrow> wf_catalog h (snd (part_delete_skipped_compactions i st))"
  by (auto simp: part_delete_skipped_compactions_def Let_def wf_catalog_def distinct_map_filter)

lemma wf_cas_sort_key: "wf_catalog h st \<Longrightarrow> wf_catalog h (snd (part_cas_sort_key i a b c d st))"
proof -
  assume w: "wf_catalog h st"
  have "wf_catalog h (st\<lparr>partitions := ps\<rparr>)"
    if "modify_first P (\<lambda>p. p\<lparr>part_sort_key := Some c, part_sort_key_ids := d\<rparr>) (partitions st) = Some (y, ps)" for P y ps
    by (rule wf_partitions [OF w that]) simp_all
  then show ?thesis using w by (auto simp: part_cas_sort_key_def Let_def split: option.split)
qed

lemma wf_ns_modify:
  assumes "wf_catalog h st" "\<And>n. ns_id (f n) = ns_id n" "\<And>n. ns_name (f n) = ns_name n"
    "modify_first P f (namespaces st) = Some (n, nss)"
  shows "wf_catalog h (st\<lparr>namespaces := nss\<rparr>)"
  using wf_namespaces [OF assms(1,4) assms(2,3)] .

lemma wf_ns_create: "wf_catalog h st \<Longrightarrow> wf_catalog h (snd (ns_create name tmpl ret lo st))"
  unfolding wf_catalog_def by (auto simp: ns_create_def Let_def list_ex_iff)

lemma wf_ns_updates:
  assumes "wf_catalog h st"
  shows "wf_catalog h (snd (ns_soft_delete now name st))" "wf_catalog h (snd (ns_update_table_limit name m st))"
    "wf_catalog h (snd (ns_update_column_limit name m st))" "wf_catalog h (snd (ns_update_retention_period name r st))"
  using assms wf_ns_modify [OF assms, of "\<lambda>n. n\<lparr>deleted_at := Some now\<rparr>"] wf_ns_modify [OF assms, of "\<lambda>n. n\<lparr>max_tables := m\<rparr>"]
    wf_ns_modify [OF assms, of "\<lambda>n. n\<lparr>max_columns_per_table := m\<rparr>"] wf_ns_modify [OF assms, of "\<lambda>n. n\<lparr>retention_period_ns := r\<rparr>"]
  by (auto simp: ns_soft_delete_def ns_update_table_limit_def ns_update_column_limit_def ns_update_retention_period_def split: option.split)

lemma wf_retention: "wf_catalog h st \<Longrightarrow> wf_catalog h (snd (pf_flag_for_delete_by_retention now st))"
proof -
  assume w: "wf_catalog h st"
  have "distinct (map object_store_id (snd (flag_loop now (namespaces st) max_files_for_retention (parquet_files st))))"
    using w by (simp add: flag_loop_keys wf_catalog_def del: map_map)
  from wf_files [OF w this] show ?thesis by (auto simp: pf_flag_for_delete_by_retention_def split: prod.split)
qed

lemma wf_delete_old: "wf_catalog h st \<Longrightarrow> wf_catalog h (snd (pf_delete_old_ids_only t st))"
  by (auto simp: pf_delete_old_ids_only_def wf_catalog_def distinct_map_filter)

lemma wf_run_call: "wf_catalog h st \<Longrightarrow> wf_catalog h (run_call h c st)"
  by (cases c) (simp_all add: wf_ns_create wf_ns_updates wf_tbl_create wf_col_create_or_get wf_col_create_many wf_part_create_or_get
      wf_cas_sort_key wf_record_skipped wf_delete_skipped pf_create_def wf_create_parquet_file wf_retention wf_delete_old wf_commit)

lemma reachable_wf: "reachable h allowed st \<Longrightarrow> wf_catalog h st"
  by (induction rule: reachable.induct) (simp add: wf_catalog_def mem_default_def, rule wf_run_call)

end
