(* ===== verification/Catalog_Commit.thy ===== *)
theory Catalog_Commit
  imports Catalog_Inv
begin

text \<open>
  The transaction of the compactor, \<open>create_upgrade_delete\<close>, as a refinement of an abstract catalog
  that maps ids to files, and the ids the in-memory catalog assigns.
\<close>

section \<open>The transaction of the compactor\<close>

definition active :: "mem_collections \<Rightarrow> parquet_file list" where
  "active st = filter (\<lambda>f. to_delete f = None) (parquet_files st)"

definition active_map :: "mem_collections \<Rightarrow> int \<rightharpoonup> parquet_file" where
  "active_map st = map_of (map (\<lambda>f. (pf_id f, f)) (active st))"

definition file_ids_ok :: "mem_collections \<Rightarrow> bool" where
  "file_ids_ok st \<longleftrightarrow> distinct (map pf_id (parquet_files st))
     \<and> (\<forall>f \<in> set (parquet_files st). 1 \<le> pf_id f \<and> pf_id f \<le> int (length (parquet_files st)))"

text \<open>
  The abstract catalog maps ids to files. A commit removes the deleted files, changes the level of the
  upgraded ones and adds the created ones.
\<close>

definition commit_spec :: "int list \<Rightarrow> int list \<Rightarrow> parquet_file_params list \<Rightarrow> int list \<Rightarrow> compaction_level
    \<Rightarrow> (int \<rightharpoonup> parquet_file) \<Rightarrow> (int \<rightharpoonup> parquet_file)" where
  "commit_spec del upgr create ids lv m =
     (\<lambda>i. if i \<in> set del then None else if i \<in> set upgr then map_option (\<lambda>f. f\<lparr>compaction_level := lv\<rparr>) (m i) else m i)
     ++ map_of (zip ids (map2 from_params create ids))"

lemma map_eqI: "(\<And>i f. m i = Some f \<longleftrightarrow> m' i = Some f) \<Longrightarrow> m = m'"
  by (metis ext option.exhaust)

lemma active_map_iff:
  assumes "file_ids_ok st"
  shows "active_map st i = Some f \<longleftrightarrow> f \<in> set (parquet_files st) \<and> pf_id f = i \<and> to_delete f = None"
proof -
  have "distinct (map fst (map (\<lambda>f. (pf_id f, f)) (active st)))"
    using assms by (simp add: file_ids_ok_def active_def comp_def distinct_map_filter)
  from map_of_eq_Some_iff [OF this, of i f] show ?thesis by (auto simp: active_map_def active_def)
qed

definition files_map :: "mem_collections \<Rightarrow> int \<rightharpoonup> parquet_file" where
  "files_map st = map_of (map (\<lambda>f. (pf_id f, f)) (parquet_files st))"

lemma files_map_id: "files_map st i = Some f \<Longrightarrow> pf_id f = i"
  unfolding files_map_def by (auto dest!: map_of_SomeD)

lemma files_map_map:
  assumes "parquet_files st' = map g (parquet_files st)" "\<And>f. pf_id (g f) = pf_id f"
  shows "files_map st' i = map_option g (files_map st i)"
proof -
  have "map_of (map (\<lambda>f. (pf_id f, f)) (map g fs)) i = map_option g (map_of (map (\<lambda>f. (pf_id f, f)) fs) i)" for fs
    by (induction fs) (auto simp: assms(2))
  then show ?thesis by (simp add: files_map_def assms(1))
qed

lemma active_map_files:
  assumes "file_ids_ok st"
  shows "active_map st i = (case files_map st i of Some f \<Rightarrow> if to_delete f = None then Some f else None | None \<Rightarrow> None)"
proof -
  have "map_of (map (\<lambda>f. (pf_id f, f)) (filter P fs)) i
      = (case map_of (map (\<lambda>f. (pf_id f, f)) fs) i of Some f \<Rightarrow> if P f then Some f else None | None \<Rightarrow> None)"
    if "distinct (map pf_id fs)" for fs P
    using that by (induction fs) (auto split: option.splits dest!: map_of_SomeD)
  from this [of "parquet_files st" "\<lambda>f. to_delete f = None"] assms show ?thesis
    unfolding active_map_def active_def files_map_def file_ids_ok_def by blast
qed

lemma modify_first_distinct:
  assumes "modify_first (\<lambda>x. g x = k) f xs = Some (y, ys)" "distinct (map g xs)"
  shows "ys = map (\<lambda>x. if g x = k then f x else x) xs"
  using assms
proof (induction xs arbitrary: ys)
  case (Cons x xs)
  show ?case
  proof (cases "g x = k")
    case True
    then have "map (\<lambda>x. if g x = k then f x else x) xs = xs" using Cons.prems(2) by (intro map_idI) (auto, metis imageI)
    then show ?thesis using Cons.prems(1) True by auto
  qed (use Cons in auto)
qed simp

lemma file_ids_ok_map:
  assumes "file_ids_ok st" "\<And>f. pf_id (g f) = pf_id f"
  shows "file_ids_ok (st\<lparr>parquet_files := map g (parquet_files st)\<rparr>)"
  using assms by (simp add: file_ids_ok_def comp_def)

lemma flag_for_delete_refines:
  assumes ok: "file_ids_ok st" and f: "flag_for_delete i now st = (Inr u, st')"
  shows "file_ids_ok st' \<and> active_map st' = (active_map st)(i := None) \<and> map pf_id (parquet_files st') = map pf_id (parquet_files st)"
proof -
  let ?g = "\<lambda>f. if pf_id f = i then f\<lparr>to_delete := Some now\<rparr> else f"
  obtain y fs where m: "modify_first (\<lambda>f. pf_id f = i) (\<lambda>f. f\<lparr>to_delete := Some now\<rparr>) (parquet_files st) = Some (y, fs)"
    "st' = st\<lparr>parquet_files := fs\<rparr>" using f by (auto simp: flag_for_delete_def split: option.splits)
  have fs: "fs = map ?g (parquet_files st)" using modify_first_distinct [OF m(1)] ok by (simp add: file_ids_ok_def)
  have k: "file_ids_ok st'" unfolding m(2) fs by (rule file_ids_ok_map [OF ok]) simp
  have p: "parquet_files st' = map ?g (parquet_files st)" by (simp add: m(2) fs)
  have "files_map st' j = map_option ?g (files_map st j)" for j by (rule files_map_map [OF p]) simp
  then have "active_map st' = (active_map st)(i := None)"
    by (auto simp: fun_eq_iff active_map_files [OF k] active_map_files [OF ok] dest: files_map_id split: option.splits)
  then show ?thesis using k by (auto simp: p)
qed

lemma flag_all_refines:
  assumes "file_ids_ok st" "flag_all ids nows st = (Inr u, st')" "length nows = length ids"
  shows "file_ids_ok st' \<and> active_map st' = active_map st |` (- set ids) \<and> map pf_id (parquet_files st') = map pf_id (parquet_files st)"
  using assms
proof (induction ids nows st rule: flag_all.induct)
  case (1 i ids now nows st)
  obtain v st1 where s: "flag_for_delete i now st = (Inr v, st1)" "flag_all ids nows st1 = (Inr u, st')"
    using 1(3) by (auto split: prod.splits sum.splits)
  note r = flag_for_delete_refines [OF 1(2) s(1)]
  have "file_ids_ok st' \<and> active_map st' = active_map st1 |` (- set ids) \<and> map pf_id (parquet_files st') = map pf_id (parquet_files st1)"
    by (rule 1(1) [OF s(1) [symmetric] refl _ s(2)]) (use r 1(4) in simp_all)
  then show ?case using r by (auto simp: restrict_map_def fun_eq_iff)
qed (auto simp: restrict_map_def)

lemma update_level_refines:
  assumes ok: "file_ids_ok st" and u: "update_compaction_level ids lv st = (r, st')"
  shows "file_ids_ok st' \<and> active_map st' = (\<lambda>i. if i \<in> set ids then map_option (\<lambda>f. f\<lparr>compaction_level := lv\<rparr>) (active_map st i) else active_map st i)
    \<and> map pf_id (parquet_files st') = map pf_id (parquet_files st)"
proof -
  let ?g = "\<lambda>f. if pf_id f \<in> set ids then f\<lparr>compaction_level := lv\<rparr> else f"
  have st': "st' = st\<lparr>parquet_files := map ?g (parquet_files st)\<rparr>" using u by (simp add: update_compaction_level_def)
  have k: "file_ids_ok st'" unfolding st' by (rule file_ids_ok_map [OF ok]) simp
  have p: "parquet_files st' = map ?g (parquet_files st)" by (simp add: st')
  have "files_map st' j = map_option ?g (files_map st j)" for j by (rule files_map_map [OF p]) simp
  then show ?thesis using k
    by (auto simp: p fun_eq_iff active_map_files [OF k] active_map_files [OF ok] dest: files_map_id split: option.splits)
qed

lemma create_file_refines:
  assumes ok: "file_ids_ok st" and c: "create_parquet_file p st = (Inr f, st')"
  shows "file_ids_ok st' \<and> pf_id f \<notin> pf_id ` set (parquet_files st) \<and> f = from_params p (pf_id f)
    \<and> active_map st' = (active_map st)(pf_id f \<mapsto> f) \<and> map pf_id (parquet_files st') = map pf_id (parquet_files st) @ [pf_id f]"
proof -
  have f: "f = from_params p (int (length (parquet_files st)) + 1)" and fs: "parquet_files st' = parquet_files st @ [f]"
    using c by (auto simp: create_parquet_file_def Let_def split: if_splits option.splits)
  have i: "pf_id f = int (length (parquet_files st)) + 1" "to_delete f = None"
    by (simp_all add: f from_params_def parquet_file_params.defs)
  have n: "pf_id f \<notin> pf_id ` set (parquet_files st)" using ok i(1) by (auto simp: file_ids_ok_def)
  have k: "file_ids_ok st'" using ok n i(1) by (auto simp: file_ids_ok_def fs)
  have "active_map st' = (active_map st)(pf_id f \<mapsto> f)"
    using n i(2) by (auto simp: fun_eq_iff active_map_def active_def fs map_add_def split: option.split dest!: map_of_SomeD)
  then show ?thesis using k n fs f i(1) by simp
qed

lemma create_all_refines:
  assumes "file_ids_ok st" "create_all ps st = (Inr ids, st')"
  shows "file_ids_ok st' \<and> length ids = length ps \<and> map pf_id (parquet_files st') = map pf_id (parquet_files st) @ ids
    \<and> active_map st' = active_map st ++ map_of (zip ids (map2 from_params ps ids))"
  using assms
proof (induction ps st arbitrary: ids rule: create_all.induct)
  case (2 p ps st)
  obtain f st1 js where s: "create_parquet_file p st = (Inr f, st1)" "create_all ps st1 = (Inr js, st')" "ids = pf_id f # js"
    using 2(3) by (auto split: prod.splits sum.splits)
  note r = create_file_refines [OF 2(2) s(1)]
  have h: "file_ids_ok st' \<and> length js = length ps \<and> map pf_id (parquet_files st') = map pf_id (parquet_files st1) @ js
    \<and> active_map st' = active_map st1 ++ map_of (zip js (map2 from_params ps js))"
    using 2(1) [OF s(1) [symmetric] refl _ s(2)] r by blast
  have "pf_id f \<notin> set js" using h r by (auto simp: file_ids_ok_def)
  let ?m = "map_of (zip js (map2 from_params ps js))"
  have ff: "from_params p (pf_id f) = f" using r by metis
  have d: "pf_id f \<notin> dom ?m" using \<open>pf_id f \<notin> set js\<close> by (auto dest!: map_of_SomeD set_zip_leftD)
  have "active_map st' = (active_map st)(pf_id f \<mapsto> f) ++ ?m" using h r by metis
  also have "\<dots> = active_map st ++ ?m(pf_id f \<mapsto> f)" using map_add_upd_left [OF d] by (simp add: map_add_upd)
  also have "?m(pf_id f \<mapsto> f) = map_of (zip ids (map2 from_params (p # ps) ids))"
    by (simp add: s(3) ff)
  finally have m: "active_map st' = active_map st ++ map_of (zip ids (map2 from_params (p # ps) ids))" .
  have "length ids = length (p # ps)" "map pf_id (parquet_files st') = map pf_id (parquet_files st) @ ids"
    using h s(3) conjunct2 [OF conjunct2 [OF conjunct2 [OF conjunct2 [OF r]]]] by simp_all
  then show ?case using h m by blast
qed simp

lemma commit_refines:
  assumes "file_ids_ok st"
  shows "case pf_create_upgrade_delete clock del upgr create lv st of
      (Inr ids, st') \<Rightarrow> active_map st' = commit_spec del upgr create ids lv (active_map st) \<and> length ids = length create
        \<and> distinct ids \<and> set ids \<inter> pf_id ` set (parquet_files st) = {} \<and> file_ids_ok st'
    | (Inl e, st') \<Rightarrow> st' = st"
proof -
  obtain r st' where c: "pf_create_upgrade_delete clock del upgr create lv st = (r, st')" by force
  show ?thesis
  proof (cases r)
    case (Inl e)
    then show ?thesis using c by (auto simp: pf_create_upgrade_delete_def split: if_splits sum.splits prod.splits)
  next
    case (Inr ids)
    then obtain u st1 ids1 st2 where s: "flag_all del (map clock [0..<length del]) st = (Inr u, st1)"
      "update_compaction_level upgr lv st1 = (Inr ids1, st2)" "create_all create st2 = (Inr ids, st')" "set del \<inter> set upgr = {}"
      using c by (auto simp: pf_create_upgrade_delete_def split: if_splits sum.splits prod.splits)
    note r1 = flag_all_refines [OF assms s(1)]
    note r2 = update_level_refines [OF _ s(2)]
    note r3 = create_all_refines [OF _ s(3)]
    have m: "map pf_id (parquet_files st') = map pf_id (parquet_files st) @ ids" using r1 r2 r3 by simp
    have "active_map st2 = (\<lambda>i. if i \<in> set del then None
        else if i \<in> set upgr then map_option (\<lambda>f. f\<lparr>compaction_level := lv\<rparr>) (active_map st i) else active_map st i)"
      using r1 r2 s(4) by (auto simp: restrict_map_def fun_eq_iff)
    then have "active_map st' = commit_spec del upgr create ids lv (active_map st)"
      using r1 r2 r3 by (simp add: commit_spec_def)
    moreover have k: "file_ids_ok st'" "length ids = length create" using r1 r2 r3 by simp_all
    moreover have "distinct (map pf_id (parquet_files st) @ ids)"
      using k(1) unfolding m [symmetric] file_ids_ok_def by blast
    ultimately show ?thesis unfolding c Inr prod.case sum.case by auto
  qed
qed

section \<open>File ids\<close>

definition seq_file_ids :: "mem_collections \<Rightarrow> bool" where
  "seq_file_ids st \<longleftrightarrow> map pf_id (parquet_files st) = seq_ids (length (parquet_files st))"

lemma seq_file_ids_ok: "seq_file_ids st \<Longrightarrow> file_ids_ok st"
  unfolding seq_file_ids_def file_ids_ok_def
  by (metis (mono_tags, lifting) distinct_seq_ids imageI in_seq_ids set_map)

lemma seq_file_ids_cong: "map pf_id (parquet_files st') = map pf_id (parquet_files st) \<Longrightarrow> seq_file_ids st' = seq_file_ids st"
  unfolding seq_file_ids_def by (metis length_map)

lemma files_upsert_column: "parquet_files (snd (upsert_column name t ct st)) = parquet_files st"
  by (auto simp: upsert_column_def Let_def split: option.split)

lemma files_col_create_or_get: "parquet_files (snd (col_create_or_get name t ct st)) = parquet_files st"
  by (auto simp: col_create_or_get_def files_upsert_column split: sum.split)

lemma files_col_create_many: "parquet_files (snd (col_create_or_get_many_unchecked t cs st)) = parquet_files st"
proof (induction t cs st rule: col_create_or_get_many_unchecked.induct)
  case (2 t name ct cs st)
  obtain r st1 where r: "upsert_column name t ct st = (r, st1)" by (cases "upsert_column name t ct st")
  have "parquet_files st1 = parquet_files st" using files_upsert_column [of name t ct st] r by simp
  then show ?case using 2(1) [OF r [symmetric]] r by (cases r) (auto split: sum.splits prod.splits)
qed simp

lemma files_create_template_columns: "parquet_files (snd (create_template_columns ps t st)) = parquet_files st"
proof (induction ps t st rule: create_template_columns.induct)
  case (2 tag ps t st)
  obtain r st1 where r: "col_create_or_get tag t Tag st = (r, st1)" by (cases "col_create_or_get tag t Tag st")
  have "parquet_files st1 = parquet_files st" using files_col_create_or_get [of tag t Tag st] r by simp
  then show ?case using 2 r by (cases r) auto
qed simp_all

lemma files_tbl_create: "parquet_files (snd (tbl_create name tmpl n st)) = parquet_files st"
  using files_create_template_columns [of "template_parts tmpl" "int (length (tables st)) + 1"
    "st\<lparr>tables := tables st @ [\<lparr>tbl_id = int (length (tables st)) + 1, tbl_namespace_id = n, tbl_name = name, tbl_partition_template = tmpl\<rparr>]\<rparr>"]
  by (auto simp: tbl_create_def Let_def split: option.split sum.split prod.split)

lemma files_frame:
  "parquet_files (snd (ns_create name tmpl ret lo st)) = parquet_files st"
  "parquet_files (snd (ns_soft_delete now name st)) = parquet_files st"
  "parquet_files (snd (ns_update_table_limit name m st)) = parquet_files st"
  "parquet_files (snd (ns_update_column_limit name m st)) = parquet_files st"
  "parquet_files (snd (ns_update_retention_period name r st)) = parquet_files st"
  "parquet_files (snd (part_create_or_get h key t st)) = parquet_files st"
  "parquet_files (snd (part_cas_sort_key i a b c d st)) = parquet_files st"
  "parquet_files (snd (part_record_skipped_compaction now j why n1 n2 n3 n4 n5 st)) = parquet_files st"
  "parquet_files (snd (part_delete_skipped_compactions j st)) = parquet_files st"
  by (auto simp: ns_create_def ns_soft_delete_def ns_update_table_limit_def ns_update_column_limit_def ns_update_retention_period_def
      part_create_or_get_def part_cas_sort_key_def part_record_skipped_compaction_def part_delete_skipped_compactions_def Let_def
      split: option.split)

lemma seq_create_file: "seq_file_ids st \<Longrightarrow> seq_file_ids (snd (create_parquet_file p st))"
proof -
  assume s: "seq_file_ids st"
  have "pf_id (from_params p i) = i" for i by (simp add: from_params_def parquet_file_params.defs)
  then show ?thesis using s by (auto simp: create_parquet_file_def Let_def seq_file_ids_def split: option.split)
qed

lemma seq_create_all: "seq_file_ids st \<Longrightarrow> seq_file_ids (snd (create_all ps st))"
proof (induction ps st rule: create_all.induct)
  case (2 p ps st)
  obtain r st1 where r: "create_parquet_file p st = (r, st1)" by (cases "create_parquet_file p st")
  have w: "seq_file_ids st1" using seq_create_file [OF 2(2), of p] r by simp
  show ?case using 2(1) [OF r [symmetric] _ w] r w by (cases r) (auto split: sum.splits prod.splits)
qed simp

lemma seq_commit: "seq_file_ids st \<Longrightarrow> seq_file_ids (snd (pf_create_upgrade_delete clock del upgr create lv st))"
proof -
  assume s: "seq_file_ids st"
  obtain r1 st1 where f: "flag_all del (map clock [0..<length del]) st = (r1, st1)" by force
  show ?thesis
  proof (cases r1)
    case (Inr u)
    have "map pf_id (parquet_files st1) = map pf_id (parquet_files st)"
      using flag_all_refines [OF seq_file_ids_ok [OF s] f [unfolded Inr]] by simp
    moreover have "map pf_id (parquet_files (snd (update_compaction_level upgr lv st1))) = map pf_id (parquet_files st1)"
      by (auto simp: update_compaction_level_def)
    ultimately have "seq_file_ids (snd (update_compaction_level upgr lv st1))"
      using s seq_file_ids_cong [of "snd (update_compaction_level upgr lv st1)" st] by simp
    from seq_create_all [OF this, of create] show ?thesis using s f
      by (auto simp: pf_create_upgrade_delete_def update_compaction_level_def split: sum.splits prod.splits)
  qed (use s f in \<open>auto simp: pf_create_upgrade_delete_def\<close>)
qed

lemma seq_retention: "seq_file_ids st \<Longrightarrow> seq_file_ids (snd (pf_flag_for_delete_by_retention now st))"
proof -
  assume s: "seq_file_ids st"
  have "map pf_id (snd (flag_loop now (namespaces st) max_files_for_retention (parquet_files st))) = map pf_id (parquet_files st)"
    by (rule flag_loop_keys) simp
  then show ?thesis using s seq_file_ids_cong [of "snd (pf_flag_for_delete_by_retention now st)" st]
    by (auto simp: pf_flag_for_delete_by_retention_def split: prod.splits)
qed

fun is_delete_old :: "catalog_call \<Rightarrow> bool" where
  "is_delete_old (PfDeleteOld t) = True"
| "is_delete_old _ = False"

lemma seq_run_call: "seq_file_ids st \<Longrightarrow> \<not> is_delete_old c \<Longrightarrow> seq_file_ids (run_call h c st)"
proof (cases c)
  case (PfCreate p)
  then show "seq_file_ids st \<Longrightarrow> ?thesis" by (simp add: pf_create_def seq_create_file)
next
  case (PfFlagByRetention t)
  then show "seq_file_ids st \<Longrightarrow> ?thesis" by (simp add: seq_retention)
next
  case (PfCommit a b c d e)
  then show "seq_file_ids st \<Longrightarrow> ?thesis" by (simp add: seq_commit)
qed (simp_all add: seq_file_ids_def files_frame files_tbl_create files_col_create_or_get files_col_create_many)

lemma reachable_seq_ids:
  assumes "reachable h (\<lambda>c. \<not> is_delete_old c) st"
  shows "seq_file_ids st"
  using assms by (induction rule: reachable.induct) (simp add: seq_file_ids_def mem_default_def, rule seq_run_call)

end
