(* ===== verification/Catalog_Props.thy ===== *)
theory Catalog_Props
  imports Catalog_Commit
begin

text \<open>
  Properties of histories of the in-memory catalog: ids that are assigned twice once rows are removed,
  the retention flagger of the garbage collector, and concrete histories.
\<close>

section \<open>Ids that are used twice\<close>

lemma modify_first_append:
  "modify_first P f (xs @ ys) = (case modify_first P f xs of Some (y, zs) \<Rightarrow> Some (y, zs @ ys)
     | None \<Rightarrow> map_option (\<lambda>(y, zs). (y, xs @ zs)) (modify_first P f ys))"
proof (induction xs)
  case (Cons x xs)
  then show ?case by (cases "modify_first P f ys") (auto split: option.splits)
qed (simp add: option.map_id)

definition is_old :: "timestamp \<Rightarrow> parquet_file \<Rightarrow> bool" where
  "is_old t f = (case to_delete f of Some d \<Rightarrow> d < t | None \<Rightarrow> False)"

lemma delete_old_files: "parquet_files (snd (pf_delete_old_ids_only t st)) = filter (\<lambda>f. \<not> is_old t f) (parquet_files st)"
  by (simp add: pf_delete_old_ids_only_def is_old_def comp_def)

lemma seq_last_id:
  assumes "seq_file_ids st" "parquet_files st = fs @ [g]"
  shows "pf_id g = int (length fs) + 1" "\<forall>f \<in> set fs. pf_id f \<noteq> pf_id g"
proof -
  have m: "map pf_id fs @ [pf_id g] = seq_ids (length fs) @ [int (length fs) + 1]"
    using assms by (simp add: seq_file_ids_def)
  then show g: "pf_id g = int (length fs) + 1" by simp
  have "pf_id f \<le> int (length fs)" if "f \<in> set fs" for f
    using m that in_seq_ids [of "pf_id f" "length fs"] by (metis append1_eq_conv image_eqI set_map)
  then show "\<forall>f \<in> set fs. pf_id f \<noteq> pf_id g" using g by fastforce
qed

text \<open>
  C36. Deleting old rows makes the in-memory catalog assign an id a second time: when every file row
  so far got the next number, one row is removed for good and the newest row stays, then the next
  file that is created gets the id of that newest row, and marking the new file for deletion marks the other one.
\<close>

theorem delete_old_reuses_ids:
  assumes "reachable h (\<lambda>c. \<not> is_delete_old c) st" "parquet_files st = fs @ [g]" "\<not> is_old t g" "length (filter (is_old t) fs) = 1"
    and c: "create_parquet_file p (snd (pf_delete_old_ids_only t st)) = (Inr f, st')"
  shows "pf_id f = pf_id g \<and>
    parquet_files (snd (flag_for_delete (pf_id f) now st')) = filter (\<lambda>f. \<not> is_old t f) fs @ [g\<lparr>to_delete := Some now\<rparr>, f]"
proof -
  let ?keep = "filter (\<lambda>f. \<not> is_old t f) fs"
  have s: "seq_file_ids st" using assms(1) by (rule reachable_seq_ids)
  have k: "parquet_files (snd (pf_delete_old_ids_only t st)) = ?keep @ [g]" by (simp add: delete_old_files assms(2,3))
  have "length ?keep + 1 = length fs" using sum_length_filter_compl [of "is_old t" fs] assms(4) by simp
  then have f: "f = from_params p (int (length fs) + 1)" "parquet_files st' = ?keep @ [g, f]"
    using c k by (auto simp: create_parquet_file_def Let_def split: if_splits option.splits)
  have i: "pf_id f = pf_id g" using f(1) seq_last_id(1) [OF s assms(2)] by (simp add: from_params_def parquet_file_params.defs)
  have "modify_first (\<lambda>x. pf_id x = pf_id g) u ?keep = None" for u
    using seq_last_id(2) [OF s assms(2)] by (auto simp: modify_first_None)
  then show ?thesis using i f(2) by (simp add: flag_for_delete_def modify_first_append)
qed

section \<open>Retention\<close>

definition expired :: "timestamp \<Rightarrow> namespace list \<Rightarrow> parquet_file \<Rightarrow> bool" where
  "expired now nss f \<longleftrightarrow> to_delete f = None \<and>
     (case Option.bind (find (\<lambda>x. ns_id x = namespace_id f) nss) retention_period_ns of
        Some rp \<Rightarrow> max_time f < now - rp | None \<Rightarrow> False)"

definition no_wraparound :: "timestamp \<Rightarrow> namespace list \<Rightarrow> bool" where
  "no_wraparound now nss \<longleftrightarrow> (\<forall>n \<in> set nss. \<forall>rp. retention_period_ns n = Some rp \<longrightarrow> in_i64 (now - rp))"

lemma find_ns_wrap:
  assumes "no_wraparound now nss" "Option.bind (find P nss) retention_period_ns = Some rp"
  shows "timestamp_sub now rp = Inr (now - rp)"
proof -
  obtain n where n: "find P nss = Some n" "retention_period_ns n = Some rp" using assms(2) by (auto simp: bind_eq_Some_conv)
  then have "n \<in> set nss" by (metis find_Some_iff nth_mem)
  then show ?thesis using assms(1) n(2) by (auto simp: no_wraparound_def timestamp_sub_def)
qed

lemma expired_marked [simp]: "\<not> expired now nss (f\<lparr>to_delete := Some t\<rparr>)"
  by (simp add: expired_def)

lemma flag_loop_spec:
  assumes "no_wraparound now nss"
  shows "fst (flag_loop now nss n fs) = Inr (map pf_id (take n (filter (expired now nss) fs)))
    \<and> filter (expired now nss) (snd (flag_loop now nss n fs)) = drop n (filter (expired now nss) fs)
    \<and> list_all2 (\<lambda>f g. g = f \<or> expired now nss f \<and> g = f\<lparr>to_delete := Some now\<rparr>) fs (snd (flag_loop now nss n fs))"
proof (induction fs arbitrary: n)
  case (Cons f fs)
  consider (zero) "n = 0" | (dead) "n > 0" "to_delete f \<noteq> None"
    | (none) "n > 0" "to_delete f = None" "Option.bind (find (\<lambda>x. ns_id x = namespace_id f) nss) retention_period_ns = None"
    | (some) rp where "n > 0" "to_delete f = None" "Option.bind (find (\<lambda>x. ns_id x = namespace_id f) nss) retention_period_ns = Some rp"
    by blast
  then show ?case
  proof cases
    case zero
    then show ?thesis by (simp add: list_all2_same)
  next
    case dead
    then show ?thesis using Cons [of n] by (auto simp: expired_def split: prod.splits)
  next
    case none
    then show ?thesis using Cons [of n] by (auto simp: expired_def split: prod.splits)
  next
    case some
    note w = find_ns_wrap [OF assms some(3)]
    show ?thesis
    proof (cases "max_time f < now - rp")
      case True
      then have e: "expired now nss f" using some by (simp add: expired_def)
      obtain m where m: "n = Suc m" using some(1) by (cases n) auto
      show ?thesis using Cons [of m] some(2,3) w True e m by (auto split: prod.splits sum.splits)
    next
      case False
      then have "\<not> expired now nss f" using some by (simp add: expired_def)
      then show ?thesis using Cons [of n] some w False by (auto split: prod.splits)
    qed
  qed
qed simp

lemma expired_mono: "expired t nss f \<Longrightarrow> t \<le> u \<Longrightarrow> expired u nss f"
  by (auto simp: expired_def split: option.splits)

lemma flag_loop_count:
  assumes "no_wraparound now nss" "now \<le> u"
  shows "length (filter (expired u nss) (snd (flag_loop now nss n fs))) + min n (length (filter (expired now nss) fs)) = length (filter (expired u nss) fs)"
proof (induction fs arbitrary: n)
  case (Cons f fs)
  show ?case
  proof (cases "n > 0 \<and> expired now nss f")
    case True
    then obtain rp m where r: "to_delete f = None" "n = Suc m" "max_time f < now - rp"
      "Option.bind (find (\<lambda>x. ns_id x = namespace_id f) nss) retention_period_ns = Some rp"
      by (cases n) (auto simp: expired_def split: option.splits)
    show ?thesis using Cons [of m] r True expired_mono [OF _ assms(2), of nss f] find_ns_wrap [OF assms(1) r(4)]
      by (auto split: prod.splits sum.splits)
  next
    case False
    show ?thesis
    proof (cases "n = 0")
      case nz: False
      then have e: "\<not> expired now nss f" using False by simp
      have "snd (flag_loop now nss n (f # fs)) = f # snd (flag_loop now nss n fs)"
        using nz e find_ns_wrap [OF assms(1)] by (auto simp: expired_def split: prod.splits option.splits)
      then show ?thesis using Cons [of n] e by auto
    qed simp
  qed
qed simp

text \<open>
  The flagger of the garbage collector: one call at each of the given times, until the shutdown after the last
  of them or until a call fails.
\<close>

fun flagger :: "bool \<Rightarrow> timestamp list \<Rightarrow> mem_collections \<Rightarrow> (catalog_error + unit) \<times> mem_collections" where
  "flagger dry_run [] st = (Inr (), st)"
| "flagger dry_run (now # ts) st =
     (if dry_run then flagger dry_run ts st
      else case pf_flag_for_delete_by_retention now st of
        (Inl e, st) \<Rightarrow> (Inl e, st)
      | (Inr _, st) \<Rightarrow> flagger dry_run ts st)"

lemma retention_round:
  assumes "no_wraparound now (namespaces st)"
  defines "st' \<equiv> snd (pf_flag_for_delete_by_retention now st)"
  shows "namespaces st' = namespaces st" "parquet_files st' = snd (flag_loop now (namespaces st) max_files_for_retention (parquet_files st))"
    "flagger False (now # ts) st = flagger False ts st'"
  using flag_loop_spec [OF assms(1), of max_files_for_retention "parquet_files st"]
  by (auto simp: st'_def pf_flag_for_delete_by_retention_def split: prod.splits)

lemma none_expired_after:
  assumes "list_all2 (\<lambda>f g. g = f \<or> expired now nss f \<and> g = f\<lparr>to_delete := Some now\<rparr>) fs gs" "filter (expired t nss) fs = []"
  shows "filter (expired t nss) gs = []"
  using assms by (induction rule: list_all2_induct) (auto split: if_splits)

lemma flagger_drains:
  assumes "t0 \<le> t1" "\<forall>t \<in> set ts. t0 \<le> t \<and> t \<le> t1 \<and> no_wraparound t (namespaces st)"
    and "length (filter (expired t1 (namespaces st)) (parquet_files st)) \<le> max_files_for_retention * length ts
      \<or> filter (expired t0 (namespaces st)) (parquet_files st) = []"
  shows "filter (expired t0 (namespaces st)) (parquet_files (snd (flagger False ts st))) = []"
  using assms(2,3)
proof (induction ts arbitrary: st)
  case Nil
  then have "\<forall>f \<in> set (parquet_files st). \<not> expired t0 (namespaces st) f"
    using expired_mono [OF _ assms(1)] by (auto simp: filter_empty_conv)
  then show ?case by simp
next
  case (Cons now ts)
  let ?st = "snd (pf_flag_for_delete_by_retention now st)" and ?n = "namespaces st" and ?m = max_files_for_retention
  let ?E = "filter (expired now ?n) (parquet_files st)"
  have t: "t0 \<le> now" "now \<le> t1" "no_wraparound now ?n" using Cons.prems(1) by auto
  note r = retention_round [OF t(3)] and f = flag_loop_spec [OF t(3), of ?m "parquet_files st"]
  consider (none) "filter (expired t0 ?n) (parquet_files st) = []" | (few) "length ?E \<le> ?m"
    | (many) "length ?E > ?m" "length (filter (expired t1 ?n) (parquet_files st)) \<le> ?m * length (now # ts)"
    using Cons.prems(2) by fastforce
  then have "length (filter (expired t1 ?n) (parquet_files ?st)) \<le> ?m * length ts \<or> filter (expired t0 ?n) (parquet_files ?st) = []"
  proof cases
    case none
    then show ?thesis using none_expired_after f unfolding r by blast
  next
    case few
    then have "filter (expired now ?n) (parquet_files ?st) = []" using f unfolding r by simp
    then show ?thesis using expired_mono [OF _ t(1)] by (auto simp: filter_empty_conv)
  next
    case many
    then show ?thesis using flag_loop_count [OF t(3,2), of ?m "parquet_files st"] unfolding r by simp
  qed
  then show ?case using Cons.IH [of ?st] Cons.prems(1) r(1) unfolding r(3) by simp
qed

lemma flagger_only_expired:
  assumes "\<forall>t \<in> set ts. t \<le> t1 \<and> no_wraparound t (namespaces st)"
  shows "list_all2 (\<lambda>f g. g = f \<or> expired t1 (namespaces st) f \<and> (\<exists>t \<in> set ts. g = f\<lparr>to_delete := Some t\<rparr>))
    (parquet_files st) (parquet_files (snd (flagger False ts st)))"
  using assms
proof (induction ts arbitrary: st)
  case (Cons now ts)
  let ?st = "snd (pf_flag_for_delete_by_retention now st)" and ?n = "namespaces st"
  have t: "now \<le> t1" "no_wraparound now ?n" using Cons.prems by auto
  note r = retention_round [OF t(2)]
  have a: "list_all2 (\<lambda>f g. g = f \<or> expired now ?n f \<and> g = f\<lparr>to_delete := Some now\<rparr>) (parquet_files st) (parquet_files ?st)"
    using flag_loop_spec [OF t(2)] unfolding r by blast
  have b: "list_all2 (\<lambda>f g. g = f \<or> expired t1 ?n f \<and> (\<exists>t \<in> set ts. g = f\<lparr>to_delete := Some t\<rparr>))
      (parquet_files ?st) (parquet_files (snd (flagger False (now # ts) st)))"
    using Cons.IH [of ?st] Cons.prems r(1) unfolding r(3) by simp
  show ?case
    by (rule list_all2_trans [OF _ a b]) (use expired_mono [OF _ t(1)] in auto)
qed (simp add: list_all2_same)

lemma flagger_returns: "\<forall>t \<in> set ts. no_wraparound t (namespaces st) \<Longrightarrow> fst (flagger False ts st) = Inr ()"
proof (induction ts arbitrary: st)
  case (Cons now ts)
  then have w: "no_wraparound now (namespaces st)" by simp
  show ?case unfolding retention_round(3) [OF w]
    by (rule Cons.IH) (use Cons.prems retention_round(1) [OF w] in auto)
qed simp

text \<open>
  C28. Retention is enforced: each call of the flagger marks at most a thousand files, but after as many calls
  as the expired files need, none of which fails, no file that was expired before the first of them is left unmarked; and only
  files that are expired by the last call are marked, everything else stays as it was.
\<close>

theorem retention_enforced:
  assumes "t0 \<le> t1" "\<forall>t \<in> set ts. t0 \<le> t \<and> t \<le> t1 \<and> no_wraparound t (namespaces st)"
    and "length (filter (expired t1 (namespaces st)) (parquet_files st)) \<le> 1000 * length ts"
  shows "fst (flagger False ts st) = Inr () \<and> filter (expired t0 (namespaces st)) (parquet_files (snd (flagger False ts st))) = []
    \<and> list_all2 (\<lambda>f g. g = f \<or> expired t1 (namespaces st) f \<and> (\<exists>t \<in> set ts. g = f\<lparr>to_delete := Some t\<rparr>))
        (parquet_files st) (parquet_files (snd (flagger False ts st)))"
  using flagger_drains [OF assms(1,2)] flagger_only_expired [of ts t1 st] flagger_returns [of ts st] assms(2,3)
  by (simp add: max_files_for_retention_def)

text \<open>
  C26. Whatever calls have been made, the rows of the in-memory catalog are identified by their keys:
  namespaces by name, tables by namespace and name, columns by table and name, partitions by table and key,
  parquet files by their object store id, skipped compactions by their partition; the ids of
  namespaces, tables, columns and partitions are numbered without gaps (nothing is said of the ids of
  parquet files, which the removal of rows can make repeat), every table belongs to a namespace that
  exists and every partition carries the hash of its table and key.
\<close>

theorem catalog_keys_unique:
  assumes "reachable sha256 (\<lambda>_. True) st"
  shows "wf_catalog sha256 st"
  using assms by (rule reachable_wf)

text \<open>
  C25. The transaction with which the compactor replaces files refines the abstract catalog, in every state
  that the catalog reaches by calls other than \<open>delete_old_ids_only\<close>, the one that removes rows for good
  (after which the ids of new files may be in use already): if it succeeds, the active files are those the
  abstract commit gives, and the ids of the created files are new and distinct; if it fails, nothing
  has changed.
\<close>

theorem commit_refines_spec:
  assumes "reachable sha256 (\<lambda>c. \<not> is_delete_old c) st"
  shows "case pf_create_upgrade_delete clock del upgr create lv st of
      (Inr ids, st') \<Rightarrow> active_map st' = commit_spec del upgr create ids lv (active_map st) \<and> length ids = length create
        \<and> distinct ids \<and> set ids \<inter> pf_id ` set (parquet_files st) = {} \<and> file_ids_ok st'
    | (Inl e, st') \<Rightarrow> st' = st"
  by (rule commit_refines [OF seq_file_ids_ok [OF reachable_seq_ids [OF assms]]])

definition cat_file_ex :: "nat \<Rightarrow> parquet_file_params" where
  "cat_file_ex u = \<lparr>namespace_id = 1, table_id = 1, partition_id = Deterministic (partition_hash_id_new (\<lambda>bs. bs) 1 ''k''),
     object_store_id = u, min_time = 0, max_time = 10, file_size_bytes = 7, row_count = 1, compaction_level = Initial,
     created_at = 100, column_set = [], max_l0_created_at = 100\<rparr>"

definition cat_calls_ex :: "catalog_call list" where
  "cat_calls_ex = [NsCreate ''n'' None (Some 5) None, TblCreate ''t'' None 1, PartCreateOrGet ''k'' 1,
     PfCreate (cat_file_ex 1), PfCreate (cat_file_ex 2), PfCommit (\<lambda>_. 50) [1] [2] [cat_file_ex 3] FileNonOverlapped]"

definition cat_ex :: mem_collections where
  "cat_ex = fold (run_call (\<lambda>bs. bs)) cat_calls_ex mem_default"

lemma reachable_fold: "reachable h ok st \<Longrightarrow> list_all ok cs \<Longrightarrow> reachable h ok (fold (run_call h) cs st)"
  by (induction cs arbitrary: st) (auto intro: reachable.intros)

lemma cat_ex_reachable: "reachable (\<lambda>bs. bs) (\<lambda>c. \<not> is_delete_old c) cat_ex"
  unfolding cat_ex_def by (rule reachable_fold [OF reachable.init]) (simp add: cat_calls_ex_def)

lemma cat_ex_files: "parquet_files cat_ex =
    [(from_params (cat_file_ex 1) 1)\<lparr>to_delete := Some 50\<rparr>, (from_params (cat_file_ex 2) 2)\<lparr>compaction_level := FileNonOverlapped\<rparr>,
     from_params (cat_file_ex 3) 3]"
  "map retention_period_ns (namespaces cat_ex) = [Some 5]" "map ns_id (namespaces cat_ex) = [1]"
  by code_simp+

theorem catalog_keys_unique_witness: "wf_catalog (\<lambda>bs. bs) cat_ex \<and> length (parquet_files cat_ex) = 3"
proof -
  have "reachable (\<lambda>bs. bs) (\<lambda>_. True) cat_ex"
    unfolding cat_ex_def by (rule reachable_fold [OF reachable.init]) (simp add: cat_calls_ex_def)
  from catalog_keys_unique [OF this] show ?thesis by (simp add: cat_ex_files)
qed

theorem commit_refines_spec_witness:
  "\<exists>st'. pf_create_upgrade_delete (\<lambda>_. 60) [2] [3] [cat_file_ex 4] Final cat_ex = (Inr [4], st')
     \<and> active_map st' = commit_spec [2] [3] [cat_file_ex 4] [4] Final (active_map cat_ex)"
proof -
  have "fst (pf_create_upgrade_delete (\<lambda>_. 60) [2] [3] [cat_file_ex 4] Final cat_ex) = Inr [4]" by code_simp
  then obtain st' where s: "pf_create_upgrade_delete (\<lambda>_. 60) [2] [3] [cat_file_ex 4] Final cat_ex = (Inr [4], st')"
    by (metis prod.collapse)
  then show ?thesis using commit_refines_spec [OF cat_ex_reachable,
      where clock = "\<lambda>_. 60" and del = "[2]" and upgr = "[3]" and create = "[cat_file_ex 4]" and lv = Final] by simp
qed

theorem delete_old_reuses_ids_witness:
  "\<exists>st'. create_parquet_file (cat_file_ex 4) (snd (pf_delete_old_ids_only 60 cat_ex)) = (Inr (from_params (cat_file_ex 4) 3), st')
     \<and> parquet_files (snd (flag_for_delete 3 70 st')) = [(from_params (cat_file_ex 2) 2)\<lparr>compaction_level := FileNonOverlapped\<rparr>,
          (from_params (cat_file_ex 3) 3)\<lparr>to_delete := Some 70\<rparr>, from_params (cat_file_ex 4) 3]"
proof -
  have e: "fst (create_parquet_file (cat_file_ex 4) (snd (pf_delete_old_ids_only 60 cat_ex))) = Inr (from_params (cat_file_ex 4) 3)"
    by code_simp
  then obtain st' where s: "create_parquet_file (cat_file_ex 4) (snd (pf_delete_old_ids_only 60 cat_ex)) = (Inr (from_params (cat_file_ex 4) 3), st')"
    by (metis prod.collapse)
  let ?fs = "[(from_params (cat_file_ex 1) 1)\<lparr>to_delete := Some 50\<rparr>, (from_params (cat_file_ex 2) 2)\<lparr>compaction_level := FileNonOverlapped\<rparr>]"
  have o: "filter (\<lambda>f. \<not> is_old 60 f) ?fs = [(from_params (cat_file_ex 2) 2)\<lparr>compaction_level := FileNonOverlapped\<rparr>]"
    "length (filter (is_old 60) ?fs) = 1" "\<not> is_old 60 (from_params (cat_file_ex 3) 3)"
    "pf_id (from_params (cat_file_ex 4) 3) = 3" "parquet_files cat_ex = ?fs @ [from_params (cat_file_ex 3) 3]"
    by (simp_all add: cat_ex_files is_old_def from_params_def parquet_file_params.defs)
  show ?thesis using delete_old_reuses_ids [OF cat_ex_reachable o(5,3,2) s, where now = 70] s unfolding o(1,4) by simp
qed

theorem retention_enforced_witness:
  "filter (expired 20 (namespaces cat_ex)) (parquet_files (snd (flagger False [20, 30] cat_ex))) = []
     \<and> length (filter (expired 30 (namespaces cat_ex)) (parquet_files cat_ex)) = 2"
proof -
  obtain n where n: "namespaces cat_ex = [n]" "ns_id n = 1" "retention_period_ns n = Some 5"
    using cat_ex_files(2,3) by (cases "namespaces cat_ex") auto
  have e: "filter (expired 30 (namespaces cat_ex)) (parquet_files cat_ex)
      = [(from_params (cat_file_ex 2) 2)\<lparr>compaction_level := FileNonOverlapped\<rparr>, from_params (cat_file_ex 3) 3]"
    by (simp add: expired_def n cat_ex_files from_params_def parquet_file_params.defs cat_file_ex_def)
  then show ?thesis using retention_enforced [of 20 30 "[20, 30]" cat_ex] by (simp add: no_wraparound_def n in_i64_def i64_min_def i64_max_def)
qed

end
