(* ===== verification/Garbage_Collector.thy ===== *)
theory Garbage_Collector
  imports Catalog_Props
begin

text \<open>
  Model of the garbage collector, \<open>garbage_collector/src\<close>: the lister, the checker and the deleter of objects,
  which communicate through channels, and the task that removes old rows. Printing and parsing of
  object store ids are parameters. The invariant over all interleavings is that the object of
  every row of the catalog is in the store.
\<close>

section \<open>Paths of parquet files\<close>

definition digit :: "nat \<Rightarrow> char" where
  "digit d = ''0123456789abcdef'' ! d"

fun show_nat :: "nat \<Rightarrow> string" where
  "show_nat n = (if n < 10 then [digit n] else show_nat (n div 10) @ [digit (n mod 10)])"

declare show_nat.simps [simp del]

definition show_int :: "int \<Rightarrow> string" where
  "show_int i = (if i < 0 then ''-'' @ show_nat (nat (- i)) else show_nat (nat i))"

definition show_partition_id :: "transition_partition_id \<Rightarrow> string" where
  "show_partition_id p = (case p of
       Deprecated i \<Rightarrow> show_int i
     | Deterministic h \<Rightarrow> concat (map (\<lambda>b. [digit (nat b div 16), digit (nat b mod 16)]) h))"

text \<open>The parts of the path; how an object store id is printed is a parameter.\<close>

definition object_store_path :: "(uuid \<Rightarrow> string) \<Rightarrow> 'a parquet_file_params_scheme \<Rightarrow> string list" where
  "object_store_path show_uuid f =
     [show_int (namespace_id f), show_int (table_id f), show_partition_id (partition_id f),
      show_uuid (object_store_id f) @ ''.parquet'']"

section \<open>The checker\<close>

record object_meta =
  location :: "string list"
  last_modified :: timestamp

definition strip_suffix :: "string \<Rightarrow> string \<Rightarrow> string option" where
  "strip_suffix suf s = (if length suf \<le> length s \<and> drop (length s - length suf) s = suf
     then Some (take (length s - length suf) s) else None)"

definition catalog_batch_size :: nat where
  "catalog_batch_size = 100"

text \<open>The first loop: what can be deleted at once, and what has to be looked up in the catalog.\<close>

fun sort_candidates :: "(string \<Rightarrow> uuid option) \<Rightarrow> timestamp \<Rightarrow> object_meta list \<Rightarrow> object_meta list \<Rightarrow> (uuid \<times> object_meta) list
    \<Rightarrow> object_meta list \<times> (uuid \<times> object_meta) list" where
  "sort_candidates parse_uuid cutoff [] del chk = (del, chk)"
| "sort_candidates parse_uuid cutoff (c # cs) del chk =
     (if cutoff < last_modified c then sort_candidates parse_uuid cutoff cs del chk
      else if location c = [] then sort_candidates parse_uuid cutoff cs del chk
      else case strip_suffix ''.parquet'' (last (location c)) of
        Some u \<Rightarrow>
          (case parse_uuid u of
             Some i \<Rightarrow> sort_candidates parse_uuid cutoff cs del (chk @ [(i, c)])
           | None \<Rightarrow> sort_candidates parse_uuid cutoff cs (del @ [c]) chk)
      | None \<Rightarrow> sort_candidates parse_uuid cutoff cs (del @ [c]) chk)"

function chunks_of :: "nat \<Rightarrow> 'a list \<Rightarrow> 'a list list" where
  "chunks_of n xs = (if xs = [] \<or> n = 0 then [] else take n xs # chunks_of n (drop n xs))"
  by pat_completeness auto
termination by (relation "measure (\<lambda>(n, xs). length xs)") auto

declare chunks_of.simps [simp del]

definition check_ids_exists_in_catalog :: "uuid list \<Rightarrow> mem_collections \<Rightarrow> catalog_error + uuid list" where
  "check_ids_exists_in_catalog us st = fst (pf_exists_by_object_store_id_batch us st)"

definition should_delete :: "(string \<Rightarrow> uuid option) \<Rightarrow> object_meta list \<Rightarrow> timestamp \<Rightarrow> mem_collections \<Rightarrow> object_meta list" where
  "should_delete parse_uuid items cutoff st =
     (let (to_delete, to_check) = sort_candidates parse_uuid cutoff items [] [];
          do_not_delete = concat (map (\<lambda>b. case check_ids_exists_in_catalog (map fst b) st of
             Inr present \<Rightarrow> present | Inl _ \<Rightarrow> map fst b) (chunks_of catalog_batch_size to_check))
      in to_delete @ map snd (filter (\<lambda>c. fst c \<notin> set do_not_delete) to_check))"

text \<open>One turn of the checker: an item arrives, the receive times out, or the channel is closed.\<close>

datatype received = Item object_meta | Timeout | Closed

datatype checker_error = ChannelClosed

definition perform_inner :: "(string \<Rightarrow> uuid option) \<Rightarrow> timestamp \<Rightarrow> mem_collections \<Rightarrow> object_meta list \<Rightarrow> received
    \<Rightarrow> checker_error + object_meta list \<times> object_meta list" where
  "perform_inner parse_uuid older_than st batch ev =
     (case ev of
        Closed \<Rightarrow> Inl ChannelClosed
      | _ \<Rightarrow>
          let batch = (case ev of Item m \<Rightarrow> batch @ [m] | _ \<Rightarrow> batch)
          in if length batch \<ge> catalog_batch_size \<or> ev = Timeout
             then Inr (should_delete parse_uuid batch older_than st, [])
             else Inr ([], batch))"

text \<open>The lister passes on the entries of a listing up to the first malformed one.\<close>

fun process_item_list :: "('e + object_meta) list \<Rightarrow> object_meta list \<times> ('e + nat)" where
  "process_item_list [] = ([], Inr 0)"
| "process_item_list (Inl e # items) = ([], Inl e)"
| "process_item_list (Inr m # items) =
     (let (sent, r) = process_item_list items in (m # sent, map_sum id Suc r))"

lemma sort_candidates_eq:
  "sort_candidates parse cutoff cs del chk =
     (del @ filter (\<lambda>c. last_modified c \<le> cutoff \<and> location c \<noteq> [] \<and> Option.bind (strip_suffix ''.parquet'' (last (location c))) parse = None) cs,
      chk @ List.map_filter (\<lambda>c. if last_modified c \<le> cutoff \<and> location c \<noteq> []
        then map_option (\<lambda>i. (i, c)) (Option.bind (strip_suffix ''.parquet'' (last (location c))) parse) else None) cs)"
  by (induction cs arbitrary: del chk) (auto simp: map_filter_simps split: option.splits)

lemma set_concat_chunks: "n \<noteq> 0 \<Longrightarrow> concat (chunks_of n xs) = xs"
  by (induction n xs rule: chunks_of.induct) (subst chunks_of.simps, auto)

text \<open>What \<open>should_delete\<close> returns: old objects that are not a parquet file of the catalog.\<close>

lemma should_delete_iff:
  "m \<in> set (should_delete parse items cutoff st) \<longleftrightarrow>
     m \<in> set items \<and> last_modified m \<le> cutoff \<and> location m \<noteq> []
     \<and> (\<forall>u. Option.bind (strip_suffix ''.parquet'' (last (location m))) parse = Some u \<longrightarrow> u \<notin> object_store_id ` set (parquet_files st))"
proof -
  let ?p = "\<lambda>c. Option.bind (strip_suffix ''.parquet'' (last (location c))) parse"
  let ?chk = "List.map_filter (\<lambda>c. if last_modified c \<le> cutoff \<and> location c \<noteq> [] then map_option (\<lambda>i. (i, c)) (?p c) else None) items"
  let ?keep = "concat (map (\<lambda>b. case check_ids_exists_in_catalog (map fst b) st of
      Inr present \<Rightarrow> present | Inl _ \<Rightarrow> map fst b) (chunks_of catalog_batch_size ?chk))"
  have "set ?keep = (\<Union>b \<in> set (chunks_of catalog_batch_size ?chk). object_store_id ` set (parquet_files st) \<inter> fst ` set b)"
    by (auto simp: check_ids_exists_in_catalog_def pf_exists_by_object_store_id_batch_def)
  also have "\<dots> = object_store_id ` set (parquet_files st) \<inter> fst ` set (concat (chunks_of catalog_batch_size ?chk))" by auto
  finally have k: "set ?keep = object_store_id ` set (parquet_files st) \<inter> fst ` set ?chk"
    by (simp add: set_concat_chunks catalog_batch_size_def)
  have c: "(u, m) \<in> set ?chk \<longleftrightarrow> m \<in> set items \<and> last_modified m \<le> cutoff \<and> location m \<noteq> [] \<and> ?p m = Some u" for u m
    by (induction items) (auto simp: map_filter_simps split: option.splits if_splits)
  have "m \<in> set (should_delete parse items cutoff st) \<longleftrightarrow>
      m \<in> set items \<and> last_modified m \<le> cutoff \<and> location m \<noteq> [] \<and> ?p m = None \<or> (\<exists>u. (u, m) \<in> set ?chk \<and> u \<notin> set ?keep)"
    by (auto simp: should_delete_def sort_candidates_eq Let_def image_iff Bex_def)
  then show ?thesis using c unfolding k by (cases "?p m") (auto simp: image_iff, force+)
qed

text \<open>
  The task that removes old rows from the catalog, with the times at which it wakes up; it ends at the shutdown
  after the last of them or when a call fails. An object of a row it removes becomes garbage.
\<close>

fun parquetfile_deleter :: "timestamp \<Rightarrow> timestamp list \<Rightarrow> mem_collections \<Rightarrow> (catalog_error + unit) \<times> mem_collections" where
  "parquetfile_deleter cutoff [] st = (Inr (), st)"
| "parquetfile_deleter cutoff (now # ts) st =
     (case pf_delete_old_ids_only (now - cutoff) st of
        (Inl e, st) \<Rightarrow> (Inl e, st)
      | (Inr _, st) \<Rightarrow> parquetfile_deleter cutoff ts st)"

lemma parquetfile_deleter_files:
  "parquet_files (snd (parquetfile_deleter cutoff ts st)) =
     filter (\<lambda>f. \<forall>now \<in> set ts. \<not> is_old (now - cutoff) f) (parquet_files st)"
proof (induction ts arbitrary: st)
  case (Cons now ts)
  have "pf_delete_old_ids_only (now - cutoff) st = (Inr u, st') \<Longrightarrow>
      parquet_files st' = filter (\<lambda>f. \<not> is_old (now - cutoff) f) (parquet_files st)" for u st'
    using delete_old_files [of "now - cutoff" st] by simp
  then show ?case using Cons by (auto simp: pf_delete_old_ids_only_def conj_commute cong: conj_cong)
qed simp

section \<open>The tasks of the collector beside the rest of the system\<close>

text \<open>
  The object store maps paths to the time of their last modification. The lister, the checker and the
  deleter communicate through two channels; the other components upload objects, use the catalog and
  let time pass.
\<close>

record gc_state =
  gc_store :: "string list \<rightharpoonup> timestamp"
  gc_catalog :: mem_collections
  gc_clock :: timestamp
  gc_listed :: "object_meta list"
  gc_to_check :: "object_meta list"
  gc_batch :: "object_meta list"
  gc_to_delete :: "object_meta list"

definition in_flight :: "gc_state \<Rightarrow> object_meta set" where
  "in_flight s = set (gc_listed s) \<union> set (gc_to_check s) \<union> set (gc_batch s) \<union> set (gc_to_delete s)"

fun created_files :: "catalog_call \<Rightarrow> parquet_file_params list" where
  "created_files (PfCreate p) = [p]"
| "created_files (PfCommit clock del upgr create lv) = create"
| "created_files _ = []"

definition os_delete :: "bool \<Rightarrow> object_meta \<Rightarrow> (string list \<rightharpoonup> timestamp) \<Rightarrow> (string list \<rightharpoonup> timestamp)" where
  "os_delete dry_run m store = (if dry_run then store else store(location m := None))"

inductive gc_step :: "(uuid \<Rightarrow> string) \<Rightarrow> (string \<Rightarrow> uuid option) \<Rightarrow> (int list \<Rightarrow> int list) \<Rightarrow> timestamp \<Rightarrow> bool \<Rightarrow> gc_state \<Rightarrow> gc_state \<Rightarrow> bool"
  for show_uuid parse_uuid sha256 cutoff dry_run where
  tick: "gc_clock s \<le> t \<Longrightarrow> gc_step show_uuid parse_uuid sha256 cutoff dry_run s (s\<lparr>gc_clock := t\<rparr>)"
| upload: "gc_store s p = None \<Longrightarrow> \<forall>m \<in> in_flight s. location m \<noteq> p \<Longrightarrow>
    gc_step show_uuid parse_uuid sha256 cutoff dry_run s (s\<lparr>gc_store := (gc_store s)(p \<mapsto> gc_clock s)\<rparr>)"
| catalog: "\<forall>p \<in> set (created_files c). \<exists>t. gc_store s (object_store_path show_uuid p) = Some t \<and> gc_clock s - cutoff < t \<Longrightarrow>
    gc_step show_uuid parse_uuid sha256 cutoff dry_run s (s\<lparr>gc_catalog := run_call sha256 c (gc_catalog s)\<rparr>)"
| list_items: "gc_listed s = [] \<Longrightarrow> \<forall>m. Inr m \<in> set items \<longrightarrow> gc_store s (location m) = Some (last_modified m) \<Longrightarrow>
    gc_step show_uuid parse_uuid sha256 cutoff dry_run s (s\<lparr>gc_listed := fst (process_item_list (items :: (string + object_meta) list))\<rparr>)"
| send: "gc_listed s = m # ms \<Longrightarrow>
    gc_step show_uuid parse_uuid sha256 cutoff dry_run s (s\<lparr>gc_listed := ms, gc_to_check := gc_to_check s @ [m]\<rparr>)"
| receive: "gc_to_check s = m # ms \<Longrightarrow>
    perform_inner parse_uuid (gc_clock s - cutoff) (gc_catalog s) (gc_batch s) (Item m) = Inr (out, b) \<Longrightarrow>
    gc_step show_uuid parse_uuid sha256 cutoff dry_run s
      (s\<lparr>gc_to_check := ms, gc_batch := b, gc_to_delete := gc_to_delete s @ out\<rparr>)"
| timeout: "perform_inner parse_uuid (gc_clock s - cutoff) (gc_catalog s) (gc_batch s) Timeout = Inr (out, b) \<Longrightarrow>
    gc_step show_uuid parse_uuid sha256 cutoff dry_run s (s\<lparr>gc_batch := b, gc_to_delete := gc_to_delete s @ out\<rparr>)"
| delete: "gc_to_delete s = m # ms \<Longrightarrow>
    gc_step show_uuid parse_uuid sha256 cutoff dry_run s (s\<lparr>gc_store := os_delete dry_run m (gc_store s), gc_to_delete := ms\<rparr>)"

inductive gc_reachable :: "(uuid \<Rightarrow> string) \<Rightarrow> (string \<Rightarrow> uuid option) \<Rightarrow> (int list \<Rightarrow> int list) \<Rightarrow> timestamp \<Rightarrow> bool \<Rightarrow> gc_state \<Rightarrow> bool"
  for show_uuid parse_uuid sha256 cutoff dry_run where
  gc_init: "gc_reachable show_uuid parse_uuid sha256 cutoff dry_run
     \<lparr>gc_store = store, gc_catalog = mem_default, gc_clock = t, gc_listed = [], gc_to_check = [], gc_batch = [], gc_to_delete = []\<rparr>"
| gc_next: "gc_reachable show_uuid parse_uuid sha256 cutoff dry_run s \<Longrightarrow> gc_step show_uuid parse_uuid sha256 cutoff dry_run s s' \<Longrightarrow>
     gc_reachable show_uuid parse_uuid sha256 cutoff dry_run s'"

definition referenced :: "(uuid \<Rightarrow> string) \<Rightarrow> mem_collections \<Rightarrow> string list set" where
  "referenced show_uuid st = object_store_path show_uuid ` set (parquet_files st)"

text \<open>
  The invariant: what the catalog refers to is stored; what is in flight has the modification time of the
  store; what will be deleted is old and not referred to.
\<close>

definition gc_inv :: "(uuid \<Rightarrow> string) \<Rightarrow> timestamp \<Rightarrow> gc_state \<Rightarrow> bool" where
  "gc_inv show_uuid cutoff s \<longleftrightarrow>
     referenced show_uuid (gc_catalog s) \<subseteq> dom (gc_store s)
   \<and> (\<forall>m \<in> in_flight s. \<forall>t. gc_store s (location m) = Some t \<longrightarrow> t = last_modified m)
   \<and> (\<forall>m \<in> set (gc_to_delete s). last_modified m \<le> gc_clock s - cutoff \<and> location m \<notin> referenced show_uuid (gc_catalog s))"

lemma process_item_list_sent: "m \<in> set (fst (process_item_list items)) \<Longrightarrow> Inr m \<in> set items"
  by (induction items rule: process_item_list.induct) (auto simp: case_prod_beta)

lemma path_object_id:
  assumes "\<And>u. parse_uuid (show_uuid u) = Some u" "location m = object_store_path show_uuid f"
  shows "Option.bind (strip_suffix ''.parquet'' (last (location m))) parse_uuid = Some (object_store_id f)"
proof -
  have "strip_suffix s (xs @ s) = Some xs" for s xs :: string by (simp add: strip_suffix_def)
  then show ?thesis using assms by (simp add: object_store_path_def)
qed

lemma should_delete_unreferenced:
  assumes "\<And>u. parse_uuid (show_uuid u) = Some u" "m \<in> set (should_delete parse_uuid items cutoff st)"
  shows "m \<in> set items \<and> last_modified m \<le> cutoff \<and> location m \<notin> referenced show_uuid st"
  using assms(2) path_object_id [OF assms(1)] unfolding should_delete_iff referenced_def by blast

lemma perform_inner_sends:
  assumes "\<And>u. parse_uuid (show_uuid u) = Some u" "perform_inner parse_uuid older_than st batch ev = Inr (out, b)"
  shows "set b \<subseteq> set batch \<union> {m. ev = Item m} \<and> (\<forall>m \<in> set out. (m \<in> set batch \<or> ev = Item m) \<and> last_modified m \<le> older_than \<and> location m \<notin> referenced show_uuid st)"
  using assms(2) should_delete_unreferenced [where show_uuid = show_uuid, OF assms(1)]
  by (auto simp: perform_inner_def Let_def split: received.splits if_splits) (fastforce+)

lemma path_updates [simp]:
  "object_store_path sh (f\<lparr>to_delete := x\<rparr>) = object_store_path sh f"
  "object_store_path sh (f\<lparr>compaction_level := lv\<rparr>) = object_store_path sh f"
  "object_store_path sh (from_params p i) = object_store_path sh p"
  by (simp_all add: object_store_path_def from_params_def parquet_file_params.defs)

lemma referenced_eq: "map (object_store_path sh) (parquet_files st') = map (object_store_path sh) (parquet_files st) \<Longrightarrow> referenced sh st' = referenced sh st"
  unfolding referenced_def by (metis set_map)

lemma referenced_flag: "referenced sh (snd (flag_for_delete i now st)) = referenced sh st"
proof -
  have "map (object_store_path sh) fs = map (object_store_path sh) (parquet_files st)"
    if "modify_first P (\<lambda>f. f\<lparr>to_delete := x\<rparr>) (parquet_files st) = Some (y, fs)" for P x y fs
    by (rule modify_first_map [OF that]) simp
  then show ?thesis by (intro referenced_eq) (auto simp: flag_for_delete_def split: option.split)
qed

lemma referenced_flag_all: "referenced sh (snd (flag_all ids nows st)) = referenced sh st"
proof (induction ids nows st rule: flag_all.induct)
  case (1 i ids now nows st)
  obtain r st1 where r: "flag_for_delete i now st = (r, st1)" by force
  then show ?case using 1 [OF r [symmetric]] referenced_flag [of sh i now st] by (cases r) auto
qed simp_all

lemma referenced_create: "referenced sh (snd (create_parquet_file p st)) \<subseteq> insert (object_store_path sh p) (referenced sh st)"
  by (auto simp: create_parquet_file_def Let_def referenced_def split: option.split)

lemma referenced_create_all: "referenced sh (snd (create_all ps st)) \<subseteq> object_store_path sh ` set ps \<union> referenced sh st"
proof (induction ps st rule: create_all.induct)
  case (2 p ps st)
  obtain r st1 where r: "create_parquet_file p st = (r, st1)" by force
  have "referenced sh st1 \<subseteq> insert (object_store_path sh p) (referenced sh st)" using referenced_create [of sh p st] r by simp
  then show ?case using 2 [OF r [symmetric]] r by (cases r) (auto split: prod.splits sum.splits)
qed simp

lemma referenced_commit:
  "referenced sh (snd (pf_create_upgrade_delete clock del upgr create lv st)) \<subseteq> object_store_path sh ` set create \<union> referenced sh st"
proof -
  obtain r1 st1 where f: "flag_all del (map clock [0..<length del]) st = (r1, st1)" by force
  have "referenced sh st1 = referenced sh st" using referenced_flag_all [of sh del _ st] f by (metis snd_conv)
  moreover have "referenced sh (snd (update_compaction_level upgr lv st1)) = referenced sh st1"
    by (rule referenced_eq) (auto simp: update_compaction_level_def)
  ultimately have "referenced sh (snd (update_compaction_level upgr lv st1)) = referenced sh st" by simp
  then show ?thesis using referenced_create_all [of sh create "snd (update_compaction_level upgr lv st1)"] f
    by (auto simp: pf_create_upgrade_delete_def update_compaction_level_def split: prod.splits sum.splits)
qed

lemma referenced_run_call: "referenced sh (run_call h c st) \<subseteq> object_store_path sh ` set (created_files c) \<union> referenced sh st"
proof (cases c)
  case (PfCreate p)
  then show ?thesis using referenced_create [of sh p st] by (auto simp: pf_create_def)
next
  case (PfFlagByRetention now)
  have "map (object_store_path sh) (snd (flag_loop now (namespaces st) max_files_for_retention (parquet_files st))) = map (object_store_path sh) (parquet_files st)"
    by (rule flag_loop_keys) simp
  then show ?thesis using PfFlagByRetention referenced_eq [of sh "snd (pf_flag_for_delete_by_retention now st)" st]
    by (auto simp: pf_flag_for_delete_by_retention_def split: prod.splits)
next
  case (PfDeleteOld t)
  then show ?thesis by (auto simp: pf_delete_old_ids_only_def referenced_def)
next
  case (PfCommit clock del upgr create lv)
  then show ?thesis using referenced_commit by simp
qed (simp_all add: referenced_def files_frame files_tbl_create files_col_create_or_get files_col_create_many)

lemma gc_inv_step:
  assumes "\<And>u. parse_uuid (show_uuid u) = Some u" "gc_step show_uuid parse_uuid sha256 cutoff dry_run s s'" "gc_inv show_uuid cutoff s"
  shows "gc_inv show_uuid cutoff s'"
  using assms(2)
proof cases
  case (tick t)
  then show ?thesis using assms(3) by (auto simp: gc_inv_def in_flight_def)
next
  case (upload p)
  then show ?thesis using assms(3) by (auto simp: gc_inv_def in_flight_def)
next
  case (catalog c)
  note r = referenced_run_call [of show_uuid sha256 c "gc_catalog s"] and inv = assms(3) [unfolded gc_inv_def]
  have d: "object_store_path show_uuid p \<in> dom (gc_store s)" if "p \<in> set (created_files c)" for p
    using catalog(2) that by blast
  have "location m \<noteq> object_store_path show_uuid p" if m: "m \<in> set (gc_to_delete s)" and p: "p \<in> set (created_files c)" for p m
  proof
    assume l: "location m = object_store_path show_uuid p"
    obtain t where t: "gc_store s (location m) = Some t" "gc_clock s - cutoff < t" using catalog(2) p l by auto
    then have "t = last_modified m" using inv m by (auto simp: in_flight_def)
    then show False using inv m t(2) by fastforce
  qed
  then show ?thesis using r inv d unfolding catalog(1) gc_inv_def in_flight_def by (simp, blast)
next
  case (list_items items)
  have "gc_store s (location m) = Some (last_modified m)" if "m \<in> set (gc_listed s')" for m
    using list_items(1,3) process_item_list_sent [of m items] that by simp
  then show ?thesis using assms(3) unfolding list_items(1) gc_inv_def in_flight_def by auto
next
  case (send m ms)
  then show ?thesis using assms(3) by (auto simp: gc_inv_def in_flight_def)
next
  case (receive m ms out b)
  have f: "in_flight s' \<subseteq> in_flight s"
    using perform_inner_sends [OF assms(1) receive(3)] receive by (auto simp: in_flight_def)
  show ?thesis using assms(3) f perform_inner_sends [OF assms(1) receive(3)] unfolding receive(1) gc_inv_def by (simp, blast)
next
  case (timeout out b)
  have f: "in_flight s' \<subseteq> in_flight s"
    using perform_inner_sends [OF assms(1) timeout(2)] timeout by (auto simp: in_flight_def)
  show ?thesis using assms(3) f perform_inner_sends [OF assms(1) timeout(2)] unfolding timeout(1) gc_inv_def by (simp, blast)
next
  case (delete m ms)
  then show ?thesis using assms(3) by (auto simp: gc_inv_def in_flight_def os_delete_def)
qed

lemma gc_reachable_inv:
  assumes "\<And>u. parse_uuid (show_uuid u) = Some u" "gc_reachable show_uuid parse_uuid sha256 cutoff dry_run s"
  shows "gc_inv show_uuid cutoff s"
  using assms(2)
proof induction
  case (gc_init store t)
  then show ?case by (simp add: gc_inv_def in_flight_def referenced_def mem_default_def)
next
  case (gc_next s s')
  then show ?case using gc_inv_step [OF assms(1)] by blast
qed

text \<open>
  C27. The garbage collector never deletes an object the catalog refers to: in every interleaving of the lister,
  the checker and the deleter with uploads, catalog calls and the passing of time, every parquet file row
  of the catalog has its object in the store, provided that objects are registered in the catalog before
  they are older than the cutoff. What waits to be deleted is older than the cutoff and not referred to.
\<close>

theorem gc_keeps_referenced:
  assumes "\<And>u. parse_uuid (show_uuid u) = Some u" "gc_reachable show_uuid parse_uuid sha256 cutoff dry_run s"
  shows "referenced show_uuid (gc_catalog s) \<subseteq> dom (gc_store s)
    \<and> (\<forall>m \<in> set (gc_to_delete s). last_modified m \<le> gc_clock s - cutoff \<and> location m \<notin> referenced show_uuid (gc_catalog s))"
  using gc_reachable_inv [OF assms] by (simp add: gc_inv_def)

definition show_uuid_ex :: "uuid \<Rightarrow> string" where "show_uuid_ex u = replicate u (CHR ''a'')"
definition parse_uuid_ex :: "string \<Rightarrow> uuid option" where "parse_uuid_ex s = (if list_all (\<lambda>c. c = CHR ''a'') s then Some (length s) else None)"

lemma parse_show_ex: "parse_uuid_ex (show_uuid_ex u) = Some u"
  by (simp add: parse_uuid_ex_def show_uuid_ex_def list_all_iff)

definition path_ex :: "string list" where "path_ex = object_store_path show_uuid_ex (cat_file_ex 1)"
definition orphan_ex :: object_meta where "orphan_ex = \<lparr>location = [''old'', ''aa.parquet''], last_modified = 0\<rparr>"
definition stored_ex :: object_meta where "stored_ex = \<lparr>location = path_ex, last_modified = 20\<rparr>"
definition gc_cat_ex :: mem_collections where
  "gc_cat_ex = run_call (\<lambda>bs. bs) (PfCreate (cat_file_ex 1)) (run_call (\<lambda>bs. bs) (PartCreateOrGet ''k'' 1) mem_default)"
definition gc_ex :: "mem_collections \<Rightarrow> object_meta list \<Rightarrow> object_meta list \<Rightarrow> object_meta list \<Rightarrow> object_meta list \<Rightarrow> gc_state" where
  "gc_ex cat listed chk bat del = \<lparr>gc_store = [[''old'', ''aa.parquet''] \<mapsto> 0, path_ex \<mapsto> 20], gc_catalog = cat, gc_clock = 20,
     gc_listed = listed, gc_to_check = chk, gc_batch = bat, gc_to_delete = del\<rparr>"

lemma path_ex_neq: "path_ex \<noteq> [''old'', ''aa.parquet'']"
  by (simp add: path_ex_def object_store_path_def)

lemma gc_ex_check: "should_delete parse_uuid_ex [orphan_ex, stored_ex] 10 gc_cat_ex = [orphan_ex]"
  by code_simp

lemma gc_ex_run:
  "gc_reachable show_uuid_ex parse_uuid_ex (\<lambda>bs. bs) 10 False (gc_ex gc_cat_ex [] [] [] [orphan_ex])"
proof -
  let ?R = "gc_reachable show_uuid_ex parse_uuid_ex (\<lambda>bs. bs) 10 False"
  let ?s0 = "\<lparr>gc_store = [[''old'', ''aa.parquet''] \<mapsto> 0], gc_catalog = mem_default, gc_clock = 0, gc_listed = [], gc_to_check = [], gc_batch = [], gc_to_delete = []\<rparr>"
  let ?c1 = "run_call (\<lambda>bs. bs) (PartCreateOrGet ''k'' 1) mem_default"
  have "?R (?s0\<lparr>gc_clock := 20\<rparr>)" by (rule gc_next [OF gc_init tick]) simp
  from gc_next [OF this upload [of _ path_ex]] have "?R (gc_ex mem_default [] [] [] [])"
    using path_ex_neq by (simp add: gc_ex_def in_flight_def)
  from gc_next [OF this catalog [of "PartCreateOrGet ''k'' 1"]] have "?R (gc_ex ?c1 [] [] [] [])" by (simp add: gc_ex_def)
  from gc_next [OF this catalog [of "PfCreate (cat_file_ex 1)"]] have "?R (gc_ex gc_cat_ex [] [] [] [])"
    by (simp add: gc_ex_def gc_cat_ex_def path_ex_def)
  from gc_next [OF this list_items [of _ "[Inr orphan_ex, Inr stored_ex]"]] have "?R (gc_ex gc_cat_ex [orphan_ex, stored_ex] [] [] [])"
    using path_ex_neq by (simp add: gc_ex_def orphan_ex_def stored_ex_def)
  from gc_next [OF this send] have "?R (gc_ex gc_cat_ex [stored_ex] [orphan_ex] [] [])" by (simp add: gc_ex_def)
  from gc_next [OF this send] have "?R (gc_ex gc_cat_ex [] [orphan_ex, stored_ex] [] [])" by (simp add: gc_ex_def)
  from gc_next [OF this receive [where out = "[]" and b = "[orphan_ex]"]] have "?R (gc_ex gc_cat_ex [] [stored_ex] [orphan_ex] [])"
    by (simp add: gc_ex_def perform_inner_def catalog_batch_size_def)
  from gc_next [OF this receive [where out = "[]" and b = "[orphan_ex, stored_ex]"]] have "?R (gc_ex gc_cat_ex [] [] [orphan_ex, stored_ex] [])"
    by (simp add: gc_ex_def perform_inner_def catalog_batch_size_def)
  from gc_next [OF this timeout [where out = "[orphan_ex]" and b = "[]"]] show ?thesis
    by (simp add: gc_ex_def perform_inner_def gc_ex_check)
qed

theorem gc_keeps_referenced_witness:
  "path_ex \<in> dom (gc_store (gc_ex gc_cat_ex [] [] [] [orphan_ex])) \<and> location orphan_ex \<notin> referenced show_uuid_ex gc_cat_ex
   \<and> path_ex \<in> referenced show_uuid_ex gc_cat_ex"
proof -
  have "path_ex \<in> referenced show_uuid_ex gc_cat_ex"
    by (simp add: referenced_def path_ex_def gc_cat_ex_def pf_create_def create_parquet_file_def Let_def mem_default_def
        part_create_or_get_def new_in_memory_only_def part_transition_id_def)
  then show ?thesis using gc_keeps_referenced [OF parse_show_ex gc_ex_run] by (auto simp: gc_ex_def)
qed

end
