(* ===== verification/Tsm_Bytes.thy ===== *)
theory Tsm_Bytes
  imports Prelude "HOL-Library.Word"
begin

text \<open>
  Bytes and 64-bit words of the TSM encoders (\<open>influxdb_tsm/src/encoders\<close>): \<open>u8\<close> and \<open>u64\<close> are words of
  their width, \<open>i64\<close> is the same word read with \<open>sint\<close>, so that the casts between the two are the
  identity; \<open>to_be_bytes\<close> and \<open>from_be_bytes\<close> are those of the standard library.
\<close>

unbundle bit_operations_syntax

section \<open>Words and bytes\<close>

type_synonym u8 = "8 word"
type_synonym u64 = "64 word"

definition to_be_bytes :: "u64 \<Rightarrow> u8 list" where
  "to_be_bytes w = map (\<lambda>k. ucast (drop_bit (8 * k) w)) (rev [0..<8])"

definition from_be_bytes :: "u8 list \<Rightarrow> u64" where
  "from_be_bytes bs = fold (\<lambda>b a. push_bit 8 a OR ucast b) bs 0"

lemma length_to_be_bytes [simp]: "length (to_be_bytes w) = 8"
  by (simp add: to_be_bytes_def)

lemma to_be_bytes_not_Nil [simp]: "to_be_bytes w \<noteq> []"
  by (simp add: to_be_bytes_def)

lemma to_be_bytes_unfold:
  "to_be_bytes w = [ucast (drop_bit 56 w), ucast (drop_bit 48 w), ucast (drop_bit 40 w), ucast (drop_bit 32 w),
    ucast (drop_bit 24 w), ucast (drop_bit 16 w), ucast (drop_bit 8 w), ucast w]"
  by (simp add: to_be_bytes_def upt_rec)

lemma bit_from_be_bytes:
  "bit (from_be_bytes bs) n \<longleftrightarrow>
     n < 64 \<and> n < 8 * length bs \<and> bit (bs ! (length bs - 1 - n div 8)) (n mod 8)"
proof (induction bs arbitrary: n rule: rev_induct)
  case (snoc b bs)
  have *: "from_be_bytes (bs @ [b]) = push_bit 8 (from_be_bytes bs) OR ucast b"
    by (simp add: from_be_bytes_def)
  show ?case
  proof (cases "n < 8")
    case True
    then show ?thesis by (simp add: * bit_simps)
  next
    case False
    then have "\<not> bit b n" by (auto dest: bit_imp_le_length)
    moreover have "n div 8 = Suc ((n - 8) div 8)" "(n - 8) mod 8 = n mod 8"
      using False by (simp_all add: le_div_geq mod_if [of n 8])
    moreover have "length bs - Suc ((n - 8) div 8) < length bs" if "n - 8 < 8 * length bs"
      using that by (cases bs) auto
    ultimately show ?thesis
      using False by (auto simp: * bit_simps snoc.IH nth_append; linarith)
  qed
qed (simp add: from_be_bytes_def)

lemma nth_to_be_bytes: "k < 8 \<Longrightarrow> to_be_bytes w ! k = ucast (drop_bit (8 * (7 - k)) w)"
  by (simp add: to_be_bytes_def rev_nth)

lemma from_to_be_bytes [simp]: "from_be_bytes (to_be_bytes w) = w"
proof (rule bit_word_eqI)
  fix n assume n: "n < LENGTH(64)"
  then have "n div 8 \<le> 7" "8 * (n div 8) + n mod 8 = n" by simp_all
  with n show "bit (from_be_bytes (to_be_bytes w)) n = bit w n"
    by (auto simp: bit_from_be_bytes nth_to_be_bytes bit_simps)
qed

section \<open>Bits, most significant first\<close>

definition msb_bits :: "nat \<Rightarrow> 'a::len word \<Rightarrow> bool list" where
  "msb_bits n w = map (bit w) (rev [0..<n])"

lemma length_msb_bits [simp]: "length (msb_bits n w) = n"
  by (simp add: msb_bits_def)

lemma nth_msb_bits [simp]: "k < n \<Longrightarrow> msb_bits n w ! k = bit w (n - 1 - k)"
  by (simp add: msb_bits_def rev_nth)

end
