(* ===== verification/Tsm_Simple8b.thy ===== *)
theory Tsm_Simple8b
  imports Tsm_Bytes
begin

text \<open>
  \<open>influxdb_tsm/src/encoders/simple8b.rs\<close>. The model follows the loops of \<open>encode\<close> and \<open>decode\<close> and the
  table \<open>NUM_BITS\<close>; a row of the table and the arm of \<open>decode_value\<close> with the same selector are shown to
  be inverse to each other by packing bit by bit.
\<close>

section \<open>Encoding\<close>

definition max_value :: u64 where
  "max_value = push_bit 60 1 - 1"

definition num_bits :: "(nat \<times> nat) list" where
  "num_bits = [(60, 1), (30, 2), (20, 3), (15, 4), (12, 5), (10, 6), (8, 7), (7, 8), (6, 10), (5, 12),
     (4, 15), (3, 20), (2, 30), (1, 60)]"

text \<open>The inner loop over \<open>src[i..]\<close>; \<open>None\<close> is \<open>continue 'codes\<close>.\<close>

fun pack_loop :: "nat \<Rightarrow> nat \<Rightarrow> nat \<Rightarrow> u64 \<Rightarrow> u64 \<Rightarrow> u64 list \<Rightarrow> u64 option" where
  "pack_loop k int_n bit_n max_val val [] = Some val"
| "pack_loop k int_n bit_n max_val val (v # vs) =
     (if k < int_n then
        if max_val \<le> v then None
        else pack_loop (Suc k) int_n bit_n max_val (val OR push_bit (k * bit_n mod 256 mod 64) v) vs
      else Some val)"

fun try_codes :: "nat \<Rightarrow> (nat \<times> nat) list \<Rightarrow> u64 list \<Rightarrow> (u64 \<times> nat) option" where
  "try_codes idx [] src = None"
| "try_codes idx ((int_n, bit_n) # codes) src =
     (if length src < int_n then try_codes (Suc idx) codes src
      else case pack_loop 0 int_n bit_n (push_bit (bit_n mod 64) 1) (push_bit 60 (of_nat idx + 2)) src of
        None \<Rightarrow> try_codes (Suc idx) codes src
      | Some val \<Rightarrow> Some (val, int_n))"

lemma try_codes_pos: "try_codes idx codes src = Some (val, n) \<Longrightarrow> (n, bit_n) \<in> set codes \<or> n \<in> fst ` set codes"
  by (induction idx codes src rule: try_codes.induct) (auto split: if_splits option.splits)

text \<open>The run of ones at the front of the next 240 or 120 values; zero when fewer than 120 remain.\<close>

definition ones_run :: "u64 list \<Rightarrow> nat" where
  "ones_run src = (if 120 \<le> length src
     then length (takeWhile (\<lambda>x. x = 1) (take (if 240 \<le> length src then 240 else 120) src)) else 0)"

function simple8b_encode :: "u64 list \<Rightarrow> u8 list \<Rightarrow> (string + unit) \<times> u8 list" where
  "simple8b_encode src dst =
     (if src = [] then (Inr (), dst)
      else if ones_run src = 240 then simple8b_encode (drop 240 src) (dst @ replicate 8 0)
      else if 120 \<le> ones_run src then simple8b_encode (drop 120 src) (dst @ to_be_bytes (push_bit 60 1))
      else case try_codes 0 num_bits src of
        None \<Rightarrow> (Inl ''value out of bounds'', dst)
      | Some (val, int_n) \<Rightarrow> simple8b_encode (drop int_n src) (dst @ to_be_bytes val))"
  by pat_completeness auto
termination
proof (relation "measure (length \<circ> fst)", goal_cases)
  case (4 src dst p val n)
  then have "n \<in> fst ` set num_bits" using try_codes_pos [of 0 num_bits src val n] by force
  then have "0 < n" by (auto simp: num_bits_def)
  then show ?case using 4 by simp
qed simp_all

declare simple8b_encode.simps [simp del]

section \<open>Decoding\<close>

fun unpack_loop :: "nat \<Rightarrow> nat \<Rightarrow> u64 \<Rightarrow> u64 \<Rightarrow> u64 list" where
  "unpack_loop 0 b m v = []"
| "unpack_loop (Suc n) b m v = (v AND m) # unpack_loop n b m (drop_bit b v)"

text \<open>The values a packed word holds, in the order of the arms of \<open>decode_value\<close>.\<close>

definition packed_values :: "u64 \<Rightarrow> u64 list" where
  "packed_values v =
    (let sel = unat (drop_bit 60 v) in
     if sel = 0 then replicate 240 1
     else if sel = 1 then replicate 120 1
     else if sel = 2 then unpack_loop 60 1 0x01 v
     else if sel = 3 then unpack_loop 30 2 0x03 v
     else if sel = 4 then unpack_loop 20 3 0x07 v
     else if sel = 5 then unpack_loop 15 4 0x0f v
     else if sel = 6 then unpack_loop 12 5 0x1f v
     else if sel = 7 then unpack_loop 10 6 0x3f v
     else if sel = 8 then unpack_loop 8 7 0x7f v
     else if sel = 9 then unpack_loop 7 8 0xff v
     else if sel = 10 then unpack_loop 6 10 0x03ff v
     else if sel = 11 then unpack_loop 5 12 0x0fff v
     else if sel = 12 then [v AND 0x7fff, drop_bit 15 v AND 0x7fff, drop_bit 30 v AND 0x7fff, drop_bit 45 v AND 0x7fff]
     else if sel = 13 then unpack_loop 3 20 0x000fffff v
     else if sel = 14 then unpack_loop 2 30 0x3fffffff v
     else if sel = 15 then [v AND 0x0fffffffffffffff]
     else [])"

definition decode_value :: "u64 \<Rightarrow> u64 list \<Rightarrow> (u64 list \<times> nat) res" where
  "decode_value v dst = (let vs = packed_values v in
     assert_res (length vs \<le> length dst) ''range end index out of range''
       (Inr (vs @ drop (length vs) dst, length vs)))"

function simple8b_decode_loop :: "u8 list \<Rightarrow> u64 list \<Rightarrow> nat \<Rightarrow> u64 list res" where
  "simple8b_decode_loop src dst j =
     (if src = [] then Inr (take j dst)
      else assert_res (8 \<le> length src) ''range end index out of range''
        (let dst = dst @ replicate (j + 240 - length dst) 0 in
         bind_res (decode_value (from_be_bytes (take 8 src)) (drop j dst)) (\<lambda>(tail, n).
           simple8b_decode_loop (drop 8 src) (take j dst @ tail) (j + n))))"
  by pat_completeness auto
termination by (relation "measure (\<lambda>(src, dst, j). length src)") auto

declare simple8b_decode_loop.simps [simp del]

definition simple8b_decode :: "u8 list \<Rightarrow> u64 list \<Rightarrow> u64 list res" where
  "simple8b_decode src dst = simple8b_decode_loop src dst 0"

section \<open>Packing and unpacking a word\<close>

text \<open>Little-endian packing of \<open>b\<close>-bit values.\<close>

fun packw :: "nat \<Rightarrow> u64 list \<Rightarrow> u64" where
  "packw b [] = 0"
| "packw b (v # vs) = v OR push_bit b (packw b vs)"

lemma unat_push_bit_1: "b < 64 \<Longrightarrow> unat (push_bit b (1::u64)) = 2 ^ b"
  unfolding unsigned_push_bit_eq unsigned_1 by (simp add: take_bit_nat_eq_self)

lemma bit_below:
  assumes "v < push_bit b (1::u64)" and "b < 64" and "bit v i"
  shows "i < b"
proof (rule ccontr)
  assume "\<not> i < b"
  have "unat v < 2 ^ b" using assms(1,2) unat_push_bit_1 [of b] by (simp add: word_less_nat_alt)
  also have "(2::nat) ^ b \<le> 2 ^ i" using \<open>\<not> i < b\<close> by (intro power_increasing) simp_all
  finally have "unat v div 2 ^ i = 0" by simp
  moreover have "bit (unat v) i" using assms(3) by (simp add: bit_unsigned_iff bit_imp_le_length)
  ultimately show False by (simp add: bit_iff_odd)
qed

lemma max_value_iff: "v \<le> max_value \<longleftrightarrow> unat v < 2 ^ 60"
  by (auto simp: max_value_def word_le_nat_alt)

lemma below_max_value: "v < push_bit b 1 \<Longrightarrow> b \<le> 60 \<Longrightarrow> v \<le> max_value"
  unfolding max_value_iff word_less_nat_alt
  using unat_push_bit_1 [of b] power_increasing [of b 60 "2::nat"] by simp

lemma bit_packw:
  "\<forall>v\<in>set vs. \<forall>i. bit v i \<longrightarrow> i < b \<Longrightarrow> bit (packw b vs) i \<Longrightarrow> i < length vs * b"
proof (induction vs arbitrary: i)
  case (Cons v vs)
  then show ?case by (fastforce simp: bit_simps)
qed simp

lemma unpack_packw:
  assumes "\<forall>v\<in>set vs. \<forall>i. bit v i \<longrightarrow> i < b" and "length vs * b \<le> s" and "s < 64" and "\<forall>i. bit sel i \<longrightarrow> i + s < 64"
  shows "unpack_loop (length vs) b (mask b) (push_bit s sel OR packw b vs) = vs"
  using assms
proof (induction vs arbitrary: s)
  case (Cons v vs)
  let ?w = "push_bit s sel OR packw b (v # vs)"
  have v: "\<forall>i. bit v i \<longrightarrow> i < b" and bs: "b \<le> s" "length vs * b \<le> s - b" using Cons.prems by auto
  have rest: "i < length vs * b" if "bit (packw b vs) i" for i
    using bit_packw [of vs b i] that Cons.prems(1) by simp
  have "?w AND mask b = v"
    using v bs by (intro bit_word_eqI) (auto simp: bit_simps)
  moreover have "drop_bit b ?w = push_bit (s - b) sel OR packw b vs"
  proof (rule bit_word_eqI)
    fix i assume "i < LENGTH(64)"
    have sel: "bit sel (b + i - s) \<Longrightarrow> s \<le> b + i \<Longrightarrow> b + i < 64" using Cons.prems(4) by fastforce
    have "bit (packw b vs) i \<Longrightarrow> b + i < 64" using rest [of i] bs Cons.prems(3) by simp
    then show "bit (drop_bit b ?w) i = bit (push_bit (s - b) sel OR packw b vs) i"
      using v bs sel by (auto simp: bit_simps add.commute [of i b] le_diff_conv)
  qed
  moreover have "unpack_loop (length vs) b (mask b) (push_bit (s - b) sel OR packw b vs) = vs"
    using Cons.prems bs by (intro Cons.IH) fastforce+
  ultimately show ?case by simp
qed simp

lemma take_diff_Cons: "k < n \<Longrightarrow> take (n - k) (v # vs) = v # take (n - Suc k) vs"
  by (metis Suc_diff_Suc take_Suc_Cons)

lemma pack_loop_Some:
  assumes "pack_loop k n b mx val vs = Some r" and "n \<le> k + length vs" and "n * b \<le> 60"
  shows "(\<forall>v\<in>set (take (n - k) vs). v < mx) \<and> r = val OR push_bit (k * b) (packw b (take (n - k) vs))"
  using assms
proof (induction k n b mx val vs rule: pack_loop.induct)
  case (2 k n b mx val v vs)
  show ?case
  proof (cases "k < n")
    case True
    then have "k * b \<le> n * b" by (intro mult_le_mono) simp_all
    then have "k * b \<le> 60" using 2(4) by linarith
    then have kb: "k * b mod 256 mod 64 = k * b" by simp
    from True show ?thesis
      using 2 kb by (auto simp: take_diff_Cons push_bit_or add.commute [of b] or.assoc not_le split: if_splits)
  qed (use 2 in simp)
qed simp

lemma pack_loop_None:
  "pack_loop k n b mx val vs = None \<Longrightarrow> \<exists>v\<in>set (take (n - k) vs). mx \<le> v"
proof (induction k n b mx val vs rule: pack_loop.induct)
  case (2 k n b mx val v vs)
  then have "k < n" by (auto split: if_splits)
  then show ?case using 2 by (auto simp: take_diff_Cons split: if_splits)
qed simp

lemma bit_selector: "q < 16 \<Longrightarrow> bit (of_nat q :: u64) i \<Longrightarrow> i < 4"
  using bit_below [of "of_nat q" 4 i] by (simp add: word_less_nat_alt unat_of_nat)

lemma drop_60_packed:
  assumes "q < 16" and "\<forall>i. bit (w::u64) i \<longrightarrow> i < 60"
  shows "unat (drop_bit 60 (push_bit 60 (of_nat q) OR w)) = q"
proof -
  have "drop_bit 60 (push_bit 60 (of_nat q) OR w) = of_nat q"
    using assms(2) bit_selector [OF assms(1)] by (intro bit_word_eqI) (fastforce simp: bit_simps)
  then show ?thesis using assms(1) by (simp add: unat_of_nat)
qed

text \<open>Every arm of \<open>decode_value\<close> unpacks the format that the same row of \<open>NUM_BITS\<close> packs.\<close>

lemma masks_u64:
  "mask 1 = (0x01::u64)" "mask 2 = (0x03::u64)" "mask 3 = (0x07::u64)" "mask 4 = (0x0f::u64)" "mask 5 = (0x1f::u64)"
  "mask 6 = (0x3f::u64)" "mask 7 = (0x7f::u64)" "mask 8 = (0xff::u64)" "mask 10 = (0x03ff::u64)"
  "mask 12 = (0x0fff::u64)" "mask 15 = (0x7fff::u64)" "mask 20 = (0x000fffff::u64)" "mask 30 = (0x3fffffff::u64)"
  "mask 60 = (0x0fffffffffffffff::u64)"
  by (simp_all add: mask_eq_exp_minus_1)

lemma unpack_four: "unpack_loop 4 b m v = [v AND m, drop_bit b v AND m, drop_bit (2 * b) v AND m, drop_bit (3 * b) v AND m]"
  by (simp add: numeral_eq_Suc add.commute)

lemma packed_values_row:
  assumes "p < 14" and "num_bits ! p = (n, b)" and "unat (drop_bit 60 v) = p + 2"
  shows "packed_values v = unpack_loop n b (mask b) v"
proof -
  have "p = 0 \<or> p = 1 \<or> p = 2 \<or> p = 3 \<or> p = 4 \<or> p = 5 \<or> p = 6 \<or> p = 7 \<or> p = 8 \<or> p = 9 \<or> p = 10
    \<or> p = 11 \<or> p = 12 \<or> p = 13"
    using assms(1) by presburger
  moreover have "unpack_loop 1 b m v = [v AND m]" for b m v by simp
  ultimately show ?thesis using assms(2,3)
    by (elim disjE) (auto simp: num_bits_def packed_values_def masks_u64 unpack_four)
qed

lemma try_codes_Some:
  "try_codes idx codes src = Some (val, n) \<Longrightarrow> \<exists>p < length codes. \<exists>b. codes ! p = (n, b) \<and> n \<le> length src \<and>
     pack_loop 0 n b (push_bit (b mod 64) 1) (push_bit 60 (of_nat (idx + p) + 2)) src = Some val"
proof (induction idx codes src rule: try_codes.induct)
  case (2 idx n' b' codes src)
  let ?r = "pack_loop 0 n' b' (push_bit (b' mod 64) 1) (push_bit 60 (of_nat idx + 2)) src"
  show ?case
  proof (cases "length src < n' \<or> ?r = None")
    case True
    with 2 obtain p b where "p < length codes" "codes ! p = (n, b)" "n \<le> length src"
      "pack_loop 0 n b (push_bit (b mod 64) 1) (push_bit 60 (of_nat (Suc idx + p) + 2)) src = Some val"
      by (auto split: if_splits)
    then show ?thesis by (intro exI [of _ "Suc p"]) simp
  next
    case False
    then show ?thesis using 2(3) by (intro exI [of _ 0]) auto
  qed
qed simp

lemma num_bits_row:
  "(n, b) \<in> set num_bits \<Longrightarrow> 0 < n \<and> 0 < b \<and> b < 64 \<and> n * b \<le> 60"
  by (auto simp: num_bits_def)

lemma try_codes_unpack:
  assumes "try_codes 0 num_bits src = Some (val, n)"
  shows "packed_values val = take n src \<and> 0 < n \<and> n \<le> length src \<and> (\<forall>v\<in>set (take n src). v \<le> max_value)"
proof -
  obtain p b where p: "p < length num_bits" "num_bits ! p = (n, b)" and n: "n \<le> length src"
    and r: "pack_loop 0 n b (push_bit (b mod 64) 1) (push_bit 60 (of_nat (0 + p) + 2)) src = Some val"
    using try_codes_Some [OF assms] by blast
  have row: "0 < n" "0 < b" "b < 64" "n * b \<le> 60" using num_bits_row [of n b] nth_mem [OF p(1)] p(2) by auto
  have p14: "p < 14" using p(1) by (simp add: num_bits_def)
  let ?vs = "take n src"
  have small: "\<forall>v\<in>set ?vs. v < push_bit b 1" and val: "val = push_bit 60 (of_nat (p + 2)) OR packw b ?vs"
    using pack_loop_Some [OF r] n row by (simp_all add: add.commute)
  have bits: "\<forall>v\<in>set ?vs. \<forall>i. bit v i \<longrightarrow> i < b" using small bit_below row by blast
  have low: "\<forall>i. bit (packw b ?vs) i \<longrightarrow> i < 60" using bit_packw [OF bits] row n by fastforce
  have sel: "unat (drop_bit 60 val) = p + 2" unfolding val using p14 low by (intro drop_60_packed) simp_all
  have "bit (of_nat (p + 2) :: u64) i \<Longrightarrow> i < 4" for i by (rule bit_selector [of "p + 2"]) (use p14 in simp)
  then have "unpack_loop (length ?vs) b (mask b) (push_bit 60 (of_nat (p + 2)) OR packw b ?vs) = ?vs"
    using bits n row by (intro unpack_packw) fastforce+
  moreover have "b \<le> 60" using row le_trans [of b "n * b" 60] by simp
  then have "\<forall>v\<in>set ?vs. v \<le> max_value" using small row by (auto intro!: below_max_value [of _ b])
  ultimately show ?thesis using packed_values_row [OF p14 p(2) sel] n row by (simp add: val)
qed

section \<open>Round trip\<close>

lemma length_unpack_loop [simp]: "length (unpack_loop n b m v) = n"
  by (induction n b m v rule: unpack_loop.induct) simp_all

lemma length_packed_values: "length (packed_values v) \<le> 240"
  by (simp add: packed_values_def Let_def)

lemma simple8b_decode_words:
  "j \<le> length dst \<Longrightarrow>
   simple8b_decode_loop (concat (map to_be_bytes ws)) dst j = Inr (take j dst @ concat (map packed_values ws))"
proof (induction ws arbitrary: dst j)
  case Nil
  then show ?case by (simp add: simple8b_decode_loop.simps)
next
  case (Cons w ws)
  let ?dst = "dst @ replicate (j + 240 - length dst) 0"
  let ?vs = "packed_values w"
  have src: "concat (map to_be_bytes (w # ws)) \<noteq> []" "take 8 (concat (map to_be_bytes (w # ws))) = to_be_bytes w"
    "drop 8 (concat (map to_be_bytes (w # ws))) = concat (map to_be_bytes ws)"
    using length_to_be_bytes [of w] by (auto simp del: length_to_be_bytes)
  have "simple8b_decode_loop (concat (map to_be_bytes (w # ws))) dst j =
      simple8b_decode_loop (concat (map to_be_bytes ws)) (take j ?dst @ ?vs @ drop (length ?vs) (drop j ?dst)) (j + length ?vs)"
    using Cons.prems length_packed_values [of w] src
    by (subst simple8b_decode_loop.simps) (simp add: decode_value_def Let_def)
  also have "\<dots> = Inr (take j dst @ ?vs @ concat (map packed_values ws))"
    using Cons.prems by (subst Cons.IH) simp_all
  finally show ?case by simp
qed

lemma take_takeWhile_eq:
  "n \<le> length (takeWhile (\<lambda>x. x = a) xs) \<Longrightarrow> n \<le> length xs \<and> take n xs = replicate n a"
proof (induction xs arbitrary: n)
  case (Cons x xs)
  then show ?case by (cases n) (auto split: if_splits)
qed simp

lemma ones_run_take:
  assumes "n \<le> ones_run src" and "0 < n"
  shows "n \<le> length src \<and> take n src = replicate n 1"
proof -
  define xs where "xs = take (if 240 \<le> length src then 240 else 120) src"
  have "n \<le> length (takeWhile (\<lambda>x. x = 1) xs)"
    using assms by (auto simp: ones_run_def xs_def split: if_splits)
  from take_takeWhile_eq [OF this] have "n \<le> length xs" "take n xs = replicate n 1" by simp_all
  then show ?thesis by (auto simp: xs_def split: if_splits)
qed

lemma packed_values_ones: "packed_values 0 = replicate 240 1" "packed_values (push_bit 60 1) = replicate 120 1"
  by (simp_all add: packed_values_def)

lemma try_codes_None:
  "try_codes idx codes src = None \<Longrightarrow> (n, b) \<in> set codes \<Longrightarrow> n \<le> length src \<Longrightarrow>
   \<exists>v\<in>set (take n src). push_bit (b mod 64) 1 \<le> v"
proof (induction idx codes src rule: try_codes.induct)
  case (2 idx n' b' codes src)
  then show ?case using pack_loop_None [of 0 n b] by (fastforce split: if_splits option.splits)
qed simp

lemma simple8b_encode_words:
  assumes "simple8b_encode src dst = (Inr (), dst')"
  shows "\<exists>ws. dst' = dst @ concat (map to_be_bytes ws) \<and> concat (map packed_values ws) = src"
  using assms
proof (induction src dst rule: simple8b_encode.induct)
  case (1 src dst)
  have step: ?case if w: "packed_values w = take n src"
    and ih: "\<exists>ws. dst' = (dst @ to_be_bytes w) @ concat (map to_be_bytes ws) \<and> concat (map packed_values ws) = drop n src" for w n
  proof -
    obtain ws where "dst' = (dst @ to_be_bytes w) @ concat (map to_be_bytes ws)" "concat (map packed_values ws) = drop n src"
      using ih by blast
    then show ?thesis using w by (intro exI [of _ "w # ws"]) simp
  qed
  consider "src = []" | "src \<noteq> []" "ones_run src = 240" | "src \<noteq> []" "ones_run src \<noteq> 240" "120 \<le> ones_run src"
    | "src \<noteq> []" "ones_run src \<noteq> 240" "\<not> 120 \<le> ones_run src" by blast
  then show ?case
  proof cases
    case 2
    have "to_be_bytes 0 = replicate 8 0" by (simp add: to_be_bytes_def map_replicate_const)
    then show ?thesis using 1 2 ones_run_take [of 240 src] packed_values_ones
      by (intro step [of 0 240]) (simp_all add: simple8b_encode.simps [of src])
  next
    case 3
    then show ?thesis using 1 ones_run_take [of 120 src] packed_values_ones
      by (intro step [of "push_bit 60 1" 120]) (simp_all add: simple8b_encode.simps [of src])
  next
    case 4
    obtain w n where c: "try_codes 0 num_bits src = Some (w, n)"
      using 1(4) 4 by (auto simp: simple8b_encode.simps [of src] split: option.splits)
    then show ?thesis using 1 4 try_codes_unpack [OF c]
      by (intro step [of w n]) (simp_all add: simple8b_encode.simps [of src])
  qed (use 1(4) in \<open>auto simp: simple8b_encode.simps\<close>)
qed

lemma simple8b_encode_ok:
  "fst (simple8b_encode src dst) = Inr () \<longleftrightarrow> (\<forall>v\<in>set src. v \<le> max_value)"
proof (induction src dst rule: simple8b_encode.induct)
  case (1 src dst)
  have split: "(\<forall>v\<in>set src. v \<le> max_value) \<longleftrightarrow> (\<forall>v\<in>set (take n src). v \<le> max_value) \<and> (\<forall>v\<in>set (drop n src). v \<le> max_value)" for n
    by (metis Un_iff append_take_drop_id set_append)
  have one: "(1::u64) \<le> max_value" by (simp add: max_value_def)
  consider "src = []" | "src \<noteq> []" "ones_run src = 240" | "src \<noteq> []" "ones_run src \<noteq> 240" "120 \<le> ones_run src"
    | "src \<noteq> []" "ones_run src \<noteq> 240" "\<not> 120 \<le> ones_run src" by blast
  then show ?case
  proof cases
    case 2
    then show ?thesis using 1(1) ones_run_take [of 240 src] split [of 240] one
      by (simp add: simple8b_encode.simps [of src])
  next
    case 3
    then show ?thesis using 1(2) ones_run_take [of 120 src] split [of 120] one
      by (simp add: simple8b_encode.simps [of src])
  next
    case 4
    show ?thesis
    proof (cases "try_codes 0 num_bits src")
      case None
      have "(1, 60) \<in> set num_bits" by (simp add: num_bits_def)
      moreover have "1 \<le> length src" using 4(1) by (cases src) simp_all
      ultimately obtain v where "v \<in> set (take 1 src)" "push_bit (60 mod 64) 1 \<le> v"
        using try_codes_None [OF None] by blast
      then have "v \<in> set src" "\<not> v \<le> max_value"
        by (auto simp: max_value_def word_le_nat_alt dest: in_set_takeD)
      then show ?thesis using 4 None by (auto simp: simple8b_encode.simps [of src])
    next
      case (Some p)
      then obtain w n where c: "try_codes 0 num_bits src = Some (w, n)" by (cases p) auto
      then show ?thesis using 1(3) [OF 4 c refl] 4 try_codes_unpack [OF c] split [of n]
        by (simp add: simple8b_encode.simps [of src])
    qed
  qed (simp add: simple8b_encode.simps)
qed

lemma simple8b_encode_decode:
  assumes "\<forall>v\<in>set src. v \<le> max_value"
  shows "\<exists>bytes. simple8b_encode src dst = (Inr (), dst @ bytes) \<and> (\<forall>buf. simple8b_decode bytes buf = Inr src)"
proof -
  obtain dst' where e: "simple8b_encode src dst = (Inr (), dst')"
    using assms simple8b_encode_ok [of src dst] by (cases "simple8b_encode src dst") auto
  then obtain ws where "dst' = dst @ concat (map to_be_bytes ws)" "concat (map packed_values ws) = src"
    using simple8b_encode_words by blast
  then show ?thesis using e simple8b_decode_words [of 0 _ ws] by (auto simp: simple8b_decode_def)
qed

lemma simple8b_encode_error: "fst (simple8b_encode src dst) \<in> {Inr (), Inl ''value out of bounds''}"
proof (induction src dst rule: simple8b_encode.induct)
  case (1 src dst)
  then show ?case by (subst simple8b_encode.simps) (auto split: option.split)
qed

text \<open>C29. Simple8b packs exactly the lists of values below \<open>2 ^ 60\<close>: for these the encoder appends
  bytes from which the decoder, whatever its buffer holds, returns the list; for any other list it
  reports the error \<open>value out of bounds\<close>.\<close>

theorem simple8b_roundtrip:
  "if \<forall>v\<in>set src. v \<le> max_value
   then \<exists>bytes. simple8b_encode src dst = (Inr (), dst @ bytes) \<and> simple8b_decode bytes buf = Inr src
   else fst (simple8b_encode src dst) = Inl ''value out of bounds''"
  using simple8b_encode_decode [of src dst] simple8b_encode_ok [of src dst] simple8b_encode_error [of src dst] by auto

theorem simple8b_roundtrip_witness:
  "(\<exists>bytes. simple8b_encode [7, 6, 256, 4, 3, 2, 1] [16] = (Inr (), [16] @ bytes) \<and>
     simple8b_decode bytes [99] = Inr [7, 6, 256, 4, 3, 2, 1]) \<and>
   fst (simple8b_encode [7, 6, 0x2000000000000000] []) = Inl ''value out of bounds''"
  using simple8b_roundtrip [of "[7, 6, 256, 4, 3, 2, 1]" "[16]" "[99]"]
    simple8b_roundtrip [of "[7, 6, 0x2000000000000000]" "[]" "[]"] by (simp add: max_value_def)

end
