(* ===== verification/Tsm_Integer.thy ===== *)
theory Tsm_Integer
  imports Tsm_Simple8b
begin

text \<open>
  \<open>influxdb_tsm/src/encoders/integer.rs\<close> and \<open>unsigned.rs\<close>: zig-zag deltas, then run-length encoding,
  simple8b or raw words. The variable length integers of the crate \<open>integer_encoding\<close> are the
  parameters \<open>enc_var\<close> and \<open>dec_var\<close>; \<open>varint_ok\<close> states what the code relies on. The parameter \<open>checks\<close>
  of the decoders tells whether the build panics on integer overflow. Allocation never fails, and
  capacities are modelled only where the code computes with them.
\<close>

section \<open>Shared pieces of the integer and timestamp encoders\<close>

definition max_var_int_64 :: nat where
  "max_var_int_64 = 10"

text \<open>\<open>Vec::resize\<close> with zeros, and the write of \<open>encode_var\<close> into \<open>dst[n..]\<close>, which panics when the
  slice is too short.\<close>

definition resize_to :: "nat \<Rightarrow> u8 list \<Rightarrow> u8 list" where
  "resize_to n xs = take n xs @ replicate (n - length xs) 0"

definition write_at :: "nat \<Rightarrow> u8 list \<Rightarrow> u8 list \<Rightarrow> u8 list res" where
  "write_at n bs dst = assert_res (n + length bs \<le> length dst) ''encode_var: slice too short''
     (Inr (take n dst @ bs @ drop (n + length bs) dst))"

text \<open>What the encoders rely on of the crate \<open>integer_encoding\<close>: a 64-bit number takes at most ten
  bytes, and decoding reads back what was written and reports its length.\<close>

definition varint_ok :: "(u64 \<Rightarrow> u8 list) \<Rightarrow> (u8 list \<Rightarrow> (u64 \<times> nat) option) \<Rightarrow> bool" where
  "varint_ok enc_var dec_var \<longleftrightarrow>
     (\<forall>n rest. length (enc_var n) \<le> 10 \<and> dec_var (enc_var n @ rest) = Some (n, length (enc_var n)))"

text \<open>Seven bits of the number per byte, which the size of the buffers of the boolean and the string
  encoder relies on.\<close>

definition varint_short :: "(u64 \<Rightarrow> u8 list) \<Rightarrow> bool" where
  "varint_short enc_var \<longleftrightarrow> (\<forall>n m. unat n < 2 ^ (7 * Suc m) \<longrightarrow> length (enc_var n) \<le> Suc m)"

text \<open>The loop \<open>for i in (1..deltas.len()).rev()\<close>; \<open>k\<close> is \<open>i - 1\<close> plus one before each step.\<close>

fun delta_loop :: "(u64 \<Rightarrow> u64) \<Rightarrow> nat \<Rightarrow> u64 list \<Rightarrow> u64 \<Rightarrow> u64 list \<times> u64" where
  "delta_loop f 0 deltas mx = (deltas, mx)"
| "delta_loop f (Suc k) deltas mx =
     (let d = f (deltas ! Suc k - deltas ! k) in delta_loop f k (deltas[Suc k := d]) (if mx < d then d else mx))"

definition all_deltas_equal :: "u64 list \<Rightarrow> bool" where
  "all_deltas_equal deltas \<longleftrightarrow> list_all (\<lambda>d. deltas ! 1 = d) (drop 2 deltas)"

text \<open>\<open>+\<close> on \<open>i64\<close>: with overflow checks it panics, without them it wraps around.\<close>

definition add_i64 :: "bool \<Rightarrow> u64 \<Rightarrow> u64 \<Rightarrow> u64 res" where
  "add_i64 checks a b = assert_res (checks \<longrightarrow> - (2 ^ 63) \<le> sint a + sint b \<and> sint a + sint b < 2 ^ 63)
     ''attempt to add with overflow'' (Inr (a + b))"

section \<open>The integer encoder\<close>

definition zig_zag_encode :: "u64 \<Rightarrow> u64" where
  "zig_zag_encode v = push_bit 1 v XOR signed_drop_bit 63 v"

definition zig_zag_decode :: "u64 \<Rightarrow> u64" where
  "zig_zag_decode v = drop_bit 1 v XOR signed_drop_bit 63 (push_bit 63 (v AND 1))"

definition integer_encode_rle :: "(u64 \<Rightarrow> u8 list) \<Rightarrow> u64 \<Rightarrow> u64 \<Rightarrow> u64 \<Rightarrow> u8 list \<Rightarrow> u8 list res" where
  "integer_encode_rle enc_var v delta cnt dst =
    (let dst = dst @ [0] @ to_be_bytes v; n = 9;
         dst = (if length dst - n \<le> max_var_int_64 then resize_to (n + max_var_int_64) dst else dst) in
     bind_res (write_at n (enc_var delta) dst) (\<lambda>dst.
     let n = n + length (enc_var delta);
         dst = (if length dst - n \<le> max_var_int_64 then resize_to (n + max_var_int_64) dst else dst) in
     bind_res (write_at n (enc_var cnt) dst) (\<lambda>dst.
     Inr (take (n + length (enc_var cnt)) dst))))"

definition integer_encode :: "(u64 \<Rightarrow> u8 list) \<Rightarrow> u64 list \<Rightarrow> ((string + unit) \<times> u8 list) res" where
  "integer_encode enc_var src =
    (if src = [] then Inr (Inr (), [])
     else
       let (deltas, mx) = delta_loop zig_zag_encode (length src - 1) src 0;
           deltas = deltas[0 := zig_zag_encode (src ! 0)] in
       if 2 < length deltas \<and> all_deltas_equal deltas then
         bind_res (integer_encode_rle enc_var (deltas ! 0) (deltas ! 1) (of_nat (length deltas) - 1) []) (\<lambda>dst.
           Inr (Inr (), dst[0 := dst ! 0 OR push_bit 4 2]))
       else if max_value < mx then
         Inr (Inr (), [push_bit 4 0] @ concat (map to_be_bytes deltas))
       else Inr (simple8b_encode (drop 1 deltas) ([push_bit 4 1] @ to_be_bytes (deltas ! 0))))"

section \<open>The integer decoder\<close>

function uncompressed_loop :: "(u64 \<Rightarrow> u64 \<Rightarrow> u64 res) \<Rightarrow> u8 list \<Rightarrow> u64 \<Rightarrow> u64 list \<Rightarrow> u64 list res" where
  "uncompressed_loop add src prev dst =
     (if src = [] then Inr dst
      else assert_res (8 \<le> length src) ''range end index out of range''
        (bind_res (add prev (from_be_bytes (take 8 src))) (\<lambda>prev.
           uncompressed_loop add (drop 8 src) prev (dst @ [prev]))))"
  by pat_completeness auto
termination by (relation "measure (\<lambda>(add, src, prev, dst). length src)") auto

declare uncompressed_loop.simps [simp del]

definition integer_decode_uncompressed :: "u8 list \<Rightarrow> u64 list \<Rightarrow> ((string + unit) \<times> u64 list) res" where
  "integer_decode_uncompressed src dst =
    (if src = [] \<or> length src mod 8 \<noteq> 0 then Inr (Inl ''invalid uncompressed block length'', dst)
     else bind_res (uncompressed_loop (\<lambda>prev w. Inr (prev + zig_zag_decode w)) src 0 dst) (\<lambda>dst. Inr (Inr (), dst)))"

text \<open>The loop of \<open>decode_rle\<close>: \<open>count\<close> further values, each \<open>delta\<close> more than the one before.\<close>

fun rle_loop :: "nat \<Rightarrow> u64 \<Rightarrow> u64 \<Rightarrow> u64 list \<Rightarrow> u64 list" where
  "rle_loop 0 first delta dst = dst"
| "rle_loop (Suc k) first delta dst = rle_loop k (first + delta) delta (dst @ [first + delta])"

definition integer_decode_rle :: "(u8 list \<Rightarrow> (u64 \<times> nat) option) \<Rightarrow> u8 list \<Rightarrow> u64 list \<Rightarrow>
    ((string + unit) \<times> u64 list) res" where
  "integer_decode_rle dec_var src dst =
    (if length src < 8 then Inr (Inl ''not enough data to decode using RLE'', dst)
     else case dec_var (drop 8 src) of
       None \<Rightarrow> Inr (Inl ''unable to decode delta'', dst)
     | Some (delta, n) \<Rightarrow>
         assert_res (8 + n \<le> length src) ''range start index out of range''
         (case dec_var (drop (8 + n) src) of
            None \<Rightarrow> Inr (Inl ''unable to decode count'', dst)
          | Some (cnt, _) \<Rightarrow>
              let first = zig_zag_decode (from_be_bytes (take 8 src)) in
              Inr (Inr (), rle_loop (unat cnt) first (zig_zag_decode delta) (dst @ [first]))))"

text \<open>The loop \<open>next += \<dots>; dst.push(next)\<close> of the packed decoders.\<close>

fun sum_loop :: "(u64 \<Rightarrow> u64 \<Rightarrow> u64 res) \<Rightarrow> u64 list \<Rightarrow> u64 \<Rightarrow> u64 list \<Rightarrow> u64 list res" where
  "sum_loop add [] next_val dst = Inr dst"
| "sum_loop add (v # vs) next_val dst = bind_res (add next_val v) (\<lambda>s. sum_loop add vs s (dst @ [s]))"

definition integer_decode_simple8b :: "bool \<Rightarrow> u8 list \<Rightarrow> u64 list \<Rightarrow> ((string + unit) \<times> u64 list) res" where
  "integer_decode_simple8b checks src dst =
    (if length src < 8 then Inr (Inl ''not enough data to decode packed integer.'', dst)
     else
       let dst = dst @ [zig_zag_decode (from_be_bytes (take 8 src))] in
       bind_res (simple8b_decode (drop 8 src) []) (\<lambda>vs.
       bind_res (sum_loop (\<lambda>s v. add_i64 checks s (zig_zag_decode v)) vs (dst ! 0) dst) (\<lambda>dst.
       Inr (Inr (), dst))))"

definition integer_decode :: "(u8 list \<Rightarrow> (u64 \<times> nat) option) \<Rightarrow> bool \<Rightarrow> u8 list \<Rightarrow> u64 list \<Rightarrow>
    ((string + unit) \<times> u64 list) res" where
  "integer_decode dec_var checks src dst =
    (if src = [] then Inr (Inr (), dst)
     else let encoding = drop_bit 4 (src ! 0) in
       if encoding = 0 then integer_decode_uncompressed (drop 1 src) dst
       else if encoding = 2 then integer_decode_rle dec_var (drop 1 src) dst
       else if encoding = 1 then integer_decode_simple8b checks (drop 1 src) dst
       else Inr (Inl ''invalid block encoding'', dst))"

section \<open>The unsigned encoder\<close>

definition unsigned_encode :: "(u64 \<Rightarrow> u8 list) \<Rightarrow> u64 list \<Rightarrow> ((string + unit) \<times> u8 list) res" where
  "unsigned_encode enc_var src = integer_encode enc_var src"

text \<open>\<open>cap\<close> is \<open>dst.capacity()\<close>. Without overflow checks the difference wraps around to a number of
  elements that no vector can hold, and \<open>reserve_exact\<close> panics.\<close>

definition unsigned_decode :: "(u8 list \<Rightarrow> (u64 \<times> nat) option) \<Rightarrow> bool \<Rightarrow> nat \<Rightarrow> u8 list \<Rightarrow> u64 list \<Rightarrow>
    ((string + unit) \<times> u64 list) res" where
  "unsigned_decode dec_var checks cap src dst =
    (if src = [] then Inr (Inr (), dst)
     else bind_res (integer_decode dec_var checks src []) (\<lambda>(r, signed_results).
       case r of Inl e \<Rightarrow> Inr (Inl e, dst)
       | Inr _ \<Rightarrow> assert_res (cap \<le> length signed_results)
           (if checks then ''attempt to subtract with overflow'' else ''capacity overflow'')
           (Inr (Inr (), signed_results))))"

section \<open>Round trip\<close>

lemma bit_sign_fill: "bit (signed_drop_bit 63 (v::u64)) i \<longleftrightarrow> i < 64 \<and> bit v 63"
  by (cases "i = 0") (auto simp: bit_signed_drop_bit_iff dest: bit_imp_le_length)

lemma bit_zig_zag_encode: "bit (zig_zag_encode v) i \<longleftrightarrow> i < 64 \<and> (0 < i \<and> bit v (i - 1)) \<noteq> bit v 63"
proof -
  have "bit (push_bit 1 v) i \<longleftrightarrow> 0 < i \<and> i < 64 \<and> bit v (i - 1)"
    unfolding bit_push_bit_iff by (auto dest: bit_imp_le_length)
  then show ?thesis unfolding zig_zag_encode_def bit_xor_iff bit_sign_fill by blast
qed

lemma bit_zig_zag_decode: "bit (zig_zag_decode w) i \<longleftrightarrow> i < 64 \<and> bit w (Suc i) \<noteq> bit w 0"
proof -
  have "bit (drop_bit 1 w) i \<longleftrightarrow> i < 64 \<and> bit w (Suc i)" unfolding bit_drop_bit_eq by (auto dest: bit_imp_le_length)
  moreover have "bit (push_bit 63 (w AND 1)) 63 \<longleftrightarrow> bit w 0" by (simp add: bit_simps)
  ultimately show ?thesis unfolding zig_zag_decode_def bit_xor_iff bit_sign_fill by blast
qed

lemma zig_zag_decode_encode [simp]: "zig_zag_decode (zig_zag_encode v) = v"
proof (rule bit_word_eqI)
  fix i assume "i < LENGTH(64)"
  then show "bit (zig_zag_decode (zig_zag_encode v)) i = bit v i"
    by (cases "i = 63") (auto simp: bit_zig_zag_decode bit_zig_zag_encode)
qed

lemma delta_loop_spec:
  assumes "k < length ds"
  shows "length (fst (delta_loop f k ds mx)) = length ds \<and>
    (\<forall>i < length ds. fst (delta_loop f k ds mx) ! i = (if 1 \<le> i \<and> i \<le> k then f (ds ! i - ds ! (i - 1)) else ds ! i)) \<and>
    (snd (delta_loop f k ds mx) \<le> b \<longleftrightarrow> mx \<le> b \<and> (\<forall>i \<in> {1..k}. f (ds ! i - ds ! (i - 1)) \<le> b))"
  using assms
proof (induction k arbitrary: ds mx)
  case (Suc k)
  let ?d = "f (ds ! Suc k - ds ! k)"
  note IH = Suc.IH [of "ds[Suc k := ?d]" "if mx < ?d then ?d else mx"]
  have same: "ds[Suc k := ?d] ! i = ds ! i" if "i \<le> k" for i using that by simp
  have "(\<forall>i\<in>{1..Suc k}. f (ds ! i - ds ! (i - 1)) \<le> b) \<longleftrightarrow> ?d \<le> b \<and> (\<forall>i\<in>{1..k}. f (ds ! i - ds ! (i - 1)) \<le> b)"
    by (simp add: atLeastAtMostSuc_conv)
  then show ?case using IH Suc.prems
    by (auto simp: Let_def nth_list_update le_Suc_eq)
qed simp

text \<open>The differences of neighbours.\<close>

fun neighbour_diffs :: "(u64 \<Rightarrow> u64) \<Rightarrow> u64 \<Rightarrow> u64 list \<Rightarrow> u64 list" where
  "neighbour_diffs f a [] = []"
| "neighbour_diffs f a (b # bs) = f (b - a) # neighbour_diffs f b bs"

lemma length_diffs [simp]: "length (neighbour_diffs f a bs) = length bs"
  by (induction f a bs rule: neighbour_diffs.induct) simp_all

lemma nth_diffs: "i < length bs \<Longrightarrow> neighbour_diffs f a bs ! i = f (bs ! i - (a # bs) ! i)"
proof (induction f a bs arbitrary: i rule: neighbour_diffs.induct)
  case (2 f a b bs)
  then show ?case by (cases i) simp_all
qed simp

lemma delta_loop_diffs:
  "fst (delta_loop f (length as) (a # as) mx) = a # neighbour_diffs f a as"
  "snd (delta_loop f (length as) (a # as) mx) \<le> b \<longleftrightarrow> mx \<le> b \<and> (\<forall>d\<in>set (neighbour_diffs f a as). d \<le> b)"
proof -
  note spec = delta_loop_spec [of "length as" "a # as" f mx b]
  show "fst (delta_loop f (length as) (a # as) mx) = a # neighbour_diffs f a as"
  proof (rule nth_equalityI)
    fix i assume "i < length (fst (delta_loop f (length as) (a # as) mx))"
    then have "i < Suc (length as)" using spec by simp
    then show "fst (delta_loop f (length as) (a # as) mx) ! i = (a # neighbour_diffs f a as) ! i"
      using spec by (cases i) (simp_all add: nth_diffs)
  qed (use spec in simp)
  have "(\<forall>d\<in>set (neighbour_diffs f a as). d \<le> b) \<longleftrightarrow> (\<forall>i < length as. f (as ! i - (a # as) ! i) \<le> b)"
    by (auto simp: set_conv_nth nth_diffs)
  also have "\<dots> \<longleftrightarrow> (\<forall>i\<in>{1..length as}. f ((a # as) ! i - (a # as) ! (i - 1)) \<le> b)"
    unfolding image_Suc_lessThan [symmetric] by auto
  finally show "snd (delta_loop f (length as) (a # as) mx) \<le> b \<longleftrightarrow> mx \<le> b \<and> (\<forall>d\<in>set (neighbour_diffs f a as). d \<le> b)"
    using spec by simp
qed

lemma sint_diff_u64:
  fixes a b :: u64
  shows "sint (b - a) = (sint b - sint a + 2 ^ 63) mod 2 ^ 64 - 2 ^ 63"
  by (simp add: sint_word_ariths signed_take_bit_eq_take_bit_shift take_bit_eq_mod)

lemma sint_u64: "- (2 ^ 63) \<le> sint (a::u64)" "sint (a::u64) < 2 ^ 63"
  using sint_ge [of a] sint_lt [of a] by simp_all

text \<open>The step from \<open>a\<close> to \<open>b\<close> does not wrap around the range of \<open>i64\<close>.\<close>

definition fits_step :: "u64 \<Rightarrow> u64 \<Rightarrow> bool" where
  "fits_step a b \<longleftrightarrow> - (2 ^ 63) \<le> sint b - sint a \<and> sint b - sint a < 2 ^ 63"

lemma add_i64_diff:
  "add_i64 checks a (b - a) =
     (if checks \<longrightarrow> fits_step a b then Inr b else Inl (Panic ''attempt to add with overflow''))"
proof -
  note r = sint_u64 [of a] sint_u64 [of b]
  have "fits_step a b \<longleftrightarrow> - (2 ^ 63) \<le> sint a + sint (b - a) \<and> sint a + sint (b - a) < 2 ^ 63"
  proof (cases "fits_step a b")
    case True
    then have "(sint b - sint a + 2 ^ 63) mod 2 ^ 64 = sint b - sint a + 2 ^ 63"
      by (intro mod_pos_pos_trivial) (auto simp: fits_step_def)
    then have "sint (b - a) = sint b - sint a" unfolding sint_diff_u64 by simp
    then show ?thesis using True r by simp
  next
    case False
    then consider "2 ^ 63 \<le> sint b - sint a" | "sint b - sint a < - (2 ^ 63)" unfolding fits_step_def by linarith
    then show ?thesis
    proof cases
      case 1
      then have "(sint b - sint a + 2 ^ 63 - 2 ^ 64) mod 2 ^ 64 = sint b - sint a + 2 ^ 63 - 2 ^ 64"
        using r by (intro mod_pos_pos_trivial) auto
      then have "sint (b - a) = sint b - sint a - 2 ^ 64" unfolding sint_diff_u64 minus_mod_self2 by simp
      then show ?thesis using False r by simp
    next
      case 2
      then have "(sint b - sint a + 2 ^ 63 + 2 ^ 64) mod 2 ^ 64 = sint b - sint a + 2 ^ 63 + 2 ^ 64"
        using r by (intro mod_pos_pos_trivial) auto
      then have "sint (b - a) = sint b - sint a + 2 ^ 64" unfolding sint_diff_u64 mod_add_self2 by simp
      then show ?thesis using False r by simp
    qed
  qed
  then show ?thesis by (auto simp: add_i64_def)
qed

fun no_wrap :: "u64 \<Rightarrow> u64 list \<Rightarrow> bool" where
  "no_wrap a [] = True"
| "no_wrap a (b # bs) = (fits_step a b \<and> no_wrap b bs)"

lemma sum_loop_diffs:
  assumes "\<And>x. g (f x) = x"
  shows "sum_loop (\<lambda>s v. add_i64 checks s (g v)) (neighbour_diffs f a bs) a dst =
    (if checks \<longrightarrow> no_wrap a bs then Inr (dst @ bs) else Inl (Panic ''attempt to add with overflow''))"
  by (induction bs arbitrary: a dst) (auto simp: assms add_i64_diff)

text \<open>Without overflow checks the sums start wherever \<open>next\<close> starts.\<close>

lemma sum_loop_wrapping:
  assumes "\<And>x. g (f x) = x"
  shows "sum_loop (\<lambda>s v. add_i64 False s (g v)) (neighbour_diffs f a bs) (a + c) dst = Inr (dst @ map (\<lambda>b. b + c) bs)"
proof (induction bs arbitrary: a dst)
  case (Cons b bs)
  then show ?case using Cons [of b] by (simp add: assms add_i64_def add.commute [of c b])
qed simp

lemma uncompressed_loop_diffs:
  assumes "\<And>x. g (f x) = x"
  shows "uncompressed_loop (\<lambda>s w. add_i64 checks s (g w)) (concat (map to_be_bytes (neighbour_diffs f a bs))) a dst =
    (if checks \<longrightarrow> no_wrap a bs then Inr (dst @ bs) else Inl (Panic ''attempt to add with overflow''))"
proof (induction bs arbitrary: a dst)
  case Nil
  then show ?case by (simp add: uncompressed_loop.simps)
next
  case (Cons b bs)
  then show ?case by (subst uncompressed_loop.simps, cases checks) (simp_all add: assms add_i64_diff)
qed

lemma varint_okD:
  assumes "varint_ok enc_var dec_var"
  shows "length (enc_var n) \<le> 10" and "dec_var (enc_var n @ rest) = Some (n, length (enc_var n))"
    and "dec_var (enc_var n) = Some (n, length (enc_var n))"
proof -
  show "length (enc_var n) \<le> 10" "dec_var (enc_var n @ rest) = Some (n, length (enc_var n))" for rest
    using assms by (simp_all add: varint_ok_def)
  from this(2) [of "[]"] show "dec_var (enc_var n) = Some (n, length (enc_var n))" by simp
qed

lemma integer_encode_rle_bytes:
  assumes "varint_ok enc_var dec_var"
  shows "integer_encode_rle enc_var v d c [] = Inr (0 # to_be_bytes v @ enc_var d @ enc_var c)"
  using varint_okD(1) [OF assms, of d] varint_okD(1) [OF assms, of c]
  by (simp add: integer_encode_rle_def resize_to_def write_at_def max_var_int_64_def Let_def take_Cons')

lemma rle_loop_append: "rle_loop k x d dst = dst @ map (\<lambda>i. x + of_nat (Suc i) * d) [0..<k]"
proof (induction k arbitrary: x dst)
  case (Suc k)
  have "map (\<lambda>i. x + of_nat (Suc i) * d) [0..<Suc k] = (x + d) # map (\<lambda>i. (x + d) + of_nat (Suc i) * d) [0..<k]"
    by (simp add: upt_conv_Cons map_Suc_upt [symmetric] algebra_simps del: upt_Suc)
  then show ?case by (simp add: Suc del: upt_Suc)
qed simp

text \<open>A list all of whose differences are \<open>d\<close> is the arithmetic progression that the loop rebuilds.\<close>

lemma constant_diffs:
  "\<forall>e\<in>set (neighbour_diffs (\<lambda>x. x) a bs). e = d \<Longrightarrow> bs = map (\<lambda>i. a + of_nat (Suc i) * d) [0..<length bs]"
proof (induction bs arbitrary: a)
  case (Cons b bs)
  then have b: "b = a + d" by (auto simp: algebra_simps)
  have IH: "bs = map (\<lambda>i. b + of_nat (Suc i) * d) [0..<length bs]" using Cons.prems by (intro Cons.IH) simp
  have "map (\<lambda>i. a + of_nat (Suc i) * d) [0..<length (b # bs)] = b # map (\<lambda>i. b + of_nat (Suc i) * d) [0..<length bs]"
    by (simp add: upt_conv_Cons map_Suc_upt [symmetric] algebra_simps b del: upt_Suc)
  then show ?case using IH by simp
qed simp

lemma neighbour_diffs_map: "neighbour_diffs f a bs = map f (neighbour_diffs (\<lambda>x. x) a bs)"
  by (induction bs arbitrary: a) simp_all

abbreviation zz_diffs :: "u64 \<Rightarrow> u64 list \<Rightarrow> u64 list" where
  "zz_diffs a bs \<equiv> neighbour_diffs zig_zag_encode a bs"

text \<open>The three shapes of a block: run-length encoded, uncompressed, packed.\<close>

lemma integer_encode_shapes:
  assumes "varint_ok enc_var dec_var"
  shows "integer_encode enc_var (a # bs) =
    (if 2 \<le> length bs \<and> (\<forall>d\<in>set (zz_diffs a bs). d = hd (zz_diffs a bs)) then
       Inr (Inr (), [32] @ to_be_bytes (zig_zag_encode a) @ enc_var (hd (zz_diffs a bs)) @ enc_var (of_nat (length bs)))
     else if \<forall>d\<in>set (zz_diffs a bs). d \<le> max_value then
       Inr (simple8b_encode (zz_diffs a bs) ([16] @ to_be_bytes (zig_zag_encode a)))
     else Inr (Inr (), [0] @ to_be_bytes (zig_zag_encode a) @ concat (map to_be_bytes (zz_diffs a bs))))"
proof -
  obtain m where loop: "delta_loop zig_zag_encode (length bs) (a # bs) 0 = (a # zz_diffs a bs, m)"
    using delta_loop_diffs(1) [of zig_zag_encode bs a 0] by (metis prod.collapse)
  have mx: "max_value < m \<longleftrightarrow> \<not> (\<forall>d\<in>set (zz_diffs a bs). d \<le> max_value)"
    using delta_loop_diffs(2) [of zig_zag_encode bs a 0 max_value] loop by (simp add: not_le [symmetric])
  have eq: "all_deltas_equal (x # zz_diffs a bs) \<longleftrightarrow> (\<forall>d\<in>set (zz_diffs a bs). d = hd (zz_diffs a bs))" if "2 \<le> length bs" for x
    using that by (cases bs) (auto simp: all_deltas_equal_def list_all_iff)
  have hd: "zz_diffs a bs ! 0 = hd (zz_diffs a bs)" if "2 \<le> length bs" using that by (cases bs) auto
  have "2 < Suc (length bs) \<longleftrightarrow> 2 \<le> length bs" by auto
  then show ?thesis
    using mx eq hd integer_encode_rle_bytes [OF assms]
    by (cases "2 \<le> length bs") (simp_all add: integer_encode_def loop Let_def)
qed

lemma integer_decode_rle_shape:
  assumes ok: "varint_ok enc_var dec_var" and len: "length bs < 2 ^ 64"
    and const: "\<forall>d\<in>set (zz_diffs a bs). d = d0"
  shows "integer_decode dec_var checks ([32] @ to_be_bytes (zig_zag_encode a) @ enc_var d0 @ enc_var (of_nat (length bs))) dst =
    Inr (Inr (), dst @ a # bs)"
proof -
  have "\<forall>e\<in>set (neighbour_diffs (\<lambda>x. x) a bs). e = zig_zag_decode d0"
    using const by (metis (no_types, lifting) image_eqI list.set_map neighbour_diffs_map zig_zag_decode_encode)
  then have "rle_loop (length bs) a (zig_zag_decode d0) (dst @ [a]) = dst @ a # bs"
    using constant_diffs [of a bs "zig_zag_decode d0"] by (simp add: rle_loop_append)
  moreover have "unat (of_nat (length bs) :: u64) = length bs" using len by (simp add: unat_of_nat)
  ultimately show ?thesis
    by (simp add: integer_decode_def integer_decode_rle_def varint_okD [OF ok] Let_def)
qed

lemma integer_decode_uncompressed_shape:
  "integer_decode dec_var checks ([0] @ to_be_bytes (zig_zag_encode a) @ concat (map to_be_bytes (zz_diffs a bs))) dst =
    Inr (Inr (), dst @ a # bs)"
proof -
  have add: "(\<lambda>prev w. Inr (prev + zig_zag_decode w)) = (\<lambda>prev w. add_i64 False prev (zig_zag_decode w))"
    by (simp add: add_i64_def)
  have "length (concat (map to_be_bytes ws)) = 8 * length ws" for ws by (induction ws) simp_all
  then show ?thesis
    using uncompressed_loop_diffs [of zig_zag_decode zig_zag_encode False a bs "dst @ [a]"]
    unfolding integer_decode_def integer_decode_uncompressed_def add
    by (subst uncompressed_loop.simps) (simp add: add_i64_def)
qed

lemma integer_decode_packed_shape:
  assumes "\<forall>buf. simple8b_decode bytes buf = Inr (zz_diffs a bs)"
  shows "integer_decode dec_var checks ([16] @ to_be_bytes (zig_zag_encode a) @ bytes) dst =
    bind_res (sum_loop (\<lambda>s v. add_i64 checks s (zig_zag_decode v)) (zz_diffs a bs) ((dst @ [a]) ! 0) (dst @ [a]))
      (\<lambda>r. Inr (Inr (), r))"
  using assms by (simp add: integer_decode_def integer_decode_simple8b_def Let_def)

definition packs :: "u64 list \<Rightarrow> bool" where
  "packs src \<longleftrightarrow> src \<noteq> [] \<and> (\<forall>d\<in>set (zz_diffs (hd src) (tl src)). d \<le> max_value) \<and>
     \<not> (3 \<le> length src \<and> (\<forall>d\<in>set (zz_diffs (hd src) (tl src)). d = hd (zz_diffs (hd src) (tl src))))"

lemma integer_decode_packs:
  assumes "varint_ok enc_var dec_var" and "packs src"
  shows "\<exists>bytes. integer_encode enc_var src = Inr (Inr (), bytes) \<and> bytes \<noteq> [] \<and>
    (\<forall>checks dst. integer_decode dec_var checks bytes dst =
      bind_res (sum_loop (\<lambda>s v. add_i64 checks s (zig_zag_decode v)) (zz_diffs (hd src) (tl src))
        ((dst @ [hd src]) ! 0) (dst @ [hd src])) (\<lambda>r. Inr (Inr (), r)))"
proof -
  obtain a bs where src: "src = a # bs" using assms(2) by (cases src) (auto simp: packs_def)
  then have small: "\<forall>d\<in>set (zz_diffs a bs). d \<le> max_value" and
    not_rle: "\<not> (2 \<le> length bs \<and> (\<forall>d\<in>set (zz_diffs a bs). d = hd (zz_diffs a bs)))"
    using assms(2) by (auto simp: packs_def)
  obtain bytes where "simple8b_encode (zz_diffs a bs) ([16] @ to_be_bytes (zig_zag_encode a)) =
      (Inr (), ([16] @ to_be_bytes (zig_zag_encode a)) @ bytes)" "\<forall>buf. simple8b_decode bytes buf = Inr (zz_diffs a bs)"
    using simple8b_encode_decode [OF small] by blast
  then show ?thesis
    using integer_encode_shapes [OF assms(1), of a bs] small not_rle integer_decode_packed_shape [of bytes a bs] src
    by auto
qed

lemma integer_encode_decode:
  assumes "varint_ok enc_var dec_var" and "length src < 2 ^ 64"
  shows "\<exists>bytes. integer_encode enc_var src = Inr (Inr (), bytes) \<and> (src \<noteq> [] \<longrightarrow> bytes \<noteq> []) \<and>
    (\<forall>checks. integer_decode dec_var checks bytes [] =
      (if checks \<and> packs src \<and> \<not> no_wrap (hd src) (tl src) then Inl (Panic ''attempt to add with overflow'')
       else Inr (Inr (), src)))"
proof (cases "packs src")
  case True
  then have src: "hd src # tl src = src" by (simp add: packs_def)
  obtain bytes where enc: "integer_encode enc_var src = Inr (Inr (), bytes)" "bytes \<noteq> []"
    and dec: "\<And>checks dst. integer_decode dec_var checks bytes dst =
      bind_res (sum_loop (\<lambda>s v. add_i64 checks s (zig_zag_decode v)) (zz_diffs (hd src) (tl src))
        ((dst @ [hd src]) ! 0) (dst @ [hd src])) (\<lambda>r. Inr (Inr (), r))"
    using integer_decode_packs [OF assms(1) True] by blast
  have run: "integer_decode dec_var checks bytes [] =
      (if checks \<and> \<not> no_wrap (hd src) (tl src) then Inl (Panic ''attempt to add with overflow'') else Inr (Inr (), src))" for checks
    using sum_loop_diffs [of zig_zag_decode zig_zag_encode checks "hd src" "tl src" "[hd src]"] src by (simp add: dec)
  show ?thesis using enc True by (intro exI [of _ bytes]) (simp add: run)
next
  case False
  show ?thesis
  proof (cases src)
    case (Cons a bs)
    then show ?thesis
      using False assms integer_encode_shapes [OF assms(1), of a bs] integer_decode_uncompressed_shape [of dec_var _ a bs "[]"]
        integer_decode_rle_shape [OF assms(1), of bs a "hd (zz_diffs a bs)" _ "[]"]
      by (auto simp: packs_def)
  qed (simp add: integer_encode_def integer_decode_def)
qed

section \<open>LEB128, an instance of the variable length integers\<close>

fun leb_enc :: "nat \<Rightarrow> u64 \<Rightarrow> u8 list" where
  "leb_enc 0 n = [ucast n]"
| "leb_enc (Suc k) n = (if n < 128 then [ucast n] else (ucast (n AND 127) OR 128) # leb_enc k (drop_bit 7 n))"

fun leb_dec :: "u8 list \<Rightarrow> (u64 \<times> nat) option" where
  "leb_dec [] = None"
| "leb_dec (b # bs) = (if b < 128 then Some (ucast b, 1)
     else map_option (\<lambda>(n, l). (ucast (b AND 127) OR push_bit 7 n, Suc l)) (leb_dec bs))"

lemma leb_byte:
  assumes "n < (128::u64)"
  shows "(ucast n :: u8) < 128 \<and> ucast (ucast n :: u8) = n"
proof -
  have u: "unat (ucast n :: u8) = unat n" "unat (ucast (ucast n :: u8) :: u64) = unat n"
    using assms by (simp_all add: unsigned_ucast_eq unsigned_take_bit_eq word_less_nat_alt take_bit_nat_eq_self)
  then show ?thesis using assms by (simp add: word_less_nat_alt word_eq_iff_unsigned [where 'a = nat])
qed

lemma leb_high: "\<not> ((ucast (n AND 127) OR 128 :: u8) < 128)" for n :: u64
proof
  assume "(ucast (n AND 127) OR 128 :: u8) < 128"
  moreover have "bit (ucast (n AND 127) OR 128 :: u8) 7" by (simp add: bit_simps)
  moreover have "\<not> bit (unat w) 7" if "w < 128" for w :: u8
    using that by (simp add: word_less_nat_alt bit_iff_odd)
  ultimately show False by (simp add: bit_unsigned_iff)
qed

lemma leb_split: "ucast ((ucast (n AND 127) OR 128 :: u8) AND 127) OR push_bit 7 (drop_bit 7 n) = n" for n :: u64
proof (rule bit_word_eqI)
  fix i assume i: "i < LENGTH(64)"
  have mask: "(127::u64) = mask 7" "(127::u8) = mask 7" by (simp_all add: mask_eq_exp_minus_1)
  have "(128::u8) = push_bit 7 1" by simp
  then have low: "\<not> bit (128::u8) i" if "i < 7" using that by (simp only: bit_push_bit_iff) simp
  show "bit (ucast ((ucast (n AND 127) OR 128 :: u8) AND 127) OR push_bit 7 (drop_bit 7 n)) i = bit n i"
    unfolding mask using i low by (cases "i < 7") (auto simp: bit_simps)
qed

lemma leb_roundtrip:
  "drop_bit (7 * k) n < 128 \<Longrightarrow> length (leb_enc k n) \<le> Suc k \<and> leb_dec (leb_enc k n @ rest) = Some (n, length (leb_enc k n))"
proof (induction k arbitrary: n)
  case (Suc k)
  then show ?case
    using leb_byte [of n] leb_high [of n] leb_split [of n] Suc.IH [of "drop_bit 7 n"]
    by (auto simp: add.commute)
qed (use leb_byte in simp)

lemma leb128_ok: "varint_ok (leb_enc 9) leb_dec"
proof -
  have "drop_bit (7 * 9) n < 128" for n :: u64
  proof -
    have "unat n < 2 ^ LENGTH(64)" by (rule unsigned_less)
    then have "unat n div 2 ^ 63 < 128" by (simp add: less_mult_imp_div_less)
    then have "unat (drop_bit 63 n) < 128" unfolding unat_drop_bit_eq by (simp add: drop_bit_eq_div)
    then show ?thesis by (simp add: word_less_nat_alt)
  qed
  then show ?thesis using leb_roundtrip [of 9] by (auto simp: varint_ok_def)
qed

lemma leb_length: "unat n < 2 ^ (7 * Suc m) \<Longrightarrow> length (leb_enc k n) \<le> Suc m"
proof (induction k arbitrary: n m)
  case (Suc k)
  show ?case
  proof (cases "n < 128")
    case False
    then have "128 \<le> unat n" by (simp add: word_less_nat_alt)
    then obtain m' where m: "m = Suc m'" using Suc.prems by (cases m) simp_all
    have "unat n < 2 ^ (7 * Suc m') * 128" using Suc.prems m by (simp add: power_add)
    then have "unat n div 128 < 2 ^ (7 * Suc m')" by (rule less_mult_imp_div_less)
    moreover have "unat (drop_bit 7 n) = unat n div 128" unfolding unat_drop_bit_eq by (simp add: drop_bit_eq_div)
    ultimately show ?thesis using Suc.IH [of "drop_bit 7 n" m'] False m by simp
  qed simp
qed simp

lemma leb128_short: "varint_short (leb_enc 9)"
  unfolding varint_short_def using leb_length by blast

lemma varint_shortD: "varint_short enc_var \<Longrightarrow> unat n < 2 ^ (7 * Suc m) \<Longrightarrow> length (enc_var n) \<le> Suc m"
  by (simp add: varint_short_def)

section \<open>Properties\<close>

text \<open>C30. The integer encoder always succeeds, and decoding its block into an empty vector returns the
  values that were encoded, in every block format and whatever the differences are. The one exception
  is a build with overflow checks: when the block is bit-packed and two neighbours are further apart
  than \<open>i64\<close> reaches, the encoder has stored the wrapped difference but \<open>next += \<dots>\<close> of the
  decoder panics.\<close>

theorem integer_roundtrip:
  assumes "varint_ok enc_var dec_var" and "length src < 2 ^ 64"
  shows "\<exists>bytes. integer_encode enc_var src = Inr (Inr (), bytes) \<and>
    (\<forall>checks. integer_decode dec_var checks bytes [] =
      (if checks \<and> packs src \<and> \<not> no_wrap (hd src) (tl src) then Inl (Panic ''attempt to add with overflow'')
       else Inr (Inr (), src)))"
  using integer_encode_decode [OF assms] by blast

lemma wrap_example: "packs [0x7fffffffffffffff, 0x8000000000000000]" "\<not> no_wrap 0x7fffffffffffffff [0x8000000000000000]"
  by (simp_all add: packs_def zig_zag_encode_def max_value_def fits_step_def)

theorem integer_roundtrip_witness:
  "(\<exists>bytes. integer_encode (leb_enc 9) [0x7fffffffffffffff, 0x8000000000000000] = Inr (Inr (), bytes) \<and>
     integer_decode leb_dec False bytes [] = Inr (Inr (), [0x7fffffffffffffff, 0x8000000000000000]) \<and>
     integer_decode leb_dec True bytes [] = Inl (Panic ''attempt to add with overflow'')) \<and>
   (\<exists>bytes. integer_encode (leb_enc 9) [3, 5, 7, 9] = Inr (Inr (), bytes) \<and>
     integer_decode leb_dec True bytes [] = Inr (Inr (), [3, 5, 7, 9]))"
proof
  show "\<exists>bytes. integer_encode (leb_enc 9) [0x7fffffffffffffff, 0x8000000000000000] = Inr (Inr (), bytes) \<and>
     integer_decode leb_dec False bytes [] = Inr (Inr (), [0x7fffffffffffffff, 0x8000000000000000]) \<and>
     integer_decode leb_dec True bytes [] = Inl (Panic ''attempt to add with overflow'')"
    using integer_roundtrip [OF leb128_ok, of "[0x7fffffffffffffff, 0x8000000000000000]"] wrap_example by auto
  have "no_wrap 3 [5, 7, 9]" by (simp add: fits_step_def)
  then show "\<exists>bytes. integer_encode (leb_enc 9) [3, 5, 7, 9] = Inr (Inr (), bytes) \<and>
     integer_decode leb_dec True bytes [] = Inr (Inr (), [3, 5, 7, 9])"
    using integer_roundtrip [OF leb128_ok, of "[3, 5, 7, 9]"] by auto
qed

text \<open>C34. \<open>decode\<close> appends to its destination, but the packed decoder continues from \<open>dst[0]\<close>
  instead of from the value it has just pushed: decoding a packed block into a vector that already
  holds values appends the first value and then every other value shifted by the difference of the old
  first element and the first value of the block.\<close>

theorem integer_decode_nonempty:
  assumes "varint_ok enc_var dec_var" and "packs src" and "dst \<noteq> []"
  shows "\<exists>bytes. integer_encode enc_var src = Inr (Inr (), bytes) \<and>
    integer_decode dec_var False bytes dst =
      Inr (Inr (), dst @ hd src # map (\<lambda>v. v + (hd dst - hd src)) (tl src))"
proof -
  have "(dst @ [hd src]) ! 0 = hd src + (hd dst - hd src)" using assms(3) by (cases dst) simp_all
  then show ?thesis
    using integer_decode_packs [OF assms(1,2)]
      sum_loop_wrapping [of zig_zag_decode zig_zag_encode "hd src" "tl src" "hd dst - hd src" "dst @ [hd src]"] by auto
qed

theorem integer_decode_nonempty_witness:
  "\<exists>bytes. integer_encode (leb_enc 9) [10, 12] = Inr (Inr (), bytes) \<and>
    integer_decode leb_dec False bytes [1] = Inr (Inr (), [1, 10, 3])"
proof -
  have "packs [10, 12]" by (simp add: packs_def zig_zag_encode_def max_value_def)
  then show ?thesis using integer_decode_nonempty [OF leb128_ok, of "[10, 12]" "[1]"] by simp
qed

text \<open>C35. The unsigned encoder always succeeds; what its decoder does with the block, with and without
  overflow checks. Nothing is decoded from the block of no values, and the destination is left as it is.
  Otherwise the encoded values are returned when the capacity of the destination does not exceed their
  number. On a vector that is large enough already the decoder panics, since it asks for
  \<open>len - capacity\<close> further elements. With overflow checks it also panics where the integer decoder
  does, on a bit-packed block with neighbours further apart than \<open>i64\<close> reaches.\<close>

theorem unsigned_roundtrip:
  assumes "varint_ok enc_var dec_var" and "length src < 2 ^ 64"
  shows "\<exists>bytes. unsigned_encode enc_var src = Inr (Inr (), bytes) \<and>
    (\<forall>checks cap dst. unsigned_decode dec_var checks cap bytes dst =
      (if src = [] then Inr (Inr (), dst)
       else if checks \<and> packs src \<and> \<not> no_wrap (hd src) (tl src) then Inl (Panic ''attempt to add with overflow'')
       else if cap \<le> length src then Inr (Inr (), src)
       else Inl (Panic (if checks then ''attempt to subtract with overflow'' else ''capacity overflow''))))"
proof -
  obtain bytes where b: "integer_encode enc_var src = Inr (Inr (), bytes)" "src \<noteq> [] \<Longrightarrow> bytes \<noteq> []"
    "\<And>checks. integer_decode dec_var checks bytes [] =
      (if checks \<and> packs src \<and> \<not> no_wrap (hd src) (tl src) then Inl (Panic ''attempt to add with overflow'')
       else Inr (Inr (), src))"
    using integer_encode_decode [OF assms] by blast
  show ?thesis
  proof (cases "src = []")
    case True
    then show ?thesis by (simp add: unsigned_encode_def unsigned_decode_def integer_encode_def)
  next
    case False
    then show ?thesis using b(1,2) by (intro exI [of _ bytes]) (simp add: unsigned_encode_def unsigned_decode_def b(3))
  qed
qed

theorem unsigned_roundtrip_witness:
  "(\<exists>bytes. unsigned_encode (leb_enc 9) [10, 12] = Inr (Inr (), bytes) \<and>
     unsigned_decode leb_dec True 0 bytes [] = Inr (Inr (), [10, 12]) \<and>
     unsigned_decode leb_dec False 4 bytes [] = Inl (Panic ''capacity overflow'')) \<and>
   (\<exists>bytes. unsigned_encode (leb_enc 9) [0x7fffffffffffffff, 0x8000000000000000] = Inr (Inr (), bytes) \<and>
     unsigned_decode leb_dec True 0 bytes [] = Inl (Panic ''attempt to add with overflow'') \<and>
     unsigned_decode leb_dec False 0 bytes [] = Inr (Inr (), [0x7fffffffffffffff, 0x8000000000000000]))"
proof
  have "no_wrap 10 [12]" by (simp add: fits_step_def)
  then show "\<exists>bytes. unsigned_encode (leb_enc 9) [10, 12] = Inr (Inr (), bytes) \<and>
     unsigned_decode leb_dec True 0 bytes [] = Inr (Inr (), [10, 12]) \<and>
     unsigned_decode leb_dec False 4 bytes [] = Inl (Panic ''capacity overflow'')"
    using unsigned_roundtrip [OF leb128_ok, of "[10, 12]"] by auto
  show "\<exists>bytes. unsigned_encode (leb_enc 9) [0x7fffffffffffffff, 0x8000000000000000] = Inr (Inr (), bytes) \<and>
     unsigned_decode leb_dec True 0 bytes [] = Inl (Panic ''attempt to add with overflow'') \<and>
     unsigned_decode leb_dec False 0 bytes [] = Inr (Inr (), [0x7fffffffffffffff, 0x8000000000000000])"
    using unsigned_roundtrip [OF leb128_ok, of "[0x7fffffffffffffff, 0x8000000000000000]"] wrap_example by auto
qed

end
