(* ===== verification/Tsm_Timestamp.thy ===== *)
theory Tsm_Timestamp
  imports Tsm_Integer
begin

text \<open>
  \<open>influxdb_tsm/src/encoders/timestamp.rs\<close>: deltas, their largest common power of ten, then run-length
  encoding, simple8b or raw words.
\<close>

section \<open>Divisors\<close>

text \<open>\<open>while div > 1 && delta % div != 0 { div /= 10; }\<close>\<close>

function reduce_div :: "u64 \<Rightarrow> u64 \<Rightarrow> u64" where
  "reduce_div delta d = (if 1 < d \<and> delta mod d \<noteq> 0 then reduce_div delta (d div 10) else d)"
  by pat_completeness auto
termination
proof (relation "measure (\<lambda>(delta, d). unat d)", goal_cases)
  case (2 delta d)
  then have "0 < unat d" by (simp add: word_less_nat_alt)
  then show ?case by (simp add: unat_div_distrib)
qed simp

declare reduce_div.simps [simp del]

fun find_div :: "u64 list \<Rightarrow> u64 \<Rightarrow> u64" where
  "find_div [] d = d"
| "find_div (delta # deltas) d = (if d \<le> 1 then d else find_div deltas (reduce_div delta d))"

text \<open>\<open>(div as f64).log10() as u8\<close>, the integer part of the decimal logarithm.\<close>

function log10_u8 :: "u64 \<Rightarrow> u8" where
  "log10_u8 d = (if d < 10 then 0 else log10_u8 (d div 10) + 1)"
  by pat_completeness auto
termination
proof (relation "measure unat", goal_cases)
  case (2 d)
  then have "0 < unat d" by (simp add: word_less_nat_alt)
  then show ?case by (simp add: unat_div_distrib)
qed simp

declare log10_u8.simps [simp del]

definition mul_u64 :: "bool \<Rightarrow> u64 \<Rightarrow> u64 \<Rightarrow> u64 res" where
  "mul_u64 checks a b = assert_res (checks \<longrightarrow> unat a * unat b < 2 ^ 64) ''attempt to multiply with overflow'' (Inr (a * b))"

section \<open>The timestamp encoder\<close>

definition start_div :: u64 where
  "start_div = 1000000000000"

definition timestamp_encode_rle :: "(u64 \<Rightarrow> u8 list) \<Rightarrow> u64 \<Rightarrow> u64 \<Rightarrow> u64 \<Rightarrow> u8 list \<Rightarrow> u8 list res" where
  "timestamp_encode_rle enc_var v delta cnt dst =
    (let dst = dst @ [0] @ to_be_bytes v; n = 9;
         d = reduce_div delta start_div;
         dst = (if length dst \<le> n + max_var_int_64 then resize_to (n + max_var_int_64) dst else dst) in
     bind_res
       (if 1 < d then
          let scaler = log10_u8 d in
          assert_res (scaler \<le> 15) ''assertion failed: scaler <= 15''
            (bind_res (write_at n (enc_var (delta div d)) (dst[0 := dst ! 0 OR scaler])) (\<lambda>dst.
               Inr (dst, n + length (enc_var (delta div d)))))
        else bind_res (write_at n (enc_var delta) dst) (\<lambda>dst. Inr (dst, n + length (enc_var delta))))
       (\<lambda>(dst, n).
         let dst = (if length dst - n \<le> max_var_int_64 then resize_to (n + max_var_int_64) dst else dst) in
         bind_res (write_at n (enc_var cnt) dst) (\<lambda>dst. Inr (take (n + length (enc_var cnt)) dst))))"

definition timestamp_encode :: "(u64 \<Rightarrow> u8 list) \<Rightarrow> u64 list \<Rightarrow> ((string + unit) \<times> u8 list) res" where
  "timestamp_encode enc_var src =
    (if src = [] then Inr (Inr (), [])
     else
       let (deltas, mx) = (if 1 < length src then delta_loop (\<lambda>x. x) (length src - 1) src 0 else (src, 0)) in
       if 1 < length src \<and> all_deltas_equal deltas then
         bind_res (timestamp_encode_rle enc_var (deltas ! 0) (deltas ! 1) (of_nat (length deltas)) []) (\<lambda>dst.
           Inr (Inr (), dst[0 := dst ! 0 OR push_bit 4 2]))
       else if max_value < mx then
         Inr (Inr (), [push_bit 4 0] @ concat (map to_be_bytes deltas))
       else
         let d = find_div (drop 1 deltas) start_div;
             packed = (if 1 < d then map (\<lambda>x. x div d) (drop 1 deltas) else drop 1 deltas) in
         Inr (simple8b_encode packed ([push_bit 4 1 OR log10_u8 d] @ to_be_bytes (deltas ! 0))))"

section \<open>The timestamp decoder\<close>

definition timestamp_decode_uncompressed :: "bool \<Rightarrow> u8 list \<Rightarrow> u64 list \<Rightarrow> ((string + unit) \<times> u64 list) res" where
  "timestamp_decode_uncompressed checks src dst =
    (if src = [] \<or> length src mod 8 \<noteq> 0 then Inr (Inl ''invalid uncompressed block length'', dst)
     else bind_res (uncompressed_loop (add_i64 checks) src 0 dst) (\<lambda>dst. Inr (Inr (), dst)))"

fun timestamp_rle_loop :: "nat \<Rightarrow> u64 \<Rightarrow> u64 \<Rightarrow> u64 list \<Rightarrow> u64 list" where
  "timestamp_rle_loop 0 first delta dst = dst"
| "timestamp_rle_loop (Suc k) first delta dst = timestamp_rle_loop k (first + delta) delta (dst @ [first])"

definition scaler_of :: "u8 \<Rightarrow> u64" where
  "scaler_of b = 10 ^ unat (b AND 15)"

definition timestamp_decode_rle :: "(u8 list \<Rightarrow> (u64 \<times> nat) option) \<Rightarrow> bool \<Rightarrow> u8 list \<Rightarrow> u64 list \<Rightarrow>
    ((string + unit) \<times> u64 list) res" where
  "timestamp_decode_rle dec_var checks src dst =
    (if length src < 9 then Inr (Inl ''not enough data to decode using RLE'', dst)
     else case dec_var (drop 9 src) of
       None \<Rightarrow> Inr (Inl ''unable to decode delta'', dst)
     | Some (delta, n) \<Rightarrow>
         bind_res (mul_u64 checks delta (scaler_of (src ! 0))) (\<lambda>delta.
         assert_res (9 + n \<le> length src) ''range start index out of range''
         (case dec_var (drop (9 + n) src) of
            None \<Rightarrow> Inr (Inl ''unable to decode count'', dst)
          | Some (cnt, _) \<Rightarrow>
              Inr (Inr (), timestamp_rle_loop (unat cnt) (from_be_bytes (take 8 (drop 1 src))) delta dst))))"

definition timestamp_decode_simple8b :: "bool \<Rightarrow> u8 list \<Rightarrow> u64 list \<Rightarrow> ((string + unit) \<times> u64 list) res" where
  "timestamp_decode_simple8b checks src dst =
    (if length src < 9 then Inr (Inl ''not enough data to decode packed timestamp'', dst)
     else
       let scaler = scaler_of (src ! 0);
           dst = dst @ [from_be_bytes (take 8 (drop 1 src))] in
       bind_res (simple8b_decode (drop 9 src) []) (\<lambda>vs.
       bind_res
         (if 1 < scaler
          then sum_loop (\<lambda>s v. bind_res (mul_u64 checks v scaler) (\<lambda>p. add_i64 checks s p)) vs (dst ! (length dst - 1)) dst
          else sum_loop (add_i64 checks) vs (dst ! (length dst - 1)) dst) (\<lambda>dst.
       Inr (Inr (), dst))))"

definition timestamp_decode :: "(u8 list \<Rightarrow> (u64 \<times> nat) option) \<Rightarrow> bool \<Rightarrow> u8 list \<Rightarrow> u64 list \<Rightarrow>
    ((string + unit) \<times> u64 list) res" where
  "timestamp_decode dec_var checks src dst =
    (if src = [] then Inr (Inr (), dst)
     else let encoding = drop_bit 4 (src ! 0) in
       if encoding = 0 then timestamp_decode_uncompressed checks (drop 1 src) dst
       else if encoding = 2 then timestamp_decode_rle dec_var checks src dst
       else if encoding = 1 then timestamp_decode_simple8b checks src dst
       else Inr (Inl ''invalid block encoding'', dst))"

section \<open>Powers of ten\<close>

lemma unat_pow10: "k \<le> 12 \<Longrightarrow> unat ((10::u64) ^ k) = 10 ^ k"
proof -
  assume "k \<le> 12"
  then have "(10::nat) ^ k \<le> 10 ^ 12" by (intro power_increasing) simp_all
  moreover have "(10::u64) ^ k = of_nat (10 ^ k)" by simp
  ultimately show ?thesis by (simp only: unat_of_nat) simp
qed

lemma pow10_div: "Suc k \<le> 12 \<Longrightarrow> (10::u64) ^ Suc k div 10 = 10 ^ k"
  using unat_pow10 [of "Suc k"] unat_pow10 [of k]
  by (simp only: word_eq_iff_unsigned [where 'a = nat] unat_div_distrib) simp

lemma pow10_gt_1: "Suc k \<le> 12 \<Longrightarrow> 1 < (10::u64) ^ Suc k"
  using unat_pow10 [of "Suc k"] power_strict_increasing [of 0 "Suc k" "10::nat"]
  unfolding word_less_nat_alt by simp

lemma pow10_mod: "k \<le> 12 \<Longrightarrow> x mod (10::u64) ^ k = 0 \<longleftrightarrow> 10 ^ k dvd unat x"
  by (simp only: word_eq_iff_unsigned [where 'a = nat] unat_mod_distrib unat_pow10 unsigned_0 mod_eq_0_iff_dvd)

lemma reduce_div_pow10: "k \<le> 12 \<Longrightarrow> \<exists>j \<le> k. reduce_div x (10 ^ k) = 10 ^ j \<and> 10 ^ j dvd unat x"
proof (induction k)
  case 0
  then show ?case by (simp add: reduce_div.simps)
next
  case (Suc k)
  show ?case
  proof (cases "10 ^ Suc k dvd unat x")
    case True
    then have "reduce_div x (10 ^ Suc k) = 10 ^ Suc k" using pow10_mod [OF Suc.prems, of x]
      by (subst reduce_div.simps) (simp only: simp_thms if_False not_False_eq_True)
    then show ?thesis using True by blast
  next
    case False
    then have "reduce_div x (10 ^ Suc k) = reduce_div x (10 ^ k)"
      using pow10_mod [OF Suc.prems, of x] pow10_gt_1 [OF Suc.prems] pow10_div [OF Suc.prems]
      by (subst reduce_div.simps) (simp only: simp_thms if_True)
    then show ?thesis using Suc by (metis Suc_leD le_SucI)
  qed
qed

lemma find_div_pow10: "k \<le> 12 \<Longrightarrow> \<exists>j \<le> k. find_div xs (10 ^ k) = 10 ^ j \<and> (\<forall>x\<in>set xs. 10 ^ j dvd unat x)"
proof (induction xs arbitrary: k)
  case (Cons x xs)
  show ?case
  proof (cases k)
    case (Suc k')
    obtain i where i: "i \<le> k" "reduce_div x (10 ^ k) = 10 ^ i" "10 ^ i dvd unat x"
      using reduce_div_pow10 [OF Cons.prems] by blast
    obtain j where j: "j \<le> i" "find_div xs (10 ^ i) = 10 ^ j" "\<forall>x\<in>set xs. 10 ^ j dvd unat x"
      using Cons.IH [of i] i(1) Cons.prems by auto
    have "10 ^ j dvd unat x" using i(3) j(1) le_imp_power_dvd dvd_trans by blast
    moreover have "find_div (x # xs) (10 ^ k) = 10 ^ j"
      using i(2) j(2) pow10_gt_1 [of k'] Suc Cons.prems by (simp only: find_div.simps not_le [symmetric] if_False)
    ultimately show ?thesis using i(1) j by (intro exI [of _ j]) auto
  qed simp
qed auto

lemma log10_pow10: "k \<le> 12 \<Longrightarrow> log10_u8 (10 ^ k) = of_nat k"
proof (induction k)
  case 0
  then show ?case by (simp add: log10_u8.simps)
next
  case (Suc k)
  have "\<not> (10::u64) ^ Suc k < 10"
    using unat_pow10 [OF Suc.prems] unfolding word_less_nat_alt by simp
  then show ?case using pow10_div [OF Suc.prems] Suc by (subst log10_u8.simps) simp
qed

lemma header_bytes:
  assumes "k \<le> 12"
  shows "drop_bit 4 (16 OR of_nat k :: u8) = 1" "drop_bit 4 (of_nat k OR 32 :: u8) = 2"
    "scaler_of (16 OR of_nat k) = 10 ^ k" "scaler_of (of_nat k OR 32) = 10 ^ k" "(of_nat k :: u8) \<le> 15"
proof -
  have "k \<in> {0, 1, 2, 3, 4, 5, 6, 7, 8, 9, 10, 11, 12}" using assms unfolding insert_iff empty_iff by presburger
  then show "drop_bit 4 (16 OR of_nat k :: u8) = 1" "drop_bit 4 (of_nat k OR 32 :: u8) = 2"
    "scaler_of (16 OR of_nat k) = 10 ^ k" "scaler_of (of_nat k OR 32) = 10 ^ k" "(of_nat k :: u8) \<le> 15"
    by (auto simp: scaler_of_def)
qed

section \<open>Round trip\<close>

abbreviation id_diffs :: "u64 \<Rightarrow> u64 list \<Rightarrow> u64 list" where
  "id_diffs a bs \<equiv> neighbour_diffs (\<lambda>x. x) a bs"

lemma start_div_pow10: "start_div = 10 ^ 12"
  by (simp add: start_div_def)

lemma mul_div_pow10:
  assumes "k \<le> 12" and "10 ^ k dvd unat x"
  shows "mul_u64 checks (x div 10 ^ k) (10 ^ k) = Inr x"
proof -
  have u: "unat (x div 10 ^ k) * unat ((10::u64) ^ k) = unat x"
    using assms by (simp only: unat_div_distrib unat_pow10) simp
  have "unat x < 2 ^ LENGTH(64)" by (rule unsigned_less)
  moreover have "(x div 10 ^ k) * 10 ^ k = x"
    using u calculation by (simp only: word_eq_iff_unsigned [where 'a = nat] unat_word_ariths) simp
  ultimately show ?thesis using u by (simp add: mul_u64_def)
qed

lemma sum_loop_scaled:
  assumes "k \<le> 12"
  shows "\<forall>x\<in>set xs. 10 ^ k dvd unat x \<Longrightarrow>
    sum_loop (\<lambda>s v. bind_res (mul_u64 checks v (10 ^ k)) (\<lambda>p. add_i64 checks s p)) (map (\<lambda>x. x div 10 ^ k) xs) s dst =
    sum_loop (add_i64 checks) xs s dst"
proof (induction xs arbitrary: s dst)
  case (Cons x xs)
  have "mul_u64 checks (x div 10 ^ k) (10 ^ k) = Inr x" using Cons.prems by (intro mul_div_pow10 assms) simp
  then show ?case using Cons by simp
qed simp

lemma timestamp_encode_rle_bytes:
  assumes "varint_ok enc_var dec_var"
  shows "\<exists>j \<le> 12. 10 ^ j dvd unat d \<and>
    timestamp_encode_rle enc_var v d c [] = Inr (of_nat j # to_be_bytes v @ enc_var (d div 10 ^ j) @ enc_var c)"
proof -
  obtain j where j: "j \<le> 12" "reduce_div d start_div = 10 ^ j" "10 ^ j dvd unat d"
    using reduce_div_pow10 [of 12 d] by (auto simp: start_div_pow10)
  note len = varint_okD(1) [OF assms, of "d div 10 ^ j"] varint_okD(1) [OF assms, of c] varint_okD(1) [OF assms, of d]
  show ?thesis
  proof (cases j)
    case 0
    then show ?thesis using j len
      by (intro exI [of _ 0])
        (simp add: timestamp_encode_rle_def resize_to_def write_at_def max_var_int_64_def Let_def take_Cons')
  next
    case (Suc i)
    then have gt: "1 < (10::u64) ^ j" using pow10_gt_1 [of i] j(1) by simp
    show ?thesis using j len gt log10_pow10 [OF j(1)] header_bytes(5) [OF j(1)]
      by (intro exI [of _ j])
        (simp add: timestamp_encode_rle_def resize_to_def write_at_def max_var_int_64_def Let_def take_Cons')
  qed
qed

definition constant_step :: "u64 list \<Rightarrow> bool" where
  "constant_step src \<longleftrightarrow> 2 \<le> length src \<and> (\<forall>d\<in>set (id_diffs (hd src) (tl src)). d = hd (id_diffs (hd src) (tl src)))"

lemma timestamp_rle_loop_append: "timestamp_rle_loop (Suc k) x d dst = rle_loop k x d (dst @ [x])"
proof (induction k arbitrary: x dst)
  case (Suc k)
  have "timestamp_rle_loop (Suc (Suc k)) x d dst = timestamp_rle_loop (Suc k) (x + d) d (dst @ [x])"
    by (rule timestamp_rle_loop.simps)
  also have "\<dots> = rle_loop k (x + d) d ((dst @ [x]) @ [x + d])" by (rule Suc.IH)
  finally show ?case by simp
qed simp

lemma timestamp_decode_rle_shape:
  assumes ok: "varint_ok enc_var dec_var" and len: "Suc (length bs) < 2 ^ 64"
    and const: "\<forall>d\<in>set (id_diffs a bs). d = d0" and j: "j \<le> 12" "10 ^ j dvd unat d0"
  shows "timestamp_decode dec_var checks
      ((of_nat j OR 32) # to_be_bytes a @ enc_var (d0 div 10 ^ j) @ enc_var (of_nat (Suc (length bs)))) dst =
    Inr (Inr (), dst @ a # bs)"
proof -
  have "timestamp_rle_loop (Suc (length bs)) a d0 dst = dst @ a # bs"
    using constant_diffs [OF const] by (simp only: timestamp_rle_loop_append rle_loop_append) simp
  moreover have "unat (of_nat (Suc (length bs)) :: u64) = Suc (length bs)" using len by (simp only: unat_of_nat) simp
  ultimately show ?thesis
    using header_bytes(2,4) [OF j(1)] mul_div_pow10 [OF j]
    by (simp add: timestamp_decode_def timestamp_decode_rle_def varint_okD [OF ok] drop_Cons' del: of_nat_Suc timestamp_rle_loop.simps)
qed

lemma timestamp_decode_uncompressed_shape:
  "timestamp_decode dec_var checks ([0] @ to_be_bytes a @ concat (map to_be_bytes (id_diffs a bs))) dst =
    (if checks \<and> \<not> no_wrap a bs then Inl (Panic ''attempt to add with overflow'') else Inr (Inr (), dst @ a # bs))"
proof -
  have "length (concat (map to_be_bytes ws)) = 8 * length ws" for ws by (induction ws) simp_all
  moreover have "add_i64 checks 0 a = Inr a" using sint_u64 [of a] by (simp add: add_i64_def)
  ultimately show ?thesis
    using uncompressed_loop_diffs [of "\<lambda>x. x" "\<lambda>x. x" checks a bs "dst @ [a]"]
    unfolding timestamp_decode_def timestamp_decode_uncompressed_def
    by (subst uncompressed_loop.simps) simp
qed

lemma timestamp_decode_packed_shape:
  assumes j: "j \<le> 12" "\<forall>x\<in>set (id_diffs a bs). 10 ^ j dvd unat x"
    and "\<forall>buf. simple8b_decode bytes buf = Inr (map (\<lambda>x. x div 10 ^ j) (id_diffs a bs))"
  shows "timestamp_decode dec_var checks ((16 OR of_nat j) # to_be_bytes a @ bytes) dst =
    (if checks \<and> \<not> no_wrap a bs then Inl (Panic ''attempt to add with overflow'') else Inr (Inr (), dst @ a # bs))"
proof -
  note sums = sum_loop_diffs [of "\<lambda>x. x" "\<lambda>x. x" checks a bs "dst @ [a]"]
  have "map (\<lambda>x. x div 10 ^ j) (id_diffs a bs) = id_diffs a bs" if "\<not> 1 < (10::u64) ^ j"
    using that pow10_gt_1 [of "j - 1"] j(1) by (cases j) simp_all
  then have scaled: "(if 1 < (10::u64) ^ j
      then sum_loop (\<lambda>s v. bind_res (mul_u64 checks v (10 ^ j)) (\<lambda>p. add_i64 checks s p)) (map (\<lambda>x. x div 10 ^ j) (id_diffs a bs)) a (dst @ [a])
      else sum_loop (add_i64 checks) (map (\<lambda>x. x div 10 ^ j) (id_diffs a bs)) a (dst @ [a])) =
    sum_loop (add_i64 checks) (id_diffs a bs) a (dst @ [a])" (is "?sums = _")
    using sum_loop_scaled [OF j] by simp
  have "timestamp_decode dec_var checks ((16 OR of_nat j) # to_be_bytes a @ bytes) dst = bind_res ?sums (\<lambda>r. Inr (Inr (), r))"
    using assms(3) header_bytes(1,3) [OF j(1)]
    by (simp add: timestamp_decode_def timestamp_decode_simple8b_def Let_def drop_Cons')
  then show ?thesis unfolding scaled using sums by (cases "checks \<longrightarrow> no_wrap a bs") simp_all
qed

lemma timestamp_packed:
  assumes "\<forall>d\<in>set (id_diffs a bs). d \<le> max_value"
  shows "\<exists>bytes. (let d = find_div (id_diffs a bs) start_div;
        packed = (if 1 < d then map (\<lambda>x. x div d) (id_diffs a bs) else id_diffs a bs) in
      simple8b_encode packed ([16 OR log10_u8 d] @ to_be_bytes a)) = (Inr (), bytes) \<and>
    (\<forall>checks dst. timestamp_decode dec_var checks bytes dst =
      (if checks \<and> \<not> no_wrap a bs then Inl (Panic ''attempt to add with overflow'') else Inr (Inr (), dst @ a # bs)))"
proof -
  obtain j where j: "j \<le> 12" "\<forall>x\<in>set (id_diffs a bs). 10 ^ j dvd unat x" and d: "find_div (id_diffs a bs) start_div = 10 ^ j"
    using find_div_pow10 [of 12 "id_diffs a bs"] by (auto simp: start_div_pow10)
  let ?packed = "map (\<lambda>x. x div 10 ^ j) (id_diffs a bs)"
  have packed: "(if 1 < (10::u64) ^ j then ?packed else id_diffs a bs) = ?packed"
    using pow10_gt_1 [of "j - 1"] j(1) by (cases j) simp_all
  have "\<forall>v\<in>set ?packed. v \<le> max_value"
    using assms by (auto simp: word_le_nat_alt unat_div_distrib intro: le_trans [OF div_le_dividend])
  then obtain bytes where "simple8b_encode ?packed ((16 OR of_nat j) # to_be_bytes a) = (Inr (), ((16 OR of_nat j) # to_be_bytes a) @ bytes)"
    and dec: "\<forall>buf. simple8b_decode bytes buf = Inr ?packed"
    using simple8b_encode_decode by blast
  then show ?thesis
    using packed d log10_pow10 [OF j(1)] timestamp_decode_packed_shape [OF j dec, of dec_var] by (simp add: Let_def)
qed

lemma timestamp_encode_decode:
  assumes ok: "varint_ok enc_var dec_var" and len: "length src < 2 ^ 64"
  shows "\<exists>bytes. timestamp_encode enc_var src = Inr (Inr (), bytes) \<and>
    (\<forall>checks dst. timestamp_decode dec_var checks bytes dst =
      (if checks \<and> \<not> constant_step src \<and> src \<noteq> [] \<and> \<not> no_wrap (hd src) (tl src)
       then Inl (Panic ''attempt to add with overflow'') else Inr (Inr (), dst @ src)))"
proof (cases src)
  case (Cons a bs)
  obtain m where loop: "(if 1 < length src then delta_loop (\<lambda>x. x) (length src - 1) src 0 else (src, 0)) = (a # id_diffs a bs, m)"
    and mx: "max_value < m \<longleftrightarrow> \<not> (\<forall>d\<in>set (id_diffs a bs). d \<le> max_value)"
  proof (cases bs)
    case Nil
    then show thesis using that [of 0] Cons by (simp add: max_value_def)
  next
    case (Cons b cs)
    show thesis
      using that [of "snd (delta_loop (\<lambda>x. x) (length bs) (a # bs) 0)"] delta_loop_diffs [of "\<lambda>x. x" bs a 0] \<open>src = a # bs\<close> Cons
      by (auto simp: not_le [symmetric] prod_eq_iff simp del: delta_loop.simps)
  qed
  have step: "constant_step src \<longleftrightarrow> 1 < length src \<and> all_deltas_equal (a # id_diffs a bs)"
    using Cons by (cases bs) (auto simp: constant_step_def all_deltas_equal_def list_all_iff)
  have enc: "timestamp_encode enc_var src =
    (if constant_step src then
       bind_res (timestamp_encode_rle enc_var a (id_diffs a bs ! 0) (of_nat (length src)) []) (\<lambda>dst.
         Inr (Inr (), dst[0 := dst ! 0 OR 32]))
     else if max_value < m then Inr (Inr (), [0] @ to_be_bytes a @ concat (map to_be_bytes (id_diffs a bs)))
     else let d = find_div (id_diffs a bs) start_div;
              packed = (if 1 < d then map (\<lambda>x. x div d) (id_diffs a bs) else id_diffs a bs) in
         Inr (simple8b_encode packed ([16 OR log10_u8 d] @ to_be_bytes a)))"
    unfolding timestamp_encode_def step loop using Cons by (simp add: Let_def)
  show ?thesis
  proof (cases "constant_step src")
    case True
    then have const: "\<forall>d\<in>set (id_diffs a bs). d = id_diffs a bs ! 0"
      using Cons by (cases bs) (auto simp: constant_step_def)
    obtain j where j: "j \<le> 12" "10 ^ j dvd unat (id_diffs a bs ! 0)"
      and "timestamp_encode_rle enc_var a (id_diffs a bs ! 0) (of_nat (length src)) [] =
        Inr (of_nat j # to_be_bytes a @ enc_var (id_diffs a bs ! 0 div 10 ^ j) @ enc_var (of_nat (length src)))"
      using timestamp_encode_rle_bytes [OF ok] by blast
    then show ?thesis
      using enc True timestamp_decode_rle_shape [OF ok _ const j] Cons len by simp
  next
    case False
    show ?thesis
    proof (cases "max_value < m")
      case True
      then show ?thesis using enc False timestamp_decode_uncompressed_shape [of dec_var _ a bs] Cons by simp
    next
      case small: False
      then obtain bytes where b: "(let d = find_div (id_diffs a bs) start_div;
            packed = (if 1 < d then map (\<lambda>x. x div d) (id_diffs a bs) else id_diffs a bs) in
          simple8b_encode packed ([16 OR log10_u8 d] @ to_be_bytes a)) = (Inr (), bytes)"
        and dec: "\<forall>checks dst. timestamp_decode dec_var checks bytes dst =
          (if checks \<and> \<not> no_wrap a bs then Inl (Panic ''attempt to add with overflow'') else Inr (Inr (), dst @ a # bs))"
        using mx timestamp_packed [of a bs dec_var] by blast
      have "timestamp_encode enc_var src = Inr (Inr (), bytes)" using enc False small b by (simp add: Let_def)
      then show ?thesis using dec False Cons by (intro exI [of _ bytes]) simp
    qed
  qed
qed (simp add: timestamp_encode_def timestamp_decode_def)

section \<open>Properties\<close>

text \<open>C31. The timestamp encoder always succeeds and decoding appends the encoded timestamps to the
  destination, in all three block formats and with every power of ten as the divisor. In a build with
  overflow checks the decoder panics exactly when the steps are not all equal and two neighbours are
  further apart than \<open>i64\<close> reaches.\<close>

theorem timestamp_roundtrip:
  assumes "varint_ok enc_var dec_var" and "length src < 2 ^ 64"
  shows "\<exists>bytes. timestamp_encode enc_var src = Inr (Inr (), bytes) \<and>
    (\<forall>checks dst. timestamp_decode dec_var checks bytes dst =
      (if checks \<and> \<not> constant_step src \<and> src \<noteq> [] \<and> \<not> no_wrap (hd src) (tl src)
       then Inl (Panic ''attempt to add with overflow'') else Inr (Inr (), dst @ src)))"
  by (rule timestamp_encode_decode [OF assms])

theorem timestamp_roundtrip_witness:
  "(\<exists>bytes. timestamp_encode (leb_enc 9) [5, 1005, 3005] = Inr (Inr (), bytes) \<and>
     timestamp_decode leb_dec True bytes [1] = Inr (Inr (), [1, 5, 1005, 3005])) \<and>
   (\<exists>bytes. timestamp_encode (leb_enc 9) [0x7fffffffffffffff, 0x8000000000000000, 0x8000000000000002] = Inr (Inr (), bytes) \<and>
     timestamp_decode leb_dec True bytes [] = Inl (Panic ''attempt to add with overflow''))"
proof
  have "no_wrap 5 [1005, 3005]" by (simp add: fits_step_def)
  then show "\<exists>bytes. timestamp_encode (leb_enc 9) [5, 1005, 3005] = Inr (Inr (), bytes) \<and>
     timestamp_decode leb_dec True bytes [1] = Inr (Inr (), [1, 5, 1005, 3005])"
    using timestamp_roundtrip [OF leb128_ok, of "[5, 1005, 3005]"] by auto
  have "\<not> constant_step [0x7fffffffffffffff, 0x8000000000000000, 0x8000000000000002]"
    "\<not> no_wrap 0x7fffffffffffffff [0x8000000000000000, 0x8000000000000002]"
    by (simp_all add: constant_step_def fits_step_def)
  then show "\<exists>bytes. timestamp_encode (leb_enc 9) [0x7fffffffffffffff, 0x8000000000000000, 0x8000000000000002] = Inr (Inr (), bytes) \<and>
     timestamp_decode leb_dec True bytes [] = Inl (Panic ''attempt to add with overflow'')"
    using timestamp_roundtrip [OF leb128_ok, of "[0x7fffffffffffffff, 0x8000000000000000, 0x8000000000000002]"] by auto
qed

end
