(* ===== verification/Tsm_Boolean.thy ===== *)
theory Tsm_Boolean
  imports Tsm_Integer
begin

text \<open>
  \<open>influxdb_tsm/src/encoders/boolean.rs\<close>: one bit per value, behind a header and the number of values.
\<close>

section \<open>The boolean encoder\<close>

definition bool_header :: u8 where
  "bool_header = push_bit 4 1"

text \<open>The loop over the values: \<open>n\<close> is the bit to write; an index outside of the vector panics.\<close>

fun bool_loop :: "bool list \<Rightarrow> nat \<Rightarrow> u8 list \<Rightarrow> (u8 list \<times> nat) res" where
  "bool_loop [] n dst = Inr (dst, n)"
| "bool_loop (v # vs) n dst =
     assert_res (n div 8 < length dst) ''index out of bounds''
       (bool_loop vs (Suc n)
         (if v then dst[n div 8 := dst ! (n div 8) OR drop_bit (n mod 8) 128]
          else dst[n div 8 := dst ! (n div 8) AND NOT (drop_bit (n mod 8) 128)]))"

definition boolean_encode :: "(u64 \<Rightarrow> u8 list) \<Rightarrow> bool list \<Rightarrow> u8 list res" where
  "boolean_encode enc_var src =
    (if src = [] then Inr []
     else
       let size = 1 + 8 + (length src + 7) div 8;
           dst = (replicate size 0)[0 := bool_header] in
       bind_res (write_at 1 (enc_var (of_nat (length src))) dst) (\<lambda>dst.
       bind_res (bool_loop src (8 + length (enc_var (of_nat (length src))) * 8) dst) (\<lambda>(dst, n).
       Inr (take (n div 8 + (if n mod 8 > 0 then 1 else 0)) dst))))"

section \<open>The boolean decoder\<close>

text \<open>One byte: \<open>i\<close> runs through \<open>128, 64, \<dots>\<close> until it is zero or \<open>count\<close> values are read.\<close>

function bool_byte :: "u8 \<Rightarrow> u8 \<Rightarrow> nat \<Rightarrow> nat \<Rightarrow> bool list \<Rightarrow> nat \<times> bool list" where
  "bool_byte v i j cnt dst =
     (if 0 < i \<and> j < cnt then bool_byte v (drop_bit 1 i) (Suc j) cnt (dst @ [v AND i \<noteq> 0]) else (j, dst))"
  by pat_completeness auto
termination by (relation "measure (\<lambda>(v, i, j, cnt, dst). cnt - j)") auto

declare bool_byte.simps [simp del]

fun bool_bytes :: "u8 list \<Rightarrow> nat \<Rightarrow> nat \<Rightarrow> bool list \<Rightarrow> bool list" where
  "bool_bytes [] j cnt dst = dst"
| "bool_bytes (v # vs) j cnt dst = (case bool_byte v 128 j cnt dst of (j, dst) \<Rightarrow> bool_bytes vs j cnt dst)"

definition boolean_decode :: "(u8 list \<Rightarrow> (u64 \<times> nat) option) \<Rightarrow> u8 list \<Rightarrow> bool list \<Rightarrow> ((string + unit) \<times> bool list) res" where
  "boolean_decode dec_var src dst =
    (if src = [] then Inr (Inr (), dst)
     else assert_res (src ! 0 = bool_header) ''assertion failed: left == right''
       (let src = drop 1 src in
        case dec_var src of
          None \<Rightarrow> Inr (Inl ''boolean decoder: invalid count'', dst)
        | Some (cnt, n) \<Rightarrow>
            assert_res (n \<le> length src) ''range start index out of range''
              (let src = drop n src in
               Inr (Inr (), bool_bytes src 0 (min (length src * 8) (unat cnt)) dst))))"

section \<open>Round trip\<close>

text \<open>Bit \<open>k\<close> of a list of bytes, the most significant bit of a byte first.\<close>

definition bit_at :: "u8 list \<Rightarrow> nat \<Rightarrow> bool" where
  "bit_at bs k = bit (bs ! (k div 8)) (7 - k mod 8)"

lemma bit_drop_128: "bit (drop_bit m 128 :: u8) i \<longleftrightarrow> m \<le> 7 \<and> i = 7 - m"
proof -
  have "(128::u8) = push_bit 7 1" by simp
  then show ?thesis by (simp only: bit_drop_bit_eq bit_push_bit_iff o_def) (auto simp: bit_simps)
qed

lemma bit_at_update:
  assumes "n div 8 < length dst"
  shows "bit_at (if v then dst[n div 8 := dst ! (n div 8) OR drop_bit (n mod 8) 128]
          else dst[n div 8 := dst ! (n div 8) AND NOT (drop_bit (n mod 8) 128)]) k = (if k = n then v else bit_at dst k)"
proof -
  have "7 - k mod 8 = 7 - n mod 8 \<longleftrightarrow> k mod 8 = n mod 8"
    using mod_less_divisor [of 8 k] mod_less_divisor [of 8 n] by linarith
  then have "k div 8 = n div 8 \<and> 7 - k mod 8 = 7 - n mod 8 \<longleftrightarrow> k = n"
    by (metis mult_div_mod_eq)
  moreover have "n mod 8 \<le> 7" "7 - k mod 8 < 8" by simp_all
  ultimately show ?thesis
    using assms by (cases "k div 8 = n div 8") (auto simp: bit_at_def bit_or_iff bit_and_iff bit_not_iff possible_bit_word bit_drop_128)
qed

lemma bool_loop_spec:
  "n + length vs \<le> 8 * length dst \<Longrightarrow> \<exists>dst'. bool_loop vs n dst = Inr (dst', n + length vs) \<and> length dst' = length dst \<and>
    (\<forall>k. bit_at dst' k = (if n \<le> k \<and> k < n + length vs then vs ! (k - n) else bit_at dst k)) \<and>
    (\<forall>q < n div 8. dst' ! q = dst ! q)"
proof (induction vs arbitrary: n dst)
  case (Cons v vs)
  have n: "n div 8 < length dst" using Cons.prems by (simp add: less_mult_imp_div_less)
  define d where "d = (if v then dst[n div 8 := dst ! (n div 8) OR drop_bit (n mod 8) 128]
          else dst[n div 8 := dst ! (n div 8) AND NOT (drop_bit (n mod 8) 128)])"
  have len: "length d = length dst" and bits: "bit_at d k = (if k = n then v else bit_at dst k)" for k
    using bit_at_update [OF n] by (simp_all add: d_def)
  obtain dst' where r: "bool_loop vs (Suc n) d = Inr (dst', Suc n + length vs)" "length dst' = length d"
    "\<And>k. bit_at dst' k = (if Suc n \<le> k \<and> k < Suc n + length vs then vs ! (k - Suc n) else bit_at d k)"
    "\<And>q. q < Suc n div 8 \<Longrightarrow> dst' ! q = d ! q"
    using Cons.IH [of "Suc n" d] Cons.prems len by auto
  have "bit_at dst' k = (if n \<le> k \<and> k < n + length (v # vs) then (v # vs) ! (k - n) else bit_at dst k)" for k
    unfolding r(3) bits by (auto simp: nth_Cons')
  moreover have "dst' ! q = dst ! q" if "q < n div 8" for q
    using r(4) [of q] that div_le_mono [of n "Suc n" 8] by (simp add: d_def)
  ultimately show ?case using r(1,2) n len by (simp add: d_def)
qed auto

lemma drop_128: "s \<le> 7 \<Longrightarrow> drop_bit s 128 = (2 ^ (7 - s) :: u8)"
  by (rule bit_word_eqI) (simp only: bit_drop_128 bit_exp_iff, simp)

lemma bool_byte_bits:
  "s \<le> 8 \<Longrightarrow> bool_byte v (drop_bit s 128) j cnt dst =
     (j + min (8 - s) (cnt - j), dst @ map (\<lambda>t. bit v (7 - t)) [s..<s + min (8 - s) (cnt - j)])"
proof (induction "8 - s" arbitrary: s j dst)
  case 0
  then have "s = 8" by simp
  then show ?case by (subst bool_byte.simps) simp
next
  case (Suc m)
  then have s: "s \<le> 7" "Suc s \<le> 8" "m = 8 - Suc s" by auto
  have mask: "(v AND drop_bit s 128 \<noteq> 0) = bit v (7 - s)"
    unfolding drop_128 [OF s(1)] by (simp add: and_exp_eq_0_iff_not_bit)
  have pos: "0 < drop_bit s (128::u8)"
    unfolding drop_128 [OF s(1)] by (simp add: word_gt_0)
  have shift: "drop_bit 1 (drop_bit s (128::u8)) = drop_bit (Suc s) 128" by simp
  show ?case
  proof (cases "j < cnt")
    case True
    then have "min (8 - s) (cnt - j) = Suc (min (8 - Suc s) (cnt - Suc j))" using s by (simp add: min_def) arith
    then have bits: "[s..<s + min (8 - s) (cnt - j)] = s # [Suc s..<Suc s + min (8 - Suc s) (cnt - Suc j)]"
      by (simp add: upt_conv_Cons del: upt_Suc)
    have "bool_byte v (drop_bit s 128) j cnt dst = bool_byte v (drop_bit (Suc s) 128) (Suc j) cnt (dst @ [bit v (7 - s)])"
      by (subst bool_byte.simps) (simp only: pos True mask shift simp_thms if_True)
    also have "\<dots> = (Suc j + min (8 - Suc s) (cnt - Suc j),
        (dst @ [bit v (7 - s)]) @ map (\<lambda>t. bit v (7 - t)) [Suc s..<Suc s + min (8 - Suc s) (cnt - Suc j)])"
      by (rule Suc.hyps(1) [OF s(3,2)])
    finally show ?thesis unfolding bits using \<open>min (8 - s) (cnt - j) = _\<close> by simp
  next
    case False
    then show ?thesis by (subst bool_byte.simps) simp
  qed
qed

lemma bool_bytes_bits:
  "bool_bytes bs j cnt dst = dst @ map (bit_at bs) [0..<min (8 * length bs) (cnt - j)]"
proof (induction bs arbitrary: j dst)
  case (Cons v bs)
  let ?k = "min 8 (cnt - j)"
  have step: "bool_byte v 128 j cnt dst = (j + ?k, dst @ map (\<lambda>t. bit v (7 - t)) [0..<?k])"
    using bool_byte_bits [of 0 v j cnt dst] by simp
  have "map (bit_at (v # bs)) [0..<min (8 * length (v # bs)) (cnt - j)] =
      map (\<lambda>t. bit v (7 - t)) [0..<?k] @ map (bit_at bs) [0..<min (8 * length bs) (cnt - (j + ?k))]"
    (is "map _ [0..<?m] = ?first @ ?rest")
  proof (rule nth_equalityI)
    show "length (map (bit_at (v # bs)) [0..<?m]) = length (?first @ ?rest)" by simp
    fix t assume "t < length (map (bit_at (v # bs)) [0..<?m])"
    then have t: "t < ?m" by simp
    show "map (bit_at (v # bs)) [0..<?m] ! t = (?first @ ?rest) ! t"
    proof (cases "t < 8")
      case True
      then show ?thesis using t by (simp add: bit_at_def nth_append)
    next
      case False
      then have k: "?k = 8" and "t div 8 = Suc ((t - 8) div 8)" "t mod 8 = (t - 8) mod 8"
        using t by (simp_all add: le_div_geq le_mod_geq)
      then have "bit_at (v # bs) t = bit_at bs (t - 8)" by (simp add: bit_at_def)
      moreover have "t - 8 < min (8 * length bs) (cnt - (j + 8))" using t False by (simp add: less_diff_conv) linarith
      ultimately show ?thesis using t False k by (simp add: nth_append)
    qed
  qed
  then show ?case by (simp add: step Cons.IH)
qed simp

lemma ceil_8: "n div 8 + (if n mod 8 > 0 then 1 else 0) = (n + 7) div (8::nat)"
  by (cases "n mod 8 = 0") (simp_all, presburger+)

lemma boolean_encode_decode:
  assumes ok: "varint_ok enc_var dec_var" "varint_short enc_var" and len: "length src < 2 ^ 56"
  shows "\<exists>bytes. boolean_encode enc_var src = Inr bytes \<and> boolean_decode dec_var bytes dst = Inr (Inr (), dst @ src)"
proof (cases "src = []")
  case False
  define e where "e = enc_var (of_nat (length src))"
  define h where "h = 1 + length e"
  have cnt: "unat (of_nat (length src) :: u64) = length src" using len by (simp add: unat_of_nat)
  then have e8: "length e \<le> 8" using varint_shortD [OF ok(2), of "of_nat (length src)" 7] len by (simp add: e_def)
  let ?data = "replicate (8 - length e + (length src + 7) div 8) (0::u8)"
  let ?d1 = "bool_header # e @ ?data"
  have w: "write_at 1 e ((replicate (1 + 8 + (length src + 7) div 8) 0)[0 := bool_header]) = Inr ?d1"
  proof -
    have "1 + 8 + x = Suc (8 + x)" for x :: nat by simp
    then have "(replicate (1 + 8 + x) (0::u8))[0 := bool_header] = bool_header # replicate (8 + x) 0" for x
      by (simp only: replicate_Suc list_update_code)
    then show ?thesis using e8 by (simp only: write_at_def) simp
  qed
  have room: "h * 8 + length src \<le> 8 * length ?d1" by (simp add: h_def)
  obtain d2 where r: "bool_loop src (h * 8) ?d1 = Inr (d2, h * 8 + length src)" "length d2 = length ?d1"
    and bits: "\<And>k. bit_at d2 k = (if h * 8 \<le> k \<and> k < h * 8 + length src then src ! (k - h * 8) else bit_at ?d1 k)"
    and same: "\<And>q. q < h \<Longrightarrow> d2 ! q = ?d1 ! q"
    using bool_loop_spec [OF room] by auto
  define m where "m = (length src + 7) div 8"
  define bytes where "bytes = take (h + m) d2"
  have m: "(h * 8 + length src) div 8 + (if (h * 8 + length src) mod 8 > 0 then 1 else 0) = h + m"
    unfolding m_def using ceil_8 [of "length src"] by simp
  have split: "bytes = bool_header # e @ drop h bytes"
  proof (rule nth_equalityI)
    fix q assume "q < length bytes"
    then show "bytes ! q = (bool_header # e @ drop h bytes) ! q"
      using same [of q] r(2) by (cases "q < h") (auto simp: bytes_def h_def nth_Cons' nth_append)
  qed (use r(2) e8 in \<open>simp add: bytes_def h_def m_def\<close>)
  have data: "length (drop h bytes) = m" using r(2) e8 by (simp add: bytes_def h_def m_def)
  have "bit_at (drop h bytes) k = src ! k" if "k < length src" for k
  proof -
    have "k div 8 < m" using that unfolding m_def by linarith
    then have "drop h bytes ! (k div 8) = d2 ! (h + k div 8)" using data by (simp add: bytes_def)
    then show ?thesis using bits [of "h * 8 + k"] that by (simp add: bit_at_def)
  qed
  then have "map (bit_at (drop h bytes)) [0..<length src] = src" by (intro nth_equalityI) simp_all
  moreover have "min (m * 8) (length src) = length src" unfolding m_def by linarith
  ultimately have vals: "bool_bytes (drop h bytes) 0 (min (length (drop h bytes) * 8) (length src)) dst = dst @ src"
    using data by (simp add: bool_bytes_bits mult.commute)
  have "boolean_encode enc_var src = Inr bytes"
    using False w r(1) m by (simp add: boolean_encode_def e_def [symmetric] h_def Let_def bytes_def)
  moreover have "boolean_decode dec_var (bool_header # e @ drop h bytes) dst = Inr (Inr (), dst @ src)"
    using varint_okD(2) [OF ok(1), of "of_nat (length src)" "drop h bytes"] vals
    by (simp add: boolean_decode_def e_def [symmetric] cnt)
  ultimately show ?thesis using split by metis
qed (simp add: boolean_encode_def boolean_decode_def)

text \<open>C32. The boolean encoder always succeeds, and the decoder returns the encoded booleans.\<close>

theorem boolean_roundtrip:
  assumes "varint_ok enc_var dec_var" "varint_short enc_var" and "length src < 2 ^ 56"
  shows "\<exists>bytes. boolean_encode enc_var src = Inr bytes \<and> boolean_decode dec_var bytes dst = Inr (Inr (), dst @ src)"
  by (rule boolean_encode_decode [OF assms])

theorem boolean_roundtrip_witness:
  "\<exists>bytes. boolean_encode (leb_enc 9) [True, False, True, True, False, True, False, False, True] = Inr bytes \<and>
    boolean_decode leb_dec bytes [False] = Inr (Inr (), [False, True, False, True, True, False, True, False, False, True])"
  using boolean_roundtrip [OF leb128_ok leb128_short, of "[True, False, True, True, False, True, False, False, True]" "[False]"]
  by simp

end
