(* ===== verification/Tsm_String.thy ===== *)
theory Tsm_String
  imports Tsm_Integer
begin

text \<open>
  \<open>influxdb_tsm/src/encoders/string.rs\<close>: the length of each string and its bytes, compressed by snappy,
  which is a parameter.
\<close>

section \<open>The string encoder\<close>

definition string_source_size :: "u8 list list \<Rightarrow> nat" where
  "string_source_size src = 2 + length src * 5 + sum_list (map length src)"

definition copy_at :: "nat \<Rightarrow> u8 list \<Rightarrow> u8 list \<Rightarrow> u8 list res" where
  "copy_at n bs dst = assert_res (n + length bs \<le> length dst) ''range end index out of range''
     (Inr (take n dst @ bs @ drop (n + length bs) dst))"

fun string_loop :: "(u64 \<Rightarrow> u8 list) \<Rightarrow> u8 list list \<Rightarrow> nat \<Rightarrow> u8 list \<Rightarrow> (u8 list \<times> nat) res" where
  "string_loop enc_var [] n data = Inr (data, n)"
| "string_loop enc_var (s # ss) n data =
     bind_res (write_at n (enc_var (of_nat (length s))) data) (\<lambda>data.
     let n = n + length (enc_var (of_nat (length s))) in
     bind_res (copy_at n s data) (\<lambda>data. string_loop enc_var ss (n + length s) data))"

text \<open>\<open>max_compress_len\<close>, \<open>compress\<close> (into a buffer of a given length) and \<open>decompress\<close> are those of the
  crate \<open>snap\<close>. The result is the error, or the contents of \<open>dst\<close>.\<close>

definition string_encode :: "(u64 \<Rightarrow> u8 list) \<Rightarrow> (nat \<Rightarrow> nat) \<Rightarrow> (u8 list \<Rightarrow> nat \<Rightarrow> string + u8 list) \<Rightarrow>
    u8 list list \<Rightarrow> (string + u8 list) res" where
  "string_encode enc_var max_compress_len compress src =
    (if src = [] then Inr (Inr [])
     else assert_res (list_all (\<lambda>s. length s < 2 ^ 31 - 1) src) ''assertion failed: len < MAX_I32''
       (let source_size = string_source_size src; max_encoded_len = max_compress_len source_size in
        if max_encoded_len = 0 then Inr (Inl ''source length too large'')
        else bind_res (string_loop enc_var src 0 (replicate source_size 0)) (\<lambda>(data, n).
          case compress (take n data) max_encoded_len of
            Inl e \<Rightarrow> Inr (Inl e)
          | Inr bytes \<Rightarrow> Inr (Inr (push_bit 4 1 # bytes)))))"

section \<open>The string decoder\<close>

text \<open>\<open>lower + length\<close> on \<open>usize\<close>.\<close>

definition add_usize :: "bool \<Rightarrow> nat \<Rightarrow> nat \<Rightarrow> nat res" where
  "add_usize checks a b = assert_res (checks \<longrightarrow> a + b < 2 ^ 64) ''attempt to add with overflow'' (Inr ((a + b) mod 2 ^ 64))"

text \<open>The loop consumes at least one byte per string when \<open>dec_var\<close> does, so that one round per byte is
  enough fuel; running out of it stands for a loop that does not end.\<close>

fun string_decode_loop :: "nat \<Rightarrow> (u8 list \<Rightarrow> (u64 \<times> nat) option) \<Rightarrow> bool \<Rightarrow> u8 list \<Rightarrow> nat \<Rightarrow> u8 list list \<Rightarrow>
    ((string + unit) \<times> u8 list list) res" where
  "string_decode_loop 0 dec_var checks bytes i dst = Inl Diverges"
| "string_decode_loop (Suc fuel) dec_var checks bytes i dst =
     (if i < length bytes then
        case dec_var (drop i bytes) of
          None \<Rightarrow> Inr (Inl ''invalid encoded string length'', dst)
        | Some (len, num_bytes_read) \<Rightarrow>
            let lower = i + num_bytes_read in
            bind_res (add_usize checks lower (unat len)) (\<lambda>upper.
              if upper < lower then Inr (Inl ''length overflow'', dst)
              else if length bytes < upper then Inr (Inl ''short buffer'', dst)
              else string_decode_loop fuel dec_var checks bytes (i + (unat len + num_bytes_read))
                (dst @ [take (upper - lower) (drop lower bytes)]))
      else Inr (Inr (), dst))"

definition string_decode :: "(u8 list \<Rightarrow> (u64 \<times> nat) option) \<Rightarrow> (u8 list \<Rightarrow> string + u8 list) \<Rightarrow> bool \<Rightarrow>
    u8 list \<Rightarrow> u8 list list \<Rightarrow> ((string + unit) \<times> u8 list list) res" where
  "string_decode dec_var decompress checks src dst =
    (if src = [] then Inr (Inr (), dst)
     else case decompress (drop 1 src) of
       Inl e \<Rightarrow> Inr (Inl e, dst)
     | Inr decoded_bytes \<Rightarrow> string_decode_loop (Suc (length decoded_bytes)) dec_var checks decoded_bytes 0 dst)"

section \<open>Round trip\<close>

text \<open>What the code relies on of \<open>snap\<close>: a buffer of \<open>max_compress_len\<close> bytes is enough, a longer input
  has no smaller bound, and decompression inverts compression.\<close>

definition snappy_ok :: "(nat \<Rightarrow> nat) \<Rightarrow> (u8 list \<Rightarrow> nat \<Rightarrow> string + u8 list) \<Rightarrow> (u8 list \<Rightarrow> string + u8 list) \<Rightarrow> bool" where
  "snappy_ok max_compress_len compress decompress \<longleftrightarrow>
     (\<forall>data m. max_compress_len (length data) \<noteq> 0 \<and> max_compress_len (length data) \<le> m \<longrightarrow>
        (\<exists>bytes. compress data m = Inr bytes \<and> decompress bytes = Inr data)) \<and>
     (\<forall>a b. a \<le> b \<and> max_compress_len b \<noteq> 0 \<longrightarrow> max_compress_len a \<noteq> 0 \<and> max_compress_len a \<le> max_compress_len b)"

fun string_bytes :: "(u64 \<Rightarrow> u8 list) \<Rightarrow> u8 list list \<Rightarrow> u8 list" where
  "string_bytes enc_var [] = []"
| "string_bytes enc_var (s # ss) = enc_var (of_nat (length s)) @ s @ string_bytes enc_var ss"

lemma string_loop_bytes:
  assumes "n + length (string_bytes enc_var src) \<le> length data"
  shows "string_loop enc_var src n data =
    Inr (take n data @ string_bytes enc_var src @ drop (n + length (string_bytes enc_var src)) data, n + length (string_bytes enc_var src))"
  using assms
proof (induction src arbitrary: n data)
  case (Cons s ss)
  let ?e = "enc_var (of_nat (length s))"
  have "string_loop enc_var (s # ss) n data =
      string_loop enc_var ss (n + length ?e + length s) (take n data @ ?e @ s @ drop (n + length ?e + length s) data)"
    using Cons.prems by (simp add: write_at_def copy_at_def Let_def add.commute add.left_commute)
  also have "\<dots> = Inr (take n data @ ?e @ s @ string_bytes enc_var ss @
      drop (n + length (string_bytes enc_var (s # ss))) data, n + length (string_bytes enc_var (s # ss)))"
    using Cons.prems by (subst Cons.IH) (simp_all add: add.commute add.left_commute add.assoc)
  finally show ?case by simp
qed simp

lemma length_string_bytes:
  assumes "varint_short enc_var" and "\<forall>s\<in>set src. length s < 2 ^ 31 - 1"
  shows "length (string_bytes enc_var src) \<le> length src * 5 + sum_list (map length src)"
  using assms(2)
proof (induction src)
  case (Cons s ss)
  have "unat (of_nat (length s) :: u64) < 2 ^ (7 * Suc 4)" using Cons.prems by (simp add: unat_of_nat)
  then have "length (enc_var (of_nat (length s))) \<le> 5" using varint_shortD [OF assms(1), of _ 4] by simp
  then show ?case using Cons by simp
qed simp

lemma varint_nonempty:
  assumes "varint_ok enc_var dec_var"
  shows "enc_var n \<noteq> []"
proof
  assume "enc_var n = []"
  then have "dec_var xs = Some (n, 0)" for xs using varint_okD(2) [OF assms, of n xs] by simp
  then have "Some (n + 1, length (enc_var (n + 1))) = Some (n, 0)"
    using varint_okD(3) [OF assms, of "n + 1"] by metis
  then show False by simp
qed

lemma string_decode_loop_bytes:
  assumes ok: "varint_ok enc_var dec_var" and small: "\<forall>s\<in>set src. length s < 2 ^ 31 - 1"
    and total: "length pre + length (string_bytes enc_var src) < 2 ^ 64" and fuel: "length (string_bytes enc_var src) < fuel"
  shows "string_decode_loop fuel dec_var checks (pre @ string_bytes enc_var src) (length pre) dst = Inr (Inr (), dst @ src)"
  using small total fuel
proof (induction src arbitrary: pre fuel dst)
  case Nil
  then show ?case by (cases fuel) simp_all
next
  case (Cons s ss)
  let ?e = "enc_var (of_nat (length s))" and ?rest = "string_bytes enc_var ss"
  obtain k where fuel: "fuel = Suc k" using Cons.prems(3) by (cases fuel) simp_all
  have e: "0 < length ?e" using varint_nonempty [OF ok] by simp
  have dec: "dec_var (?e @ s @ ?rest) = Some (of_nat (length s), length ?e)" by (rule varint_okD(2) [OF ok])
  have len: "unat (of_nat (length s) :: u64) = length s" using Cons.prems(1) by (simp add: unat_of_nat)
  have "add_usize checks (length pre + length ?e) (length s) = Inr (length pre + length ?e + length s)"
    using Cons.prems(2) by (simp add: add_usize_def)
  then have "string_decode_loop fuel dec_var checks (pre @ string_bytes enc_var (s # ss)) (length pre) dst =
      string_decode_loop k dec_var checks ((pre @ ?e @ s) @ ?rest) (length (pre @ ?e @ s)) (dst @ [s])"
    using e by (simp add: fuel dec len Let_def add.commute add.left_commute)
  moreover have "length ?rest < k" using Cons.prems(3) e fuel by (simp del: length_0_conv length_greater_0_conv)
  then have "string_decode_loop k dec_var checks ((pre @ ?e @ s) @ ?rest) (length (pre @ ?e @ s)) (dst @ [s]) = Inr (Inr (), (dst @ [s]) @ ss)"
    using Cons.prems by (intro Cons.IH) simp_all
  ultimately show ?case by simp
qed

lemma string_encode_decode:
  assumes "varint_ok enc_var dec_var" "varint_short enc_var" "snappy_ok max_compress_len compress decompress"
    and "\<forall>s\<in>set src. length s < 2 ^ 31 - 1" and "string_source_size src < 2 ^ 64" and "src \<noteq> []"
  shows "if max_compress_len (string_source_size src) = 0
    then string_encode enc_var max_compress_len compress src = Inr (Inl ''source length too large'')
    else \<exists>bytes. string_encode enc_var max_compress_len compress src = Inr (Inr bytes) \<and>
      string_decode dec_var decompress checks bytes dst = Inr (Inr (), dst @ src)"
proof (cases "max_compress_len (string_source_size src) = 0")
  case True
  then show ?thesis using assms(4,6) by (simp add: string_encode_def list_all_iff)
next
  case False
  let ?data = "string_bytes enc_var src"
  have size: "length ?data \<le> string_source_size src"
    using length_string_bytes [OF assms(2,4)] by (simp add: string_source_size_def)
  then obtain bytes where bytes: "compress ?data (max_compress_len (string_source_size src)) = Inr bytes" "decompress bytes = Inr ?data"
    using assms(3) False unfolding snappy_ok_def by metis
  have "string_loop enc_var src 0 (replicate (string_source_size src) 0) =
      Inr (?data @ drop (length ?data) (replicate (string_source_size src) 0), length ?data)"
    using string_loop_bytes [of 0 enc_var src] size by simp
  then have "string_encode enc_var max_compress_len compress src = Inr (Inr (push_bit 4 1 # bytes))"
    using assms(4,6) False bytes(1) by (simp add: string_encode_def list_all_iff Let_def)
  moreover have "string_decode_loop (Suc (length ?data)) dec_var checks ([] @ ?data) (length ([]::u8 list)) dst = Inr (Inr (), dst @ src)"
    using assms(5) size by (intro string_decode_loop_bytes [OF assms(1,4)]) simp_all
  ultimately show ?thesis using bytes(2) False by (simp add: string_decode_def)
qed

text \<open>C33. The string encoder on every input whose size computation fits in \<open>usize\<close>. A string of \<open>i32::MAX\<close>
  bytes or more panics. Otherwise an error is reported exactly when snappy has no bound for the
  over-estimate of the input, two bytes plus five bytes per string plus the strings themselves (which
  may be more than what would be compressed). In every other case, an empty list of strings included,
  decoding the block appends the encoded strings to the destination.\<close>

theorem string_roundtrip:
  assumes "varint_ok enc_var dec_var" "varint_short enc_var" "snappy_ok max_compress_len compress decompress"
    and "string_source_size src < 2 ^ 64"
  shows "if \<exists>s \<in> set src. 2 ^ 31 - 1 \<le> length s
    then string_encode enc_var max_compress_len compress src = Inl (Panic ''assertion failed: len < MAX_I32'')
    else if src \<noteq> [] \<and> max_compress_len (string_source_size src) = 0
    then string_encode enc_var max_compress_len compress src = Inr (Inl ''source length too large'')
    else \<exists>bytes. string_encode enc_var max_compress_len compress src = Inr (Inr bytes) \<and>
      string_decode dec_var decompress checks bytes dst = Inr (Inr (), dst @ src)"
proof -
  consider "\<exists>s \<in> set src. 2 ^ 31 - 1 \<le> length s"
    | "\<forall>s \<in> set src. length s < 2 ^ 31 - 1" "src = []"
    | "\<forall>s \<in> set src. length s < 2 ^ 31 - 1" "src \<noteq> []"
    by (metis not_le)
  then show ?thesis
  proof cases
    case 1
    then have "src \<noteq> []" "\<not> list_all (\<lambda>s. length s < 2 ^ 31 - 1) src" by (auto simp: list_all_iff not_less)
    then show ?thesis using 1 by (simp only: string_encode_def if_True if_False assert_res_False not_False_eq_True)
  next
    case 2
    then show ?thesis by (simp add: string_encode_def string_decode_def)
  next
    case 3
    then show ?thesis using string_encode_decode [OF assms(1-3) 3(1) assms(4) 3(2), of checks dst] by (auto simp: not_le)
  qed
qed

definition store_max :: "nat \<Rightarrow> nat" where
  "store_max n = (if n < 2 ^ 32 then n + 1 else 0)"

definition store_raw :: "u8 list \<Rightarrow> nat \<Rightarrow> string + u8 list" where
  "store_raw d m = (if length d < m then Inr d else Inl ''buffer too small'')"

theorem string_roundtrip_witness:
  "\<exists>bytes. string_encode (leb_enc 9) store_max store_raw [[104, 105], [], [1, 2, 3]] = Inr (Inr bytes) \<and>
    string_decode leb_dec Inr True bytes [[7]] = Inr (Inr (), [[7], [104, 105], [], [1, 2, 3]])"
proof -
  have "snappy_ok store_max store_raw Inr"
    by (auto simp: snappy_ok_def store_max_def store_raw_def)
  then show ?thesis
    using string_roundtrip [OF leb128_ok leb128_short, of store_max store_raw Inr "[[104, 105], [], [1, 2, 3]]" True "[[7]]"]
    by (simp add: string_source_size_def store_max_def)
qed

end
