(* ===== verification/Spec2Isabelle.thy ===== *)
theory Spec2Isabelle
  imports Round_Info_Source Garbage_Collector Tsm_Timestamp Tsm_Boolean Tsm_String
begin

text \<open>
  Verification of parts of InfluxDB IOx: the decisions of the compactor, the in-memory catalog, the garbage
  collector and the encoders of the TSM format. Paths below are relative to \<open>src/\<close>.

  \<^bold>\<open>The program.\<close> Ingesters persist small level 0 parquet files and register them in the catalog. The
  compactor picks a partition, divides its files into ranges and branches (a round), classifies the files
  of each branch into those to compact, to split, to upgrade to the next level as they are and to keep,
  turns the classification into plans, and commits the outcome to the catalog in one transaction. Level
  0 files may overlap anything; files of the same higher level must not overlap each other in time. The
  garbage collector flags files past the retention period, removes old rows of the catalog and deletes
  objects that no row refers to. \<open>influxdb_tsm\<close> reads and writes the column blocks of InfluxDB 1.x files.

  \<^bold>\<open>Conventions.\<close> A struct is a record, an enum a datatype, one function per function of the source.
  \<^item> A function that may panic (\<open>assert!\<close>, \<open>unwrap\<close>, an index, \<open>unreachable!\<close>) returns \<open>'a res\<close>; \<open>Inl (Panic m)\<close>
    names the site and \<open>Inl Diverges\<close> is a loop that never ends. A \<open>Result\<close> is a sum inside of it; a catalog
    call is a function from the state to a result and the new state.
  \<^item> Timestamps and file sizes (\<open>i64\<close>) are \<open>int\<close>. The wrap-around of a release build is written out by
    \<open>wrap_i64\<close> where the source adds, subtracts or multiplies times: in the split times of
    \<open>Start_Level_Split\<close> and \<open>Planner\<close>, in \<open>Linear_Ranges\<close> and in the hints of \<open>Round_Info_Source\<close>. Theorems
    about these functions assume that nothing overflows, and then a build with overflow checks behaves
    the same; what happens otherwise is shown at the end of \<open>Planner\<close>. Casts wrap (\<open>as_usize\<close>, \<open>as_i64\<close>).
  \<^item> Sums of file sizes are not reduced modulo \<open>2 ^ 64\<close>; the theorems that depend on them assume a total
    below \<open>2 ^ 63\<close> bytes.
  \<^item> \<open>f64\<close> is the theory \<open>F64\<close>, correctly rounded. The TSM encoders work on \<open>8 word\<close> and \<open>64 word\<close>; where the source
    uses plain \<open>+\<close>, a parameter \<open>checks\<close> says whether the build panics on overflow.

  \<^bold>\<open>Foundations.\<close>
  \<^item> \<open>Prelude\<close>: panics, casts, minima and maxima of lists, and the collection \<open>conserve\<close> of multiset equations
    (nothing lost, nothing duplicated) that the accounting lemmas of all components rest on.
  \<^item> \<open>Data_Types\<close>: \<open>data_types/src/lib.rs\<close>, compaction levels (a \<open>linorder\<close>), \<open>ParquetFile\<close>, overlap tests,
    \<open>TimestampRange\<close> and \<open>TimestampMinMax\<close>. Lemmas: which timestamps a range contains and when the
    constructor panics; the overlap test is exact.
  \<^item> \<open>F64\<close>: double precision by integers. Lemmas: the operations are the exact ones followed by rounding;
    rounding is monotone, keeps powers of two and has a relative error of at most \<open>2\<^sup>-\<^sup>5\<^sup>3\<close>.

  \<^bold>\<open>The compactor\<close> (\<open>compactor/src\<close>).
  \<^item> \<open>File_Group\<close> (\<open>file_group.rs\<close>): time ranges of groups of files.
  \<^item> \<open>Files_Split\<close> (\<open>components/files_split\<close>): the three implementations of the trait \<open>FilesSplit\<close>. Its contract
    is the locale \<open>files_split\<close>, interpreted for each of them. Lemmas: what is upgraded or left out shares
    no timestamp with what is compacted.
  \<^item> \<open>Round_Info\<close> (\<open>round_info.rs\<close>), \<open>Divide_Initial\<close> (\<open>components/divide_initial\<close>, \<open>components/round_split\<close>):
    the kinds of rounds and the division of files into branches. Lemmas: branches are segments of the
    ordered files within the limits; a target level round has one branch with every start level file.
  \<^item> \<open>File_Classification\<close> (\<open>file_classification.rs\<close>): the result of a classification.
  \<^item> \<open>Files_To_Compact\<close>, \<open>Start_Level_Split\<close>, \<open>Linear_Ranges\<close>, \<open>Split_Compact\<close> (\<open>components/split_or_compact\<close>): choosing
    a set within the limits, aligning start level files with target level files, chains of overlapping
    files, split times, data density, and the function that composes them. Lemmas: no file is lost, the
    chosen set is closed under overlap and within the byte limit, split times lie inside the files, the
    chains are the components of the overlap relation, the loops end; the two ways to panic.
  \<^item> \<open>Classifier\<close> (\<open>components/file_classifier/split_based.rs\<close>, with the components \<open>hardcoded.rs\<close> plugs in). Lemmas:
    every file is classified once; after a compaction the files of the target level are again pairwise
    disjoint in time, which is the invariant the levels stand for.
  \<^item> \<open>Planner\<close> (\<open>components/ir_planner/planner_v1.rs\<close>, \<open>plan_ir.rs\<close>): plans and their split times. Lemmas: plans cover
    exactly their files and meet what the query planner demands of split times; two overflows.
  \<^item> \<open>Round_Info_Source\<close> (\<open>components/round_info_source/mod.rs\<close>): the rounds of a partition. Lemmas: planning loses no
    file; an empty piece of a vertical split panics.

  \<^bold>\<open>The catalog\<close> (\<open>iox_catalog/src/mem.rs\<close>).
  \<^item> \<open>Mem_Catalog\<close>: the rows and every method of the repositories.
  \<^item> \<open>Catalog_Inv\<close>: the calls as a datatype, the states they reach as an inductive predicate, and the
    invariant that rows are identified by their keys, kept by every call.
  \<^item> \<open>Catalog_Commit\<close>: the abstract catalog, a map from ids to files, and the transaction of the compactor
    as a refinement of it.
  \<^item> \<open>Catalog_Props\<close>: properties of histories, among them the flagger of
    \<open>garbage_collector/src/retention/flagger.rs\<close> and the ids that are assigned twice.

  \<^bold>\<open>The garbage collector\<close> (\<open>garbage_collector/src\<close>). \<open>Garbage_Collector\<close>: lister, checker and deleter of objects and the
  deleter of rows as a step relation that interleaves them with uploads and catalog calls. Lemma: the
  object of every row stays in the store, if objects are registered before they reach the cutoff age.

  \<^bold>\<open>The TSM encoders\<close> (\<open>influxdb_tsm/src/encoders\<close>). \<open>Tsm_Bytes\<close>, \<open>Tsm_Simple8b\<close>, \<open>Tsm_Integer\<close> (with \<open>unsigned.rs\<close>),
  \<open>Tsm_Timestamp\<close>, \<open>Tsm_Boolean\<close> and \<open>Tsm_String\<close>. Lemmas: each encoder followed by its decoder returns the input, with
  the inputs on which one of them reports an error or panics.

  \<^bold>\<open>Parameters.\<close> Code outside of the repository is an argument: the variable length integers of the crate
  \<open>integer_encoding\<close> (\<open>varint_ok\<close>, \<open>varint_short\<close>, shown for LEB128), snappy (\<open>snappy_ok\<close>), SHA-256 in the hash of
  a partition, the printing of a UUID, the clock. What an executed plan writes is a hypothesis on its output
  (\<open>compaction_output\<close>).

  \<^bold>\<open>Loops and fuel.\<close> Loops are structural or have a measure. The two loops that may run forever,
  \<open>split_time_loop\<close> and \<open>select_loop\<close>, are partial functions whose result \<open>None\<close> becomes \<open>Diverges\<close>; that they
  return is proved. The decoder of strings takes one unit of fuel per byte and one more, which is enough
  since every round consumes a byte.

  \<^bold>\<open>Simplifications.\<close> In \<open>calculate\<close> a failure of the partition filter and its refusal are the same value. The
  checker of the garbage collector looks up a batch of objects in one step, deletions happen in the order in
  which they were scheduled (the source runs several at a time), and uploads go to paths that are
  not in the store. The check of ids against the in-memory catalog cannot fail. \<open>log10\<close> in the timestamp
  encoder is exact; it is applied to powers of ten only.

  \<^bold>\<open>Not modelled.\<close> The execution of plans, the parquet writer, the object store and the retrying wrappers around
  them (asynchronous I/O over DataFusion and Arrow); the SQL catalogs, whose meaning is that of the database; the
  float encoder and the readers of TSM files; ingester, router, querier, parsers, write-ahead log, caches, clients
  and servers; memory exhaustion, logging and metrics.
\<close>

end
